(* ===== verification/Prelude.thy ===== *)
theory Prelude
  imports Main "HOL-Library.Word" "HOL-Library.Monad_Syntax"
begin

unbundle bit_operations_syntax

text \<open>
  Shared vocabulary of the development.

  The plugin is C: its state is a set of global variables, its data structures are
  \<open>malloc\<close>ed structs joined by pointers.  This theory fixes how that is written in HOL.

  \<^item> Machine integers are words of their width (\<open>u8\<close>, \<open>u32\<close>, \<open>u64\<close>).
  \<^item> A pointer is a \<open>ref option\<close>: \<open>None\<close> is \<open>NULL\<close>, and a \<open>ref\<close> is the number of the
    \<open>malloc\<close> call that produced the block, so two blocks never share an address.
  \<^item> One store (a partial map from \<open>ref\<close>) per struct type holds the live blocks;
    \<open>free\<close> removes the block from its store.
  \<^item> A function that can run into undefined behaviour (a \<open>NULL\<close> or dangling dereference,
    an access outside an array) or that may not return has a result of type \<open>option\<close>;
    \<open>None\<close> is that behaviour.  C's own error codes are ordinary values.
  \<^item> Arrays are lists with checked access (\<open>arr_get\<close>, \<open>arr_set\<close>).
  \<^item> Singly linked lists are chains through a \<open>next\<close> field, and the three loops the code
    writes over them (walk, seek, free) are defined here once.
\<close>

section \<open>Machine types\<close>

type_synonym u8 = "8 word"
type_synonym u32 = "32 word"
type_synonym u64 = "64 word"
type_synonym ref = nat

named_theorems frame_simps "fields an operation leaves unchanged"
named_theorems chain_simps "how store updates act on chains"

section \<open>Arrays with checked access\<close>

definition arr_get :: "'a list \<Rightarrow> nat \<Rightarrow> 'a option" where
  "arr_get xs i = (if i < length xs then Some (xs ! i) else None)"

definition arr_set :: "'a list \<Rightarrow> nat \<Rightarrow> 'a \<Rightarrow> 'a list option" where
  "arr_set xs i v = (if i < length xs then Some (xs[i := v]) else None)"

lemma arr_get_Some [simp]: "arr_get xs i = Some v \<longleftrightarrow> i < length xs \<and> xs ! i = v"
  by (auto simp: arr_get_def)

lemma arr_set_Some [simp]: "arr_set xs i v = Some ys \<longleftrightarrow> i < length xs \<and> ys = xs[i := v]"
  by (auto simp: arr_set_def)

lemma arr_get_in [simp]: "i < length xs \<Longrightarrow> arr_get xs i = Some (xs ! i)"
  by (simp add: arr_get_def)

lemma arr_set_in [simp]: "i < length xs \<Longrightarrow> arr_set xs i v = Some (xs[i := v])"
  by (simp add: arr_set_def)

lemma arr_get_None [simp]: "arr_get xs i = None \<longleftrightarrow> length xs \<le> i"
  by (auto simp: arr_get_def)

lemma arr_set_None [simp]: "arr_set xs i v = None \<longleftrightarrow> length xs \<le> i"
  by (auto simp: arr_set_def)

lemma no_NULL_update: "None \<notin> set v \<Longrightarrow> None \<notin> set (v[i := Some m])"
  using set_update_subset_insert [of v i "Some m"] by blast

lemma find_append:
  "List.find test (xs @ ys) = (case List.find test xs of None \<Rightarrow> List.find test ys | Some x \<Rightarrow> Some x)"
  by (induction xs) auto

text \<open>Counting the elements with a property when one element is replaced.\<close>

lemma length_filter_update:
  assumes "i < length xs"
  shows "length (filter P (xs[i := y])) + (if P (xs ! i) then 1 else 0) =
         length (filter P xs) + (if P y then 1 else 0)"
proof -
  have "xs = take i xs @ xs ! i # drop (Suc i) xs" using assms by (rule id_take_nth_drop)
  then have "length (filter P xs) =
      length (filter P (take i xs)) + length (filter P (xs ! i # drop (Suc i) xs))"
    by (metis filter_append length_append)
  moreover have "xs[i := y] = take i xs @ y # drop (Suc i) xs"
    using assms by (rule upd_conv_take_nth_drop)
  ultimately show ?thesis by simp
qed

section \<open>Chains: singly linked lists in a store\<close>

text \<open>
  \<open>chain nx h p rs\<close>: starting at pointer \<open>p\<close> and following the field \<open>nx\<close> through the
  store \<open>h\<close> one meets exactly the blocks \<open>rs\<close>, and then \<open>NULL\<close>.
\<close>

fun chain :: "('n \<Rightarrow> ref option) \<Rightarrow> (ref \<rightharpoonup> 'n) \<Rightarrow> ref option \<Rightarrow> ref list \<Rightarrow> bool" where
  "chain nx h p [] \<longleftrightarrow> p = None"
| "chain nx h p (r # rs) \<longleftrightarrow>
     p = Some r \<and> (case h r of None \<Rightarrow> False | Some n \<Rightarrow> chain nx h (nx n) rs)"

lemma chain_NULL [chain_simps]: "chain nx h None rs \<longleftrightarrow> rs = []"
  by (cases rs) auto

lemma chain_ref [chain_simps]:
  "chain nx h (Some r) rs \<longleftrightarrow> (\<exists>n ts. h r = Some n \<and> rs = r # ts \<and> chain nx h (nx n) ts)"
  by (cases rs) (auto split: option.splits)

lemma chain_unique: "chain nx h p rs \<Longrightarrow> chain nx h p ts \<Longrightarrow> rs = ts"
  by (induction rs arbitrary: p ts) (auto simp: chain_simps split: option.splits)

lemma chain_live: "chain nx h p rs \<Longrightarrow> set rs \<subseteq> dom h"
  by (induction rs arbitrary: p) (auto split: option.splits)

lemma chain_liveD: "chain nx h p rs \<Longrightarrow> r \<in> set rs \<Longrightarrow> \<exists>n. h r = Some n"
  using chain_live by fastforce

lemma chain_suffix:
  "chain nx h p (xs @ r # ys) \<Longrightarrow> chain nx h (Some r) (r # ys)"
proof (induction xs arbitrary: p)
  case Nil
  then have "p = Some r" by simp
  with Nil show ?case by simp
next
  case (Cons a xs)
  then obtain n where "chain nx h (nx n) (xs @ r # ys)" by (auto split: option.splits)
  then show ?case by (rule Cons.IH)
qed

lemma chain_distinct: "chain nx h p rs \<Longrightarrow> distinct rs"
proof (induction rs arbitrary: p)
  case Nil
  then show ?case by simp
next
  case (Cons r rs)
  then obtain n where n: "h r = Some n" and tl: "chain nx h (nx n) rs" and p: "p = Some r"
    by (auto split: option.splits)
  have "r \<notin> set rs"
  proof
    assume "r \<in> set rs"
    then obtain xs ys where rs: "rs = xs @ r # ys" by (auto simp: in_set_conv_decomp)
    with tl have "chain nx h (Some r) (r # ys)" by (auto dest: chain_suffix)
    moreover have "chain nx h (Some r) (r # rs)" using Cons.prems p by simp
    ultimately have "r # ys = r # rs" by (rule chain_unique)
    with rs show False by simp
  qed
  with Cons.IH [OF tl] show ?case by simp
qed

lemma chain_frame [chain_simps]:
  "r \<notin> set rs \<Longrightarrow> chain nx (h(r := x)) p rs \<longleftrightarrow> chain nx h p rs"
  by (induction rs arbitrary: p) (auto split: option.splits)

text \<open>Writing a block without touching its \<open>next\<close> field keeps every chain.\<close>

lemma chain_same_next:
  "h r = Some n \<Longrightarrow> nx n' = nx n \<Longrightarrow> chain nx (h(r \<mapsto> n')) p rs \<longleftrightarrow> chain nx h p rs"
  by (induction rs arbitrary: p) (auto split: option.splits if_splits)

text \<open>Two stores that agree on the chain's blocks and their links have the same chain.\<close>

lemma chain_agree:
  "chain nx h p rs \<Longrightarrow> (\<And>r. r \<in> set rs \<Longrightarrow> map_option nx (h' r) = map_option nx (h r)) \<Longrightarrow>
   chain nx h' p rs"
proof (induction rs arbitrary: p)
  case Nil
  then show ?case by simp
next
  case (Cons r rs)
  then obtain n where n: "h r = Some n" "chain nx h (nx n) rs" "p = Some r"
    by (auto split: option.splits)
  moreover from n(1) Cons.prems(2) [of r] obtain n' where "h' r = Some n'" "nx n' = nx n"
    by (cases "h' r") auto
  moreover have "chain nx h' (nx n) rs" using n(2) Cons.prems(2) by (intro Cons.IH) auto
  ultimately show ?case by simp
qed

lemma chain_grow:
  "chain nx h p rs \<Longrightarrow> r \<notin> dom h \<Longrightarrow> nx n = p \<Longrightarrow> chain nx (h(r \<mapsto> n)) (Some r) (r # rs)"
proof -
  assume c: "chain nx h p rs" and r: "r \<notin> dom h" and n: "nx n = p"
  from chain_live [OF c] r have "r \<notin> set rs" by blast
  with c n show ?thesis by (simp add: chain_frame)
qed

text \<open>A chain is extended at its end by writing the link of its last block.\<close>

lemma chain_snoc:
  "chain nx h p (xs @ [a]) \<Longrightarrow> h a = Some n \<Longrightarrow> r \<notin> dom h \<Longrightarrow> nx n' = Some r \<Longrightarrow> nx m = None \<Longrightarrow>
   chain nx (h(a \<mapsto> n', r \<mapsto> m)) p (xs @ [a, r])"
proof (induction xs arbitrary: p)
  case Nil
  then show ?case by auto
next
  case (Cons x xs)
  then obtain k where k: "h x = Some k" "chain nx h (nx k) (xs @ [a])" "p = Some x"
    by (auto split: option.splits)
  have "distinct (x # xs @ [a])" using Cons.prems(1) chain_distinct by fastforce
  moreover have "x \<noteq> r" using k(1) Cons.prems(3) by blast
  ultimately show ?case using Cons.IH [OF k(2) Cons.prems(2-5)] k by auto
qed

text \<open>Every live block of the store was allocated before the \<open>m\<close>-th \<open>malloc\<close> call.\<close>

definition below :: "(ref \<rightharpoonup> 'n) \<Rightarrow> nat \<Rightarrow> bool" where
  "below h m \<longleftrightarrow> (\<forall>r n. h r = Some n \<longrightarrow> r < m)"

lemma below_empty [simp]: "below Map.empty m"
  by (simp add: below_def)

lemma below_fresh: "below h m \<Longrightarrow> h m = None"
  by (cases "h m") (auto simp: below_def)

lemma below_mono: "below h m \<Longrightarrow> m \<le> k \<Longrightarrow> below h k"
  by (fastforce simp: below_def)

lemma below_new: "below h m \<Longrightarrow> below (h(m \<mapsto> n)) (Suc m)"
  by (fastforce simp: below_def)

lemma below_write: "below h m \<Longrightarrow> h r = Some n \<Longrightarrow> below (h(r \<mapsto> n')) m"
  by (simp add: below_def)

lemma below_restrict: "below h m \<Longrightarrow> below (h |` A) m"
  by (auto simp: below_def restrict_map_def)

lemma chain_below: "chain nx h p rs \<Longrightarrow> below h m \<Longrightarrow> m \<notin> set rs"
  using chain_liveD below_fresh by fastforce

section \<open>The three loops over a chain\<close>

text \<open>
  \<^verbatim>\<open>item = p; while(item != NULL) { ...; item = item->next; }\<close>
  with a loop body that only reads the list: the accumulator holds whatever the body writes.
\<close>

partial_function (option) walk ::
  "('n \<Rightarrow> ref option) \<Rightarrow> (ref \<rightharpoonup> 'n) \<Rightarrow> (ref \<Rightarrow> 'n \<Rightarrow> 'a \<Rightarrow> 'a) \<Rightarrow> ref option \<Rightarrow> 'a \<Rightarrow> 'a option" where
  "walk nx h f p a =
     (case p of
        None \<Rightarrow> Some a
      | Some r \<Rightarrow> (case h r of None \<Rightarrow> None | Some n \<Rightarrow> walk nx h f (nx n) (f r n a)))"

text \<open>The same traversal, stopped at the first block that satisfies a test.\<close>

partial_function (option) seek ::
  "('n \<Rightarrow> ref option) \<Rightarrow> (ref \<rightharpoonup> 'n) \<Rightarrow> ('n \<Rightarrow> bool) \<Rightarrow> ref option \<Rightarrow> ref option option" where
  "seek nx h test p =
     (case p of
        None \<Rightarrow> Some None
      | Some r \<Rightarrow>
          (case h r of
             None \<Rightarrow> None
           | Some n \<Rightarrow> if test n then Some (Some r) else seek nx h test (nx n)))"

text \<open>
  \<^verbatim>\<open>while(p != NULL) { item = p; p = p->next; free(item); }\<close>
\<close>

partial_function (option) free_chain ::
  "('n \<Rightarrow> ref option) \<Rightarrow> ref option \<Rightarrow> (ref \<rightharpoonup> 'n) \<Rightarrow> (ref \<rightharpoonup> 'n) option" where
  "free_chain nx p h =
     (case p of
        None \<Rightarrow> Some h
      | Some r \<Rightarrow> (case h r of None \<Rightarrow> None | Some n \<Rightarrow> free_chain nx (nx n) (h(r := None))))"

lemma walk_NULL [simp]: "walk nx h f None a = Some a"
  by (subst walk.simps) simp

lemma walk_ref [simp]:
  "walk nx h f (Some r) a =
     (case h r of None \<Rightarrow> None | Some n \<Rightarrow> walk nx h f (nx n) (f r n a))"
  by (subst walk.simps) simp

lemma seek_NULL [simp]: "seek nx h test None = Some None"
  by (subst seek.simps) simp

lemma seek_ref [simp]:
  "seek nx h test (Some r) =
     (case h r of
        None \<Rightarrow> None
      | Some n \<Rightarrow> if test n then Some (Some r) else seek nx h test (nx n))"
  by (subst seek.simps) simp

lemma free_chain_NULL [simp]: "free_chain nx None h = Some h"
  by (subst free_chain.simps) simp

lemma free_chain_ref [simp]:
  "free_chain nx (Some r) h =
     (case h r of None \<Rightarrow> None | Some n \<Rightarrow> free_chain nx (nx n) (h(r := None)))"
  by (subst free_chain.simps) simp

lemma walk_chain:
  "chain nx h p rs \<Longrightarrow> walk nx h f p a = Some (fold (\<lambda>r. f r (the (h r))) rs a)"
  by (induction rs arbitrary: p a) (auto split: option.splits)

lemma seek_chain:
  "chain nx h p rs \<Longrightarrow> seek nx h test p = Some (List.find (\<lambda>r. test (the (h r))) rs)"
  by (induction rs arbitrary: p) (auto split: option.splits)

lemma free_chain_frees:
  "chain nx h p rs \<Longrightarrow> free_chain nx p h = Some (h |` (- set rs))"
proof (induction rs arbitrary: p h)
  case Nil
  then show ?case by simp
next
  case (Cons r rs)
  from Cons.prems have r: "r \<notin> set rs" using chain_distinct by fastforce
  from Cons.prems obtain n where n: "h r = Some n" "chain nx h (nx n) rs" "p = Some r"
    by (auto split: option.splits)
  from n(2) r have "chain nx (h(r := None)) (nx n) rs" by (simp add: chain_frame)
  then have "free_chain nx (nx n) (h(r := None)) = Some ((h(r := None)) |` (- set rs))"
    by (rule Cons.IH)
  moreover have "(h(r := None)) |` (- set rs) = h |` (- set (r # rs))"
    by (auto simp: restrict_map_def)
  ultimately show ?case using n by simp
qed

text \<open>
  A traversal whose body can leave the function early (\<open>Inl\<close>), can be undefined itself (\<open>None\<close>)
  or goes on with a new accumulator (\<open>Inr\<close>).
\<close>

partial_function (option) walk_until ::
  "('n \<Rightarrow> ref option) \<Rightarrow> (ref \<rightharpoonup> 'n) \<Rightarrow> (ref \<Rightarrow> 'n \<Rightarrow> 'a \<Rightarrow> ('r + 'a) option) \<Rightarrow> ref option \<Rightarrow> 'a \<Rightarrow>
   ('r + 'a) option" where
  "walk_until nx h f p a =
     (case p of
        None \<Rightarrow> Some (Inr a)
      | Some r \<Rightarrow>
          (case h r of
             None \<Rightarrow> None
           | Some n \<Rightarrow>
               (case f r n a of
                  None \<Rightarrow> None
                | Some (Inl x) \<Rightarrow> Some (Inl x)
                | Some (Inr a) \<Rightarrow> walk_until nx h f (nx n) a)))"

lemma walk_until_NULL [simp]: "walk_until nx h f None a = Some (Inr a)"
  by (subst walk_until.simps) simp

lemma walk_until_ref [simp]:
  "walk_until nx h f (Some r) a =
     (case h r of
        None \<Rightarrow> None
      | Some n \<Rightarrow>
          (case f r n a of
             None \<Rightarrow> None
           | Some (Inl x) \<Rightarrow> Some (Inl x)
           | Some (Inr a) \<Rightarrow> walk_until nx h f (nx n) a))"
  by (subst walk_until.simps) simp

lemma walk_until_chain:
  "chain nx h p rs \<Longrightarrow> (\<And>r n a. r \<in> set rs \<Longrightarrow> h r = Some n \<Longrightarrow> f r n a = Some (Inr (g r a))) \<Longrightarrow>
   walk_until nx h f p a = Some (Inr (fold g rs a))"
  by (induction rs arbitrary: p a) (auto split: option.splits)

text \<open>Counting loops (\<^verbatim>\<open>size++\<close> once per block) count the chain.\<close>

lemma fold_count: "fold (\<lambda>r. Suc) rs a = length rs + a"
  by (induction rs arbitrary: a) auto

lemma walk_count: "chain nx h p rs \<Longrightarrow> walk nx h (\<lambda>r n. Suc) p 0 = Some (length rs)"
  by (simp add: walk_chain fold_count)

text \<open>A walk that appends one entry per block builds the mapped list.\<close>

lemma fold_snoc: "fold (\<lambda>r xs. xs @ [g r]) rs a = a @ map g rs"
  by (induction rs arbitrary: a) auto

lemma walk_map:
  "chain nx h p rs \<Longrightarrow>
   walk nx h (\<lambda>r n xs. xs @ [g r n]) p [] = Some (map (\<lambda>r. g r (the (h r))) rs)"
  by (simp add: walk_chain fold_snoc)

section \<open>Cells: what a linked struct offers\<close>

text \<open>
  A struct with a \<open>next\<close> field: reading the field after writing it gives what was written.
  Every list of the plugin is grown by the same three assignments (allocate, set \<open>next\<close> to the
  old head, make the block the head); the lemmas about it are proved here once.
\<close>

locale linked_cell =
  fixes nx :: "'n \<Rightarrow> ref option"
    and link :: "ref option \<Rightarrow> 'n \<Rightarrow> 'n"
  assumes nx_link [simp]: "nx (link p n) = p"
begin

lemma push_front:
  "chain nx h p rs \<Longrightarrow> r \<notin> dom h \<Longrightarrow> chain nx (h(r \<mapsto> link p n)) (Some r) (r # rs)"
  by (rule chain_grow) simp_all

lemma push_front_others:
  "chain nx h p rs \<Longrightarrow> r \<notin> dom h \<Longrightarrow> t \<in> set rs \<Longrightarrow> (h(r \<mapsto> link p n)) t = h t"
  by (auto dest!: chain_live)

end

end
