(* ===== verification/Machine.thy ===== *)
theory Machine
  imports Prelude
begin

text \<open>
  The world outside \<^verbatim>\<open>faultplugin/\<close>.

  QEMU's plugin API and the C runtime are not part of this repository.  They are a parameter
  of the model: the record \<open>env\<close> of functions over an abstract guest state \<open>'g\<close>.  What the
  plugin relies on is stated as predicates over that record (\<open>ram\<close>, \<open>regs_ok\<close>), and a flat
  guest (\<open>flat_env\<close>) shows that the predicates can hold.  Diagnostic output
  (\<^verbatim>\<open>qemu_plugin_outs\<close> and the \<^verbatim>\<open>GString\<close> it prints) has no effect on the state and is left out.

  The record \<open>machine\<close> is the root of the plugin's global state: the guest, the number of
  \<open>malloc\<close> calls made so far and the callbacks registered with QEMU.  Every component extends
  it with its own global variables, so that the fully extended record holds all the globals
  of the C program.
\<close>

section \<open>Translation blocks and callbacks as QEMU hands them out\<close>

record insn =
  insn_vaddr :: u64
  insn_size :: u64
  insn_disas :: string

record tb =
  tb_vaddr :: u64
  tb_insns :: "insn list"

text \<open>
  A callback is registered for an instruction or a translation block (the first component, its
  address) together with its user data.  The constructors are the plugin's handlers.
\<close>

datatype callback =
    Trigger_insn_cb u64 ref
  | Tb_exec_cb u64 ref
  | Tb_exec_data_event u64 "ref option"
  | Tb_exec_end_max_event u64 u64
  | Memaccess_data_cb u64
  | Tb_exec_end_cb u64 ref
  | Tb_exec_start_cb u64

section \<open>The environment\<close>

record 'g env =
  read_mem :: "u64 \<Rightarrow> nat \<Rightarrow> 'g \<Rightarrow> int \<times> u8 list \<times> 'g"
    \<comment> \<open>\<^verbatim>\<open>qemu_plugin_rw_memory_cpu(addr, buf, len, 0)\<close>: return code and the bytes put in \<^verbatim>\<open>buf\<close>\<close>
  write_mem :: "u64 \<Rightarrow> u8 list \<Rightarrow> 'g \<Rightarrow> int \<times> 'g"
    \<comment> \<open>\<^verbatim>\<open>qemu_plugin_rw_memory_cpu(addr, buf, len, 1)\<close>\<close>
  read_reg :: "u64 \<Rightarrow> 'g \<Rightarrow> u64"
  write_reg :: "u64 \<Rightarrow> u64 \<Rightarrow> 'g \<Rightarrow> 'g"
  single_step :: "bool \<Rightarrow> 'g \<Rightarrow> 'g"
  flush_tb :: "'g \<Rightarrow> 'g"
  malloc_ok :: "nat \<Rightarrow> bool"
    \<comment> \<open>whether the \<open>n\<close>-th call of \<open>malloc\<close> succeeds\<close>
  malloc_junk :: "nat \<Rightarrow> nat \<Rightarrow> u64"
    \<comment> \<open>what an uninitialised word of a fresh block holds\<close>
  shl_ub :: "u32 \<Rightarrow> nat \<Rightarrow> u32"
    \<comment> \<open>what the compiled code yields for an \<^verbatim>\<open>int\<close> shift whose result C leaves undefined\<close>

record 'g machine =
  guest :: 'g
  mallocs :: nat
  cbs :: "callback list"

definition malloc :: "'g env \<Rightarrow> ('g, 'z) machine_scheme \<Rightarrow> ref option \<times> ('g, 'z) machine_scheme" where
  "malloc e s =
     (if malloc_ok e (mallocs s) then Some (mallocs s) else None,
      s\<lparr>mallocs := Suc (mallocs s)\<rparr>)"

definition register_cb :: "callback \<Rightarrow> ('g, 'z) machine_scheme \<Rightarrow> ('g, 'z) machine_scheme" where
  "register_cb c s = s\<lparr>cbs := cbs s @ [c]\<rparr>"

text \<open>
  C's \<^verbatim>\<open>int << n\<close>: defined when the shift count is below the width and the value is not negative
  and fits, and then it is multiplication by a power of two.
\<close>

definition int_shl :: "'g env \<Rightarrow> u32 \<Rightarrow> nat \<Rightarrow> u32" where
  "int_shl e v n =
     (if n < 32 \<and> unat v * 2 ^ n < 2 ^ 31 then push_bit n v else shl_ub e v n)"

text \<open>The conversion of an \<^verbatim>\<open>int\<close> to \<^verbatim>\<open>uint64_t\<close>: sign extension.\<close>

definition int_to_u64 :: "u32 \<Rightarrow> u64" where
  "int_to_u64 v = scast v"

section \<open>What the plugin relies on\<close>

text \<open>The addresses of a block of \<open>n\<close> bytes at \<open>a\<close>.\<close>

definition block :: "u64 \<Rightarrow> nat \<Rightarrow> u64 set" where
  "block a n = (\<lambda>i. a + of_nat i) ` {..<n}"

text \<open>Memory after the bytes \<open>bs\<close> were written at \<open>a\<close>.\<close>

fun put_bytes :: "u64 \<Rightarrow> u8 list \<Rightarrow> (u64 \<Rightarrow> u8) \<Rightarrow> u64 \<Rightarrow> u8" where
  "put_bytes a [] m = m"
| "put_bytes a (b # bs) m = (put_bytes (a + 1) bs m)(a := b)"

definition get_bytes :: "u64 \<Rightarrow> nat \<Rightarrow> (u64 \<Rightarrow> u8) \<Rightarrow> u8 list" where
  "get_bytes a n m = map (\<lambda>i. m (a + of_nat i)) [0..<n]"

text \<open>
  \<open>ram e byte A\<close>: in the address range \<open>A\<close> the guest has plain memory, \<open>byte\<close> reads it.  A
  read of a block inside \<open>A\<close> succeeds, returns its bytes and changes nothing; a write succeeds
  and changes exactly the bytes written; the other calls leave memory alone.
\<close>

definition ram :: "'g env \<Rightarrow> ('g \<Rightarrow> u64 \<Rightarrow> u8) \<Rightarrow> u64 set \<Rightarrow> bool" where
  "ram e byte A \<longleftrightarrow>
     (\<forall>a n g. block a n \<subseteq> A \<longrightarrow> read_mem e a n g = (0, get_bytes a n (byte g), g)) \<and>
     (\<forall>a bs g. block a (length bs) \<subseteq> A \<longrightarrow>
        fst (write_mem e a bs g) = 0 \<and>
        byte (snd (write_mem e a bs g)) = put_bytes a bs (byte g)) \<and>
     (\<forall>r v g. byte (write_reg e r v g) = byte g) \<and>
     (\<forall>b g. byte (single_step e b g) = byte g) \<and>
     (\<forall>g. byte (flush_tb e g) = byte g)"

text \<open>
  \<open>regs_ok e m\<close>: registers hold what was written to them, cut to the register width \<open>m\<close> (a mask
  of ones), and writing one register or flushing or stepping leaves the others alone.
\<close>

definition regs_ok :: "'g env \<Rightarrow> u64 \<Rightarrow> bool" where
  "regs_ok e m \<longleftrightarrow>
     (\<forall>r v g. read_reg e r (write_reg e r v g) = v AND m) \<and>
     (\<forall>r q v g. q \<noteq> r \<longrightarrow> read_reg e q (write_reg e r v g) = read_reg e q g) \<and>
     (\<forall>r g. read_reg e r g AND m = read_reg e r g) \<and>
     (\<forall>r b g. read_reg e r (single_step e b g) = read_reg e r g) \<and>
     (\<forall>r g. read_reg e r (flush_tb e g) = read_reg e r g)"

lemmas ramD = ram_def [THEN iffD1]
lemmas regs_okD = regs_ok_def [THEN iffD1]

lemma ram_read: "ram e byte A \<Longrightarrow> block a n \<subseteq> A \<Longrightarrow> read_mem e a n g = (0, get_bytes a n (byte g), g)"
  by (simp add: ram_def)

lemma ram_write:
  "ram e byte A \<Longrightarrow> block a (length bs) \<subseteq> A \<Longrightarrow>
   \<exists>g'. write_mem e a bs g = (0, g') \<and> byte g' = put_bytes a bs (byte g)"
  by (simp add: ram_def) (metis prod.collapse)

lemma ram_others:
  "ram e byte A \<Longrightarrow> byte (write_reg e r v g) = byte g"
  "ram e byte A \<Longrightarrow> byte (single_step e b g) = byte g"
  "ram e byte A \<Longrightarrow> byte (flush_tb e g) = byte g"
  by (simp_all add: ram_def)

section \<open>Reading back what was written\<close>

lemma length_get_bytes [simp]: "length (get_bytes a n m) = n"
  by (simp add: get_bytes_def)

lemma nth_get_bytes [simp]: "i < n \<Longrightarrow> get_bytes a n m ! i = m (a + of_nat i)"
  by (simp add: get_bytes_def)

lemma put_bytes_outside: "x \<notin> block a (length bs) \<Longrightarrow> put_bytes a bs m x = m x"
proof (induction bs arbitrary: a)
  case Nil
  then show ?case by simp
next
  case (Cons b bs)
  have "x \<noteq> a" using Cons.prems by (force simp: block_def)
  moreover have "x \<notin> block (a + 1) (length bs)"
  proof
    assume "x \<in> block (a + 1) (length bs)"
    then obtain i where "i < length bs" "x = a + 1 + of_nat i" by (auto simp: block_def)
    then have "x = a + of_nat (Suc i)" "Suc i < length (b # bs)" by simp_all
    with Cons.prems show False unfolding block_def by blast
  qed
  ultimately show ?case using Cons.IH by simp
qed

lemma of_nat_u64_inj:
  assumes "i < 2 ^ 64" "j < 2 ^ 64" "(of_nat i :: u64) = of_nat j"
  shows "i = j"
proof -
  have "unat (of_nat i :: u64) = i" "unat (of_nat j :: u64) = j"
    using assms(1,2) by (simp_all add: unat_of_nat take_bit_nat_eq_self)
  with assms(3) show ?thesis by metis
qed

lemma put_bytes_inside:
  "i < length bs \<Longrightarrow> length bs \<le> 2 ^ 64 \<Longrightarrow> put_bytes a bs m (a + of_nat i) = bs ! i"
proof (induction bs arbitrary: a i)
  case Nil
  then show ?case by simp
next
  case (Cons b bs)
  show ?case
  proof (cases i)
    case 0
    then show ?thesis by simp
  next
    case (Suc j)
    then have j: "j < length bs" using Cons.prems by simp
    have "(of_nat i :: u64) \<noteq> of_nat 0"
      using of_nat_u64_inj [of i 0] Suc Cons.prems by fastforce
    then have "a + of_nat i \<noteq> a" by simp
    then show ?thesis
      using Cons.IH [OF j, of "a + 1"] Cons.prems Suc by (simp add: add.assoc)
  qed
qed

lemma get_put_bytes:
  "length bs \<le> 2 ^ 64 \<Longrightarrow> get_bytes a (length bs) (put_bytes a bs m) = bs"
  by (rule nth_equalityI) (simp_all add: put_bytes_inside)

text \<open>Writing a block twice is writing it once; writing back what was there changes nothing.\<close>

lemma put_bytes_eqI:
  assumes "length bs \<le> 2 ^ 64"
    and "\<And>x. x \<notin> block a (length bs) \<Longrightarrow> m' x = m x"
    and "\<And>i. i < length bs \<Longrightarrow> m' (a + of_nat i) = bs ! i"
  shows "put_bytes a bs m = m'"
proof
  fix x
  show "put_bytes a bs m x = m' x"
  proof (cases "x \<in> block a (length bs)")
    case True
    then obtain i where "i < length bs" "x = a + of_nat i" by (auto simp: block_def)
    with assms show ?thesis by (simp add: put_bytes_inside)
  next
    case False
    with assms show ?thesis by (simp add: put_bytes_outside)
  qed
qed

lemma put_put_bytes:
  "length bs = length cs \<Longrightarrow> length cs \<le> 2 ^ 64 \<Longrightarrow> put_bytes a bs (put_bytes a cs m) = put_bytes a bs m"
  by (rule put_bytes_eqI) (simp_all add: put_bytes_inside put_bytes_outside)

lemma put_get_bytes: "n \<le> 2 ^ 64 \<Longrightarrow> put_bytes a (get_bytes a n m) m = m"
  by (rule put_bytes_eqI) simp_all

section \<open>Allocation\<close>

lemma malloc_frame [frame_simps]:
  "guest (snd (malloc e s)) = guest s"
  "cbs (snd (malloc e s)) = cbs s"
  "machine.more (snd (malloc e s)) = machine.more s"
  by (simp_all add: malloc_def)

lemma malloc_Some:
  "malloc e s = (Some r, s') \<longleftrightarrow>
   malloc_ok e (mallocs s) \<and> r = mallocs s \<and> s' = s\<lparr>mallocs := Suc (mallocs s)\<rparr>"
  by (auto simp: malloc_def)

lemma malloc_NULL:
  "malloc e s = (None, s') \<longleftrightarrow>
   \<not> malloc_ok e (mallocs s) \<and> s' = s\<lparr>mallocs := Suc (mallocs s)\<rparr>"
  by (auto simp: malloc_def)

text \<open>A runtime that never runs out of memory.\<close>

definition plenty :: "'g env \<Rightarrow> bool" where
  "plenty e \<longleftrightarrow> (\<forall>n. malloc_ok e n)"

lemma plenty_malloc: "plenty e \<Longrightarrow> malloc e s = (Some (mallocs s), s\<lparr>mallocs := Suc (mallocs s)\<rparr>)"
  by (simp add: plenty_def malloc_def)

text \<open>A loop that allocates \<open>k\<close> blocks per element and appends one entry.\<close>

lemma fold_emit:
  "fold (\<lambda>r (s, ms). (s\<lparr>mallocs := mallocs s + k\<rparr>, ms @ [g r])) rs (s, ms) =
     (s\<lparr>mallocs := mallocs s + k * length rs\<rparr>, ms @ map g rs)"
  by (induction rs arbitrary: s ms) (simp_all add: algebra_simps)

section \<open>A flat guest\<close>

record flat =
  flat_mem :: "u64 \<Rightarrow> u8"
  flat_regs :: "u64 \<Rightarrow> u64"
  flat_step :: bool
  flat_flushes :: nat

definition flat_env :: "flat env" where
  "flat_env =
     \<lparr>read_mem = (\<lambda>a n g. (0, get_bytes a n (flat_mem g), g)),
      write_mem = (\<lambda>a bs g. (0, g\<lparr>flat_mem := put_bytes a bs (flat_mem g)\<rparr>)),
      read_reg = (\<lambda>r g. flat_regs g r),
      write_reg = (\<lambda>r v g. g\<lparr>flat_regs := (flat_regs g)(r := v)\<rparr>),
      single_step = (\<lambda>b g. g\<lparr>flat_step := b\<rparr>),
      flush_tb = (\<lambda>g. g\<lparr>flat_flushes := Suc (flat_flushes g)\<rparr>),
      malloc_ok = (\<lambda>_. True),
      malloc_junk = (\<lambda>_ _. 0),
      shl_ub = (\<lambda>v n. push_bit (n mod 32) v)\<rparr>"

definition flat_guest :: flat where
  "flat_guest = \<lparr>flat_mem = (\<lambda>_. 0), flat_regs = (\<lambda>_. 0), flat_step = False, flat_flushes = 0\<rparr>"

lemma flat_ram: "ram flat_env flat_mem UNIV"
  by (simp add: ram_def flat_env_def)

lemma flat_regs_ok: "regs_ok flat_env (-1)"
  by (simp add: regs_ok_def flat_env_def)

lemma flat_plenty: "plenty flat_env"
  by (simp add: plenty_def flat_env_def)

end
