(* ===== verification/Avl.thy ===== *)
theory Avl
  imports Machine
begin

text \<open>
  \<^verbatim>\<open>faultplugin/lib/avl.c\<close>: the AVL tree that indexes translation blocks and memory accesses.

  A node is a constructor with its two links, its data pointer and its balance factor.  A
  pointer to a node inside a tree (\<open>p\<close>, \<open>q\<close>, \<open>y\<close>, \<open>z\<close> of \<^verbatim>\<open>avl_probe\<close>) is the list of link indices
  that leads to it from the root, so that an assignment through the pointer is \<open>update_at\<close>.
  The comparison callback dereferences the two items it is given; \<open>deref\<close> is that read, and
  its \<open>None\<close> (an item that was freed) is undefined behaviour.

  The proofs are in theory \<open>AvlCorrect\<close>.
\<close>

section \<open>The code\<close>

datatype 'a avl_node = Leaf | Node "'a avl_node" 'a int "'a avl_node"

record ('k, 'a) avl_table =
  avl_root :: "'a avl_node"
  avl_compare :: "'k \<Rightarrow> 'k \<Rightarrow> int"
  avl_count :: u64
  avl_generation :: u64

definition avl_create ::
  "'g env \<Rightarrow> ('k \<Rightarrow> 'k \<Rightarrow> int) \<Rightarrow> ('g, 'z) machine_scheme \<Rightarrow>
   ('k, 'a) avl_table option \<times> ('g, 'z) machine_scheme" where
  "avl_create e compare s =
     (case malloc e s of
        (None, s) \<Rightarrow> (None, s)
      | (Some _, s) \<Rightarrow>
          (Some \<lparr>avl_root = Leaf, avl_compare = compare, avl_count = 0, avl_generation = 0\<rparr>, s))"

fun avl_find_loop ::
  "('k \<Rightarrow> 'k \<Rightarrow> int) \<Rightarrow> ('a \<Rightarrow> 'k option) \<Rightarrow> 'k \<Rightarrow> 'a avl_node \<Rightarrow> 'a option option" where
  "avl_find_loop compare deref item Leaf = Some None"
| "avl_find_loop compare deref item (Node l d b r) =
     (case deref d of
        None \<Rightarrow> None
      | Some k \<Rightarrow>
          (let cmp = compare item k in
           if cmp < 0 then avl_find_loop compare deref item l
           else if cmp > 0 then avl_find_loop compare deref item r
           else Some (Some d)))"

definition avl_find ::
  "('a \<Rightarrow> 'k option) \<Rightarrow> ('k, 'a) avl_table \<Rightarrow> 'k \<Rightarrow> 'a option option" where
  "avl_find deref tree item = avl_find_loop (avl_compare tree) deref item (avl_root tree)"

text \<open>Pointers into the tree.\<close>

fun subtree_at :: "bool list \<Rightarrow> 'a avl_node \<Rightarrow> 'a avl_node" where
  "subtree_at [] t = t"
| "subtree_at (dir # p) (Node l d b r) = subtree_at p (if dir then r else l)"
| "subtree_at (dir # p) Leaf = Leaf"

fun update_at :: "bool list \<Rightarrow> ('a avl_node \<Rightarrow> 'a avl_node) \<Rightarrow> 'a avl_node \<Rightarrow> 'a avl_node" where
  "update_at [] f t = f t"
| "update_at (dir # p) f (Node l d b r) =
     (if dir then Node l d b (update_at p f r) else Node (update_at p f l) d b r)"
| "update_at (dir # p) f Leaf = Leaf"

text \<open>
  The descent of \<^verbatim>\<open>avl_probe\<close>: \<open>y\<close> is the last node with a nonzero balance factor, \<open>da\<close> the
  directions taken since \<open>y\<close>.  It ends at a duplicate or at the vacant place below \<open>y\<close>.
\<close>

datatype 'a probe_result = Duplicate "bool list" 'a | Vacant "bool list" "bool list"

fun avl_probe_search ::
  "('k \<Rightarrow> 'k \<Rightarrow> int) \<Rightarrow> ('a \<Rightarrow> 'k option) \<Rightarrow> 'k \<Rightarrow> 'a avl_node \<Rightarrow> bool list \<Rightarrow> bool list \<Rightarrow>
   'a probe_result option" where
  "avl_probe_search compare deref item Leaf y da = Some (Vacant y da)"
| "avl_probe_search compare deref item (Node l d b r) y da =
     (case deref d of
        None \<Rightarrow> None
      | Some k \<Rightarrow>
          (let cmp = compare item k in
           if cmp = 0 then Some (Duplicate (y @ da) d)
           else
             (let (y', da') = (if b \<noteq> 0 then (y @ da, []) else (y, da));
                  dir = (cmp > 0)
              in avl_probe_search compare deref item (if dir then r else l) y' (da' @ [dir]))))"

text \<open>The loop that adjusts the balance factors from \<open>y\<close> down to the new node.\<close>

fun avl_adjust :: "bool list \<Rightarrow> 'a avl_node \<Rightarrow> 'a avl_node" where
  "avl_adjust (dir # da) (Node l d b r) =
     (if dir then Node l d (b + 1) (avl_adjust da r) else Node (avl_adjust da l) d (b - 1) r)"
| "avl_adjust da t = t"

text \<open>
  The rebalancing at \<open>y\<close>: \<open>Some (w, True)\<close> after a rotation, \<open>Some (y, False)\<close> if none is needed,
  \<open>None\<close> where an \<^verbatim>\<open>assert\<close> fails or a missing child is dereferenced.
\<close>

fun avl_rebalance :: "'a avl_node \<Rightarrow> ('a avl_node \<times> bool) option" where
  "avl_rebalance Leaf = None"
| "avl_rebalance (Node yl yd yb yr) =
     (if yb = -2 then
        (case yl of
           Leaf \<Rightarrow> None
         | Node xl xd xb xr \<Rightarrow>
             if xb = -1 then Some (Node xl xd 0 (Node xr yd 0 yr), True)
             else if xb \<noteq> 1 then None
             else
               (case xr of
                  Leaf \<Rightarrow> None
                | Node wl wd wb wr \<Rightarrow>
                    (let (xb', yb') =
                       (if wb = -1 then (0, 1) else if wb = 0 then (0, 0) else (-1, 0))
                     in Some (Node (Node xl xd xb' wl) wd 0 (Node wr yd yb' yr), True))))
      else if yb = 2 then
        (case yr of
           Leaf \<Rightarrow> None
         | Node xl xd xb xr \<Rightarrow>
             if xb = 1 then Some (Node (Node yl yd 0 xl) xd 0 xr, True)
             else if xb \<noteq> -1 then None
             else
               (case xl of
                  Leaf \<Rightarrow> None
                | Node wl wd wb wr \<Rightarrow>
                    (let (xb', yb') =
                       (if wb = 1 then (0, -1) else if wb = 0 then (0, 0) else (1, 0))
                     in Some (Node (Node yl yd yb' wl) wd 0 (Node wr xd xb' xr), True))))
      else Some (Node yl yd yb yr, False))"

text \<open>
  \<^verbatim>\<open>avl_probe\<close> returns a pointer to a data slot, or \<open>NULL\<close> when the allocation fails; the
  result holds the path of the slot and the item in it.
\<close>

definition avl_probe ::
  "'g env \<Rightarrow> ('a \<Rightarrow> 'k option) \<Rightarrow> ('k, 'a) avl_table \<Rightarrow> 'a \<Rightarrow> ('g, 'z) machine_scheme \<Rightarrow>
   ((bool list \<times> 'a) option \<times> ('k, 'a) avl_table \<times> ('g, 'z) machine_scheme) option" where
  "avl_probe e deref tree item s = do {
     key \<leftarrow> deref item;
     found \<leftarrow> avl_probe_search (avl_compare tree) deref key (avl_root tree) [] [];
     (case found of
        Duplicate p d \<Rightarrow> Some (Some (p, d), tree, s)
      | Vacant y da \<Rightarrow>
          (case malloc e s of
             (None, s) \<Rightarrow> Some (None, tree, s)
           | (Some _, s) \<Rightarrow>
               (let n = y @ da;
                    root = update_at n (\<lambda>_. Node Leaf item 0 Leaf) (avl_root tree);
                    tree = tree\<lparr>avl_count := avl_count tree + 1\<rparr>
                in if avl_root tree = Leaf then Some (Some (n, item), tree\<lparr>avl_root := root\<rparr>, s)
                   else do {
                     let root = update_at y (avl_adjust da) root;
                     (w, rotated) \<leftarrow> avl_rebalance (subtree_at y root);
                     Some (Some (n, item),
                       (if rotated
                        then tree\<lparr>avl_root := update_at y (\<lambda>_. w) root,
                                  avl_generation := avl_generation tree + 1\<rparr>
                        else tree\<lparr>avl_root := root\<rparr>), s)
                   })))
   }"

definition avl_insert ::
  "'g env \<Rightarrow> ('a \<Rightarrow> 'k option) \<Rightarrow> ('k, 'a) avl_table \<Rightarrow> 'a \<Rightarrow> ('g, 'z) machine_scheme \<Rightarrow>
   ('a option \<times> ('k, 'a) avl_table \<times> ('g, 'z) machine_scheme) option" where
  "avl_insert e deref table item s = do {
     (p, table, s) \<leftarrow> avl_probe e deref table item s;
     Some (case p of
             None \<Rightarrow> None
           | Some (_, d) \<Rightarrow> if d = item then None else Some d, table, s)
   }"

definition avl_replace ::
  "'g env \<Rightarrow> ('a \<Rightarrow> 'k option) \<Rightarrow> ('k, 'a) avl_table \<Rightarrow> 'a \<Rightarrow> ('g, 'z) machine_scheme \<Rightarrow>
   ('a option \<times> ('k, 'a) avl_table \<times> ('g, 'z) machine_scheme) option" where
  "avl_replace e deref table item s = do {
     (p, table, s) \<leftarrow> avl_probe e deref table item s;
     Some (case p of
             None \<Rightarrow> (None, table, s)
           | Some (path, d) \<Rightarrow>
               if d = item then (None, table, s)
               else
                 (Some d,
                  table\<lparr>avl_root :=
                    update_at path
                      (\<lambda>t. case t of Leaf \<Rightarrow> Leaf | Node l _ b r \<Rightarrow> Node l item b r)
                      (avl_root table)\<rparr>, s))
   }"

fun avl_size :: "'a avl_node \<Rightarrow> nat" where
  "avl_size Leaf = 0"
| "avl_size (Node l d b r) = Suc (avl_size l + avl_size r)"

fun avl_left_size :: "'a avl_node \<Rightarrow> nat" where
  "avl_left_size Leaf = 0"
| "avl_left_size (Node l d b r) = avl_size l"

text \<open>
  \<^verbatim>\<open>avl_destroy\<close>: frees the nodes without a stack, rotating right until the left link is empty.
  The result is the sequence of data pointers whose nodes are freed, in order.
\<close>

function avl_destroy_loop :: "'a avl_node \<Rightarrow> 'a list" where
  "avl_destroy_loop Leaf = []"
| "avl_destroy_loop (Node Leaf d b r) = d # avl_destroy_loop r"
| "avl_destroy_loop (Node (Node ll ld lb lr) d b r) =
     avl_destroy_loop (Node ll ld lb (Node lr d b r))"
  by pat_completeness auto
termination
  by (relation "measures [avl_size, avl_left_size]") auto

definition avl_destroy :: "('k, 'a) avl_table \<Rightarrow> 'a list" where
  "avl_destroy tree = avl_destroy_loop (avl_root tree)"

end
