(* ===== verification/AvlCorrect.thy ===== *)
theory AvlCorrect
  imports Avl
begin

text \<open>
  Correctness of the AVL tree.  The textbook recursive insertion \<open>ins\<close> is the specification:
  the iterative \<^verbatim>\<open>avl_probe\<close> (descend, link, adjust balances below \<open>y\<close>, rebalance at \<open>y\<close>) is
  shown to compute it, then balance, height, contents and order are proved for \<open>ins\<close>.
  The locale \<open>avl_order\<close> is what the tree needs from a comparison callback; the clients
  interpret it on their own callbacks.
\<close>

section \<open>Specification\<close>

fun inorder :: "'a avl_node \<Rightarrow> 'a list" where
  "inorder Leaf = []"
| "inorder (Node l d b r) = inorder l @ d # inorder r"

fun height :: "'a avl_node \<Rightarrow> nat" where
  "height Leaf = 0"
| "height (Node l d b r) = Suc (max (height l) (height r))"

text \<open>Every balance factor is the height difference of the two subtrees, and at most one.\<close>

fun balanced :: "'a avl_node \<Rightarrow> bool" where
  "balanced Leaf \<longleftrightarrow> True"
| "balanced (Node l d b r) \<longleftrightarrow>
     b = int (height r) - int (height l) \<and> \<bar>b\<bar> \<le> 1 \<and> balanced l \<and> balanced r"

definition rebalanced :: "'a avl_node \<Rightarrow> 'a avl_node" where
  "rebalanced y = (case avl_rebalance y of None \<Rightarrow> y | Some (w, _) \<Rightarrow> w)"

text \<open>Recursive insertion; the flag says whether the tree has grown.\<close>

fun ins :: "('a \<Rightarrow> int) \<Rightarrow> 'a \<Rightarrow> 'a avl_node \<Rightarrow> 'a avl_node \<times> bool" where
  "ins c x Leaf = (Node Leaf x 0 Leaf, True)"
| "ins c x (Node l d b r) =
     (if c d = 0 then (Node l d b r, False)
      else if c d < 0 then
        (case ins c x l of
           (l', False) \<Rightarrow> (Node l' d b r, False)
         | (l', True) \<Rightarrow>
             if b = 0 then (Node l' d (b - 1) r, True)
             else (rebalanced (Node l' d (b - 1) r), False))
      else
        (case ins c x r of
           (r', False) \<Rightarrow> (Node l d b r', False)
         | (r', True) \<Rightarrow>
             if b = 0 then (Node l d (b + 1) r', True)
             else (rebalanced (Node l d (b + 1) r'), False)))"

section \<open>Recursive insertion keeps the tree balanced\<close>

lemma ins_grown_bal:
  assumes "ins c x t = (t', True)" "t \<noteq> Leaf"
  shows "\<exists>l d b r. t' = Node l d b r \<and> (b = 1 \<or> b = -1)"
  using assms by (cases t) (auto split: if_splits prod.splits bool.splits)

lemma balanced_height_cases:
  "balanced (Node l d b r) \<Longrightarrow>
   (b = 0 \<and> height l = height r) \<or> (b = 1 \<and> height r = Suc (height l)) \<or>
   (b = -1 \<and> height l = Suc (height r))"
  by auto

lemma rebalance_left:
  assumes "balanced l" "balanced r" "height l = Suc (Suc (height r))"
    and "\<exists>xl xd xb xr. l = Node xl xd xb xr \<and> (xb = 1 \<or> xb = -1)"
  shows "\<exists>w. avl_rebalance (Node l d (-2) r) = Some (w, True) \<and> balanced w \<and>
             height w = height l \<and> inorder w = inorder l @ d # inorder r"
proof -
  from assms(4) obtain xl xd xb xr where l: "l = Node xl xd xb xr" "xb = 1 \<or> xb = -1" by blast
  show ?thesis
  proof (cases "xb = -1")
    case True
    with l assms show ?thesis by auto
  next
    case False
    with l assms obtain wl wd wb wr where xr: "xr = Node wl wd wb wr" by (cases xr) auto
    with l assms False show ?thesis by auto
  qed
qed

lemma rebalance_right:
  assumes "balanced l" "balanced r" "height r = Suc (Suc (height l))"
    and "\<exists>xl xd xb xr. r = Node xl xd xb xr \<and> (xb = 1 \<or> xb = -1)"
  shows "\<exists>w. avl_rebalance (Node l d 2 r) = Some (w, True) \<and> balanced w \<and>
             height w = height r \<and> inorder w = inorder l @ d # inorder r"
proof -
  from assms(4) obtain xl xd xb xr where r: "r = Node xl xd xb xr" "xb = 1 \<or> xb = -1" by blast
  show ?thesis
  proof (cases "xb = 1")
    case True
    with r assms show ?thesis by auto
  next
    case False
    with r assms obtain wl wd wb wr where xl: "xl = Node wl wd wb wr" by (cases xl) auto
    with r assms False show ?thesis by auto
  qed
qed

lemma rebalance_none: "b \<noteq> 2 \<Longrightarrow> b \<noteq> -2 \<Longrightarrow> avl_rebalance (Node l d b r) = Some (Node l d b r, False)"
  by simp

text \<open>At a node with a nonzero balance factor whose left (right) subtree has grown.\<close>

lemma rebalance_after_left:
  assumes "balanced (Node l d b r)" "b \<noteq> 0" "ins c x l = (l', True)"
    and "balanced l'" "height l' = Suc (height l)"
  shows "\<exists>w rot. avl_rebalance (Node l' d (b - 1) r) = Some (w, rot) \<and> balanced w \<and>
             height w = height (Node l d b r) \<and> inorder w = inorder l' @ d # inorder r"
proof (cases "b = 1")
  case True
  with assms show ?thesis by (auto simp: rebalance_none)
next
  case False
  with assms(1,2) have b: "b = -1" and h: "height l = Suc (height r)" by auto
  then have "l \<noteq> Leaf" by auto
  with ins_grown_bal [OF assms(3)] have "\<exists>xl xd xb xr. l' = Node xl xd xb xr \<and> (xb = 1 \<or> xb = -1)"
    by blast
  with rebalance_left [of l' r d] assms b h show ?thesis by auto
qed

lemma rebalance_after_right:
  assumes "balanced (Node l d b r)" "b \<noteq> 0" "ins c x r = (r', True)"
    and "balanced r'" "height r' = Suc (height r)"
  shows "\<exists>w rot. avl_rebalance (Node l d (b + 1) r') = Some (w, rot) \<and> balanced w \<and>
             height w = height (Node l d b r) \<and> inorder w = inorder l @ d # inorder r'"
proof (cases "b = -1")
  case True
  with assms show ?thesis by (auto simp: rebalance_none)
next
  case False
  with assms(1,2) have b: "b = 1" and h: "height r = Suc (height l)" by auto
  then have "r \<noteq> Leaf" by auto
  with ins_grown_bal [OF assms(3)] have "\<exists>xl xd xb xr. r' = Node xl xd xb xr \<and> (xb = 1 \<or> xb = -1)"
    by blast
  with rebalance_right [of l r' d] assms b h show ?thesis by auto
qed

lemma ins_balanced:
  "balanced t \<Longrightarrow>
   balanced (fst (ins c x t)) \<and>
   height (fst (ins c x t)) = height t + (if snd (ins c x t) then 1 else 0)"
proof (induction t)
  case Leaf
  then show ?case by simp
next
  case (Node l d b r)
  obtain l' gl where l: "ins c x l = (l', gl)" by fastforce
  obtain r' gr where r: "ins c x r = (r', gr)" by fastforce
  have IHl: "balanced l'" "height l' = height l + (if gl then 1 else 0)"
    using Node l by auto
  have IHr: "balanced r'" "height r' = height r + (if gr then 1 else 0)"
    using Node r by auto
  show ?case
  proof (cases "c d < 0 \<and> gl \<and> b \<noteq> 0")
    case True
    then have "balanced l'" "height l' = Suc (height l)" "ins c x l = (l', True)"
      using IHl l by auto
    with rebalance_after_left [OF Node.prems] True obtain w rot where
      "avl_rebalance (Node l' d (b - 1) r) = Some (w, rot)" "balanced w"
      "height w = height (Node l d b r)" by blast
    with True l show ?thesis by (simp add: rebalanced_def)
  next
    case notl: False
    show ?thesis
    proof (cases "c d > 0 \<and> gr \<and> b \<noteq> 0")
      case True
      then have "balanced r'" "height r' = Suc (height r)" "ins c x r = (r', True)"
        using IHr r by auto
      with rebalance_after_right [OF Node.prems] True obtain w rot where
        "avl_rebalance (Node l d (b + 1) r') = Some (w, rot)" "balanced w"
        "height w = height (Node l d b r)" by blast
      with True r show ?thesis by (simp add: rebalanced_def)
    next
      case False
      with notl l r IHl IHr Node.prems show ?thesis by (auto split: bool.splits)
    qed
  qed
qed

section \<open>Recursive insertion adds exactly the new item\<close>

text \<open>The search path meets an item that compares equal.\<close>

fun dup :: "('a \<Rightarrow> int) \<Rightarrow> 'a avl_node \<Rightarrow> 'a option" where
  "dup c Leaf = None"
| "dup c (Node l d b r) = (if c d = 0 then Some d else if c d < 0 then dup c l else dup c r)"

lemma ins_dup: "dup c t = Some d \<Longrightarrow> ins c x t = (t, False)"
  by (induction t) (auto split: if_splits)

text \<open>
  \<open>cut c ds\<close>: along \<open>ds\<close> the comparison with the searched item goes from "item is greater" over
  at most one "equal" to "item is smaller".  Any list sorted by a lawful comparison is cut.
\<close>

definition cut :: "('a \<Rightarrow> int) \<Rightarrow> 'a list \<Rightarrow> bool" where
  "cut c ds \<longleftrightarrow> sorted_wrt (\<lambda>a b. c a \<le> 0 \<longrightarrow> c b < 0) ds"

lemma cut_node:
  "cut c (inorder l @ d # inorder r) \<longleftrightarrow>
   cut c (inorder l) \<and> cut c (inorder r) \<and>
   (\<forall>a \<in> set (inorder l). c a \<le> 0 \<longrightarrow> c d < 0) \<and> (\<forall>b \<in> set (inorder r). c d \<le> 0 \<longrightarrow> c b < 0) \<and>
   (\<forall>a \<in> set (inorder l). \<forall>b \<in> set (inorder r). c a \<le> 0 \<longrightarrow> c b < 0)"
  by (auto simp: cut_def sorted_wrt_append)

lemma dup_inorder: "cut c (inorder t) \<Longrightarrow> dup c t = List.find (\<lambda>d. c d = 0) (inorder t)"
proof (induction t)
  case Leaf
  then show ?case by simp
next
  case (Node l d b r)
  then have cl: "cut c (inorder l)" and cr: "cut c (inorder r)" by (simp_all add: cut_node)
  consider "c d = 0" | "c d < 0" | "c d > 0" by linarith
  then show ?case
  proof cases
    case 1
    then have "\<forall>a \<in> set (inorder l). c a \<noteq> 0" using Node.prems by (fastforce simp: cut_node)
    then have "List.find (\<lambda>d. c d = 0) (inorder l) = None" by (simp add: find_None_iff)
    with 1 show ?thesis by (simp add: find_append)
  next
    case 2
    then have "\<forall>b \<in> set (inorder r). c b \<noteq> 0" using Node.prems by (fastforce simp: cut_node)
    then have "List.find (\<lambda>d. c d = 0) (inorder r) = None" by (simp add: find_None_iff)
    with 2 Node.IH(1) [OF cl] show ?thesis by (simp add: find_append split: option.splits)
  next
    case 3
    then have "\<forall>a \<in> set (inorder l). c a \<noteq> 0" using Node.prems by (fastforce simp: cut_node)
    then have "List.find (\<lambda>d. c d = 0) (inorder l) = None" by (simp add: find_None_iff)
    with 3 Node.IH(2) [OF cr] show ?thesis by (simp add: find_append)
  qed
qed

text \<open>Where the new item goes in the inorder sequence.\<close>

lemma ins_inorder:
  "balanced t \<Longrightarrow> dup c t = None \<Longrightarrow> cut c (inorder t) \<Longrightarrow>
   \<exists>xs ys. inorder t = xs @ ys \<and> inorder (fst (ins c x t)) = xs @ x # ys \<and>
     (\<forall>d \<in> set xs. c d > 0) \<and> (\<forall>d \<in> set ys. c d < 0)"
proof (induction t)
  case Leaf
  then show ?case by simp
next
  case (Node l d b r)
  obtain l' gl where l: "ins c x l = (l', gl)" by fastforce
  obtain r' gr where r: "ins c x r = (r', gr)" by fastforce
  show ?case
  proof (cases "c d < 0")
    case True
    moreover have "balanced l" "dup c l = None" "cut c (inorder l)"
      using Node.prems True by (simp_all add: cut_node)
    ultimately obtain xs ys where xy: "inorder l = xs @ ys" "inorder l' = xs @ x # ys"
      "\<forall>d \<in> set xs. c d > 0" "\<forall>d \<in> set ys. c d < 0"
      using Node.IH(1) l by auto
    have "\<forall>d \<in> set (inorder r). c d < 0" using Node.prems(3) True by (auto simp: cut_node)
    with xy True have ys: "\<forall>d \<in> set (ys @ d # inorder r). c d < 0" by auto
    have "inorder (fst (ins c x (Node l d b r))) = inorder l' @ d # inorder r"
    proof (cases "gl \<and> b \<noteq> 0")
      case True
      moreover from this have "balanced l'" "height l' = Suc (height l)" "ins c x l = (l', True)"
        using ins_balanced [of l c x] Node.prems l by auto
      ultimately obtain w rot where
        "avl_rebalance (Node l' d (b - 1) r) = Some (w, rot)" "inorder w = inorder l' @ d # inorder r"
        using rebalance_after_left [OF Node.prems(1)] by blast
      with True \<open>c d < 0\<close> l show ?thesis by (simp add: rebalanced_def)
    next
      case False
      with \<open>c d < 0\<close> l show ?thesis by (auto split: bool.splits)
    qed
    with xy ys show ?thesis by (intro exI [of _ xs] exI [of _ "ys @ d # inorder r"]) simp
  next
    case False
    with Node.prems have c: "c d > 0" by (auto split: if_splits)
    moreover have "balanced r" "dup c r = None" "cut c (inorder r)"
      using Node.prems c by (simp_all add: cut_node)
    ultimately obtain xs ys where xy: "inorder r = xs @ ys" "inorder r' = xs @ x # ys"
      "\<forall>d \<in> set xs. c d > 0" "\<forall>d \<in> set ys. c d < 0"
      using Node.IH(2) r by auto
    have "\<forall>a \<in> set (inorder l). c a > 0" using Node.prems(3) c by (fastforce simp: cut_node)
    with xy c have xs: "\<forall>d \<in> set (inorder l @ d # xs). c d > 0" by auto
    have "inorder (fst (ins c x (Node l d b r))) = inorder l @ d # inorder r'"
    proof (cases "gr \<and> b \<noteq> 0")
      case True
      moreover from this have "balanced r'" "height r' = Suc (height r)" "ins c x r = (r', True)"
        using ins_balanced [of r c x] Node.prems r by auto
      ultimately obtain w rot where
        "avl_rebalance (Node l d (b + 1) r') = Some (w, rot)" "inorder w = inorder l @ d # inorder r'"
        using rebalance_after_right [OF Node.prems(1)] by blast
      with True c r show ?thesis by (simp add: rebalanced_def)
    next
      case False
      with c r show ?thesis by (auto split: bool.splits)
    qed
    with xy xs show ?thesis by (intro exI [of _ "inorder l @ d # xs"] exI [of _ ys]) simp
  qed
qed

section \<open>The iterative insertion computes the recursive one\<close>

lemma update_at_append: "update_at (p @ q) f t = update_at p (update_at q f) t"
  by (induction p f t rule: update_at.induct) auto

lemma update_at_twice: "update_at p f (update_at p g t) = update_at p (\<lambda>t. f (g t)) t"
  by (induction p g t rule: update_at.induct) auto

text \<open>Paths that stay inside the tree; \<open>[]\<close> always does.\<close>

fun inside :: "bool list \<Rightarrow> 'a avl_node \<Rightarrow> bool" where
  "inside [] t \<longleftrightarrow> True"
| "inside (dir # p) (Node l d b r) \<longleftrightarrow> inside p (if dir then r else l)"
| "inside (dir # p) Leaf \<longleftrightarrow> False"

lemma subtree_update: "inside p t \<Longrightarrow> subtree_at p (update_at p f t) = f (subtree_at p t)"
  by (induction p t rule: inside.induct) auto

lemma update_at_subtree:
  "inside p t \<Longrightarrow> f (subtree_at p t) = g (subtree_at p t) \<Longrightarrow> update_at p f t = update_at p g t"
  by (induction p t rule: inside.induct) auto

text \<open>The full search path, and the path to the last node on it with a nonzero balance.\<close>

fun spath :: "('a \<Rightarrow> int) \<Rightarrow> 'a avl_node \<Rightarrow> bool list" where
  "spath c Leaf = []"
| "spath c (Node l d b r) = (c d > 0) # spath c (if c d > 0 then r else l)"

fun ypath :: "('a \<Rightarrow> int) \<Rightarrow> 'a avl_node \<Rightarrow> bool list option" where
  "ypath c Leaf = None"
| "ypath c (Node l d b r) =
     (case ypath c (if c d > 0 then r else l) of
        Some p \<Rightarrow> Some ((c d > 0) # p)
      | None \<Rightarrow> if b \<noteq> 0 then Some [] else None)"

abbreviation leaf_node :: "'a \<Rightarrow> 'a avl_node" where
  "leaf_node x \<equiv> Node Leaf x 0 Leaf"

text \<open>What the code does below \<open>y\<close>: link the new node and adjust the balance factors.\<close>

definition linked :: "bool list \<Rightarrow> 'a \<Rightarrow> 'a avl_node \<Rightarrow> 'a avl_node" where
  "linked da x y = avl_adjust da (update_at da (\<lambda>_. leaf_node x) y)"

lemma linked_simps [simp]:
  "linked [] x t = leaf_node x"
  "linked (dir # da) x (Node l d b r) =
     (if dir then Node l d (b + 1) (linked da x r) else Node (linked da x l) d (b - 1) r)"
  by (simp_all add: linked_def)

lemma ins_spath:
  "dup c t = None \<Longrightarrow> ypath c t = None \<Longrightarrow> ins c x t = (linked (spath c t) x t, True)"
  by (induction t) (auto split: if_splits option.splits)

lemma ins_ypath:
  "dup c t = None \<Longrightarrow> ypath c t = Some p \<Longrightarrow>
   ins c x t = (update_at p (\<lambda>y. rebalanced (linked (drop (length p) (spath c t)) x y)) t, False)"
proof (induction t arbitrary: p)
  case Leaf
  then show ?case by simp
next
  case (Node l d b r)
  consider "c d < 0" | "c d > 0" using Node.prems(1) by (auto split: if_splits)
  then show ?case
  proof cases
    case 1
    then have dupl: "dup c l = None" using Node.prems(1) by simp
    show ?thesis
    proof (cases "ypath c l")
      case None
      with 1 Node.prems(2) have "p = []" "b \<noteq> 0" by (auto split: if_splits)
      with ins_spath [OF dupl None] 1 show ?thesis by simp
    next
      case (Some q)
      with 1 Node.prems(2) have "p = False # q" by auto
      with Node.IH(1) [OF dupl Some] 1 show ?thesis by simp
    qed
  next
    case 2
    then have dupr: "dup c r = None" using Node.prems(1) by simp
    show ?thesis
    proof (cases "ypath c r")
      case None
      with 2 Node.prems(2) have "p = []" "b \<noteq> 0" by (auto split: if_splits)
      with ins_spath [OF dupr None] 2 show ?thesis by simp
    next
      case (Some q)
      with 2 Node.prems(2) have "p = True # q" by auto
      with Node.IH(2) [OF dupr Some] 2 show ?thesis by simp
    qed
  qed
qed

lemma ypath_inside: "ypath c t = Some p \<Longrightarrow> inside p t"
proof (induction t arbitrary: p)
  case Leaf
  then show ?case by simp
next
  case (Node l d b r)
  then show ?case by (cases "c d > 0") (auto split: option.splits if_splits)
qed

lemma ypath_prefix: "ypath c t = Some p \<Longrightarrow> p @ drop (length p) (spath c t) = spath c t"
proof (induction t arbitrary: p)
  case Leaf
  then show ?case by simp
next
  case (Node l d b r)
  then show ?case by (cases "c d > 0") (auto split: option.splits if_splits)
qed

text \<open>The descent of \<^verbatim>\<open>avl_probe\<close> finds the duplicate or these two paths.\<close>

lemma probe_search_vacant:
  assumes "\<forall>d \<in> set (inorder t). deref d = Some (key d)"
    and "dup (\<lambda>d. compare k (key d)) t = None"
  shows "avl_probe_search compare deref k t y da =
    Some (case ypath (\<lambda>d. compare k (key d)) t of
            None \<Rightarrow> Vacant y (da @ spath (\<lambda>d. compare k (key d)) t)
          | Some p \<Rightarrow> Vacant (y @ da @ p) (drop (length p) (spath (\<lambda>d. compare k (key d)) t)))"
  using assms
proof (induction t arbitrary: y da)
  case Leaf
  then show ?case by simp
next
  case (Node l d b r)
  let ?c = "\<lambda>d. compare k (key d)"
  show ?case
  proof (cases "?c d > 0")
    case True
    with Node.prems have "\<And>y da. avl_probe_search compare deref k r y da =
       Some (case ypath ?c r of
            None \<Rightarrow> Vacant y (da @ spath ?c r)
          | Some p \<Rightarrow> Vacant (y @ da @ p) (drop (length p) (spath ?c r)))"
      by (intro Node.IH(2)) auto
    with True Node.prems show ?thesis by (auto split: option.splits)
  next
    case False
    with Node.prems have neg: "?c d < 0" by (auto split: if_splits)
    with Node.prems have "\<And>y da. avl_probe_search compare deref k l y da =
       Some (case ypath ?c l of
            None \<Rightarrow> Vacant y (da @ spath ?c l)
          | Some p \<Rightarrow> Vacant (y @ da @ p) (drop (length p) (spath ?c l)))"
      by (intro Node.IH(1)) auto
    with neg Node.prems show ?thesis by (auto split: option.splits)
  qed
qed

lemma probe_search_duplicate:
  assumes "\<forall>d \<in> set (inorder t). deref d = Some (key d)"
    and "dup (\<lambda>d. compare k (key d)) t = Some x"
  shows "\<exists>p. avl_probe_search compare deref k t y da = Some (Duplicate p x)"
  using assms
proof (induction t arbitrary: y da)
  case Leaf
  then show ?case by simp
next
  case (Node l d b r)
  then show ?case by (auto simp: Let_def split: if_splits)
qed

text \<open>Without a nonzero balance on the path the root itself ends up at \<open>0\<close>, \<open>1\<close> or \<open>-1\<close>.\<close>

lemma linked_root_unrotated:
  assumes "dup c t = None" "ypath c t = None" "t \<noteq> Leaf"
  shows "avl_rebalance (linked (spath c t) x t) = Some (linked (spath c t) x t, False)"
  using assms by (cases t) (auto split: if_splits option.splits)

lemma rebalance_at_ypath:
  "balanced t \<Longrightarrow> dup c t = None \<Longrightarrow> ypath c t = Some p \<Longrightarrow>
   avl_rebalance (linked (drop (length p) (spath c t)) x (subtree_at p t)) \<noteq> None"
proof (induction t arbitrary: p)
  case Leaf
  then show ?case by simp
next
  case (Node l d b r)
  consider "c d < 0" | "c d > 0" using Node.prems(2) by (auto split: if_splits)
  then show ?case
  proof cases
    case 1
    then have dupl: "dup c l = None" using Node.prems(2) by simp
    show ?thesis
    proof (cases "ypath c l")
      case None
      with 1 Node.prems(3) have p: "p = []" and b: "b \<noteq> 0" by (auto split: if_splits)
      from ins_spath [OF dupl None] have i: "ins c x l = (linked (spath c l) x l, True)" .
      with ins_balanced [of l c x] Node.prems(1)
      have "balanced (linked (spath c l) x l)" "height (linked (spath c l) x l) = Suc (height l)"
        by simp_all
      from rebalance_after_left [OF Node.prems(1) b i this] 1 p show ?thesis by auto
    next
      case (Some q)
      with 1 Node.prems(3) have "p = False # q" by auto
      with Node.IH(1) [OF _ dupl Some] Node.prems(1) 1 show ?thesis by simp
    qed
  next
    case 2
    then have dupr: "dup c r = None" using Node.prems(2) by simp
    show ?thesis
    proof (cases "ypath c r")
      case None
      with 2 Node.prems(3) have p: "p = []" and b: "b \<noteq> 0" by (auto split: if_splits)
      from ins_spath [OF dupr None] have i: "ins c x r = (linked (spath c r) x r, True)" .
      with ins_balanced [of r c x] Node.prems(1)
      have "balanced (linked (spath c r) x r)" "height (linked (spath c r) x r) = Suc (height r)"
        by simp_all
      from rebalance_after_right [OF Node.prems(1) b i this] 2 p show ?thesis by auto
    next
      case (Some q)
      with 2 Node.prems(3) have "p = True # q" by auto
      with Node.IH(2) [OF _ dupr Some] Node.prems(1) 2 show ?thesis by simp
    qed
  qed
qed

lemma rebalanced_eq: "avl_rebalance y = Some (w, rot) \<Longrightarrow> rebalanced y = w"
  by (simp add: rebalanced_def)

lemma rebalance_unrotated: "avl_rebalance y = Some (w, False) \<Longrightarrow> w = y"
  by (cases y) (auto split: if_splits avl_node.splits)

text \<open>What \<^verbatim>\<open>avl_probe\<close> leaves in the table.\<close>

lemma probe_vacant:
  assumes bal: "balanced (avl_root t)"
    and live: "\<forall>d \<in> set (inorder (avl_root t)). deref d = Some (key d)"
    and item: "deref x = Some k"
    and c: "c = (\<lambda>d. avl_compare t k (key d))"
    and nodup: "dup c (avl_root t) = None"
    and ok: "malloc e s = (Some a, s')"
  shows "\<exists>p t'. avl_probe e deref t x s = Some (Some (p, x), t', s') \<and>
     avl_root t' = fst (ins c x (avl_root t)) \<and> avl_compare t' = avl_compare t \<and>
     avl_count t' = avl_count t + 1 \<and>
     (avl_generation t' = avl_generation t \<or> avl_generation t' = avl_generation t + 1)"
proof (cases "ypath c (avl_root t)")
  case None
  let ?da = "spath c (avl_root t)"
  have search: "avl_probe_search (avl_compare t) deref k (avl_root t) [] [] = Some (Vacant [] ?da)"
    using probe_search_vacant [OF live, of "avl_compare t" k "[]" "[]"] nodup None by (simp add: c)
  have ins: "fst (ins c x (avl_root t)) = linked ?da x (avl_root t)"
    using ins_spath [OF nodup None] by simp
  show ?thesis
  proof (cases "avl_root t = Leaf")
    case True
    with search item ok ins show ?thesis by (auto simp: avl_probe_def)
  next
    case False
    with search item ok ins linked_root_unrotated [OF nodup None False]
    show ?thesis by (auto simp: avl_probe_def linked_def)
  qed
next
  case (Some y)
  let ?da = "drop (length y) (spath c (avl_root t))"
  let ?t1 = "update_at (y @ ?da) (\<lambda>_. leaf_node x) (avl_root t)"
  let ?t2 = "update_at y (avl_adjust ?da) ?t1"
  have search: "avl_probe_search (avl_compare t) deref k (avl_root t) [] [] = Some (Vacant y ?da)"
    using probe_search_vacant [OF live, of "avl_compare t" k "[]" "[]"] nodup Some by (simp add: c)
  have notleaf: "avl_root t \<noteq> Leaf" using Some by auto
  have ins: "fst (ins c x (avl_root t)) =
      update_at y (\<lambda>z. rebalanced (linked ?da x z)) (avl_root t)"
    using ins_ypath [OF nodup Some] by simp
  have t2: "?t2 = update_at y (linked ?da x) (avl_root t)"
    by (simp add: update_at_append update_at_twice linked_def [abs_def])
  have inside: "inside y (avl_root t)" by (rule ypath_inside [OF Some])
  have sub: "subtree_at y ?t2 = linked ?da x (subtree_at y (avl_root t))"
    unfolding t2 by (rule subtree_update [OF inside])
  obtain w rot where reb: "avl_rebalance (subtree_at y ?t2) = Some (w, rot)"
    using rebalance_at_ypath [OF bal nodup Some, of x] unfolding sub by fastforce
  have w: "update_at y (\<lambda>_. w) ?t2 = fst (ins c x (avl_root t))"
    unfolding ins t2 update_at_twice
    using reb sub rebalanced_eq by (intro update_at_subtree [OF inside]) fastforce
  have "avl_root t \<noteq> Leaf \<Longrightarrow> \<not> rot \<Longrightarrow> ?t2 = fst (ins c x (avl_root t))"
  proof -
    assume "\<not> rot"
    with reb have "avl_rebalance (subtree_at y ?t2) = Some (w, False)" by simp
    then have "w = subtree_at y ?t2" by (rule rebalance_unrotated)
    then have "update_at y (\<lambda>_. w) ?t2 = update_at y id ?t2"
      unfolding t2 update_at_twice
      using sub t2 by (intro update_at_subtree [OF inside]) simp
    also have "\<dots> = ?t2" unfolding t2 update_at_twice by (simp add: id_def)
    finally show ?thesis using w by simp
  qed
  with search item ok reb w notleaf show ?thesis
    by (cases rot) (simp_all add: avl_probe_def Let_def)
qed

lemma probe_duplicate:
  assumes live: "\<forall>d \<in> set (inorder (avl_root t)). deref d = Some (key d)"
    and item: "deref x = Some k"
    and dup: "dup (\<lambda>d. avl_compare t k (key d)) (avl_root t) = Some d"
  shows "\<exists>p. avl_probe e deref t x s = Some (Some (p, d), t, s)"
proof -
  from probe_search_duplicate [where deref = deref and key = key and k = k
      and compare = "avl_compare t", OF live dup]
  obtain p where
    "avl_probe_search (avl_compare t) deref k (avl_root t) [] [] = Some (Duplicate p d)" by blast
  with item show ?thesis by (simp add: avl_probe_def)
qed

lemma probe_no_memory:
  assumes live: "\<forall>d \<in> set (inorder (avl_root t)). deref d = Some (key d)"
    and item: "deref x = Some k"
    and nodup: "dup (\<lambda>d. avl_compare t k (key d)) (avl_root t) = None"
    and fail: "malloc e s = (None, s')"
  shows "avl_probe e deref t x s = Some (None, t, s')"
proof -
  obtain y da where
    "avl_probe_search (avl_compare t) deref k (avl_root t) [] [] = Some (Vacant y da)"
    using probe_search_vacant [where deref = deref and key = key and k = k
        and compare = "avl_compare t", OF live nodup, of "[]" "[]"]
    by (auto split: option.splits)
  with item fail show ?thesis by (simp add: avl_probe_def)
qed

section \<open>The contract of the table\<close>

abbreviation avl_items :: "('k, 'a) avl_table \<Rightarrow> 'a list" where
  "avl_items t \<equiv> inorder (avl_root t)"

text \<open>
  A well-formed table: balanced, all items live, strictly sorted by the callback, and counted.
\<close>

definition avl_wf :: "('k \<Rightarrow> 'k \<Rightarrow> int) \<Rightarrow> ('a \<Rightarrow> 'k option) \<Rightarrow> ('k, 'a) avl_table \<Rightarrow> bool" where
  "avl_wf compare deref t \<longleftrightarrow>
     avl_compare t = compare \<and> balanced (avl_root t) \<and>
     (\<forall>d \<in> set (avl_items t). deref d \<noteq> None) \<and>
     sorted_wrt (\<lambda>a b. compare (the (deref a)) (the (deref b)) < 0) (avl_items t) \<and>
     avl_count t = of_nat (length (avl_items t))"

text \<open>The item of the table that compares equal to a key.\<close>

definition avl_lookup :: "('a \<Rightarrow> 'k option) \<Rightarrow> ('k, 'a) avl_table \<Rightarrow> 'k \<Rightarrow> 'a option" where
  "avl_lookup deref t k = List.find (\<lambda>d. avl_compare t k (the (deref d)) = 0) (avl_items t)"

lemma find_loop_dup:
  "\<forall>d \<in> set (inorder t). deref d = Some (key d) \<Longrightarrow>
   avl_find_loop compare deref k t = Some (dup (\<lambda>d. compare k (key d)) t)"
  by (induction t) (auto simp: Let_def)

lemma avl_wf_live: "avl_wf compare deref t \<Longrightarrow> \<forall>d \<in> set (avl_items t). deref d = Some (the (deref d))"
  by (auto simp: avl_wf_def)

text \<open>Changing fields the comparison does not read keeps a table well-formed.\<close>

lemma avl_wf_cong:
  "avl_wf compare deref t \<Longrightarrow> (\<And>d. d \<in> set (avl_items t) \<Longrightarrow> deref' d = deref d) \<Longrightarrow>
   avl_wf compare deref' t"
  unfolding avl_wf_def by (auto elim!: sorted_wrt_mono_rel [rotated])

lemma avl_lookup_cong:
  "(\<And>d. d \<in> set (avl_items t) \<Longrightarrow> deref' d = deref d) \<Longrightarrow>
   avl_lookup deref' t k = avl_lookup deref t k"
  unfolding avl_lookup_def by (rule find_cong) auto

locale avl_order =
  fixes compare :: "'k \<Rightarrow> 'k \<Rightarrow> int"
    and K :: "'k set"
  assumes cmp_swap: "x \<in> K \<Longrightarrow> y \<in> K \<Longrightarrow> compare x y < 0 \<longleftrightarrow> compare y x > 0"
    and cmp_trans: "x \<in> K \<Longrightarrow> y \<in> K \<Longrightarrow> z \<in> K \<Longrightarrow>
                    compare x y < 0 \<Longrightarrow> compare y z < 0 \<Longrightarrow> compare x z < 0"
    and cmp_eq: "x \<in> K \<Longrightarrow> y \<in> K \<Longrightarrow> z \<in> K \<Longrightarrow>
                 compare x y = 0 \<Longrightarrow> compare y z < 0 \<Longrightarrow> compare x z < 0"
begin

lemma cut_items:
  assumes "avl_wf compare deref t" "k \<in> K" "\<forall>d \<in> set (avl_items t). the (deref d) \<in> K"
  shows "cut (\<lambda>d. compare k (the (deref d))) (avl_items t)"
  unfolding cut_def
proof (rule sorted_wrt_mono_rel)
  show "sorted_wrt (\<lambda>a b. compare (the (deref a)) (the (deref b)) < 0) (avl_items t)"
    using assms(1) by (simp add: avl_wf_def)
next
  fix a b
  assume ab: "a \<in> set (avl_items t)" "b \<in> set (avl_items t)"
    "compare (the (deref a)) (the (deref b)) < 0"
  show "compare k (the (deref a)) \<le> 0 \<longrightarrow> compare k (the (deref b)) < 0"
    using ab assms cmp_trans [of k "the (deref a)" "the (deref b)"]
      cmp_eq [of k "the (deref a)" "the (deref b)"] by fastforce
qed

lemma find_correct:
  assumes "avl_wf compare deref t" "k \<in> K" "\<forall>d \<in> set (avl_items t). the (deref d) \<in> K"
  shows "avl_find deref t k = Some (avl_lookup deref t k)"
proof -
  have "avl_find deref t k = Some (dup (\<lambda>d. compare k (the (deref d))) (avl_root t))"
    using find_loop_dup [OF avl_wf_live [OF assms(1)]] assms(1)
    by (simp add: avl_find_def avl_wf_def)
  also have "\<dots> = Some (avl_lookup deref t k)"
    using dup_inorder [OF cut_items [OF assms]] assms(1) by (simp add: avl_lookup_def avl_wf_def)
  finally show ?thesis .
qed

lemma lookup_dup:
  assumes "avl_wf compare deref t" "k \<in> K" "\<forall>d \<in> set (avl_items t). the (deref d) \<in> K"
  shows "dup (\<lambda>d. avl_compare t k (the (deref d))) (avl_root t) = avl_lookup deref t k"
  using dup_inorder [OF cut_items [OF assms]] assms(1) by (simp add: avl_lookup_def avl_wf_def)

lemma insert_present:
  assumes wf: "avl_wf compare deref t" "k \<in> K" "\<forall>d \<in> set (avl_items t). the (deref d) \<in> K"
    and item: "deref x = Some k"
    and present: "avl_lookup deref t k = Some d"
  shows "avl_insert e deref t x s = Some (if d = x then None else Some d, t, s)"
proof -
  from lookup_dup [OF wf] present
  have "dup (\<lambda>d. avl_compare t k (the (deref d))) (avl_root t) = Some d" by simp
  from probe_duplicate [where key = "\<lambda>d. the (deref d)", OF avl_wf_live [OF wf(1)] item this]
  obtain p where "avl_probe e deref t x s = Some (Some (p, d), t, s)" by blast
  then show ?thesis by (simp add: avl_insert_def)
qed

lemma insert_no_memory:
  assumes wf: "avl_wf compare deref t" "k \<in> K" "\<forall>d \<in> set (avl_items t). the (deref d) \<in> K"
    and item: "deref x = Some k"
    and absent: "avl_lookup deref t k = None"
    and fail: "malloc e s = (None, s')"
  shows "avl_insert e deref t x s = Some (None, t, s')"
proof -
  from lookup_dup [OF wf] absent
  have "dup (\<lambda>d. avl_compare t k (the (deref d))) (avl_root t) = None" by simp
  from probe_no_memory [where key = "\<lambda>d. the (deref d)", OF avl_wf_live [OF wf(1)] item this fail]
  show ?thesis by (auto simp: avl_insert_def)
qed

lemma insert_absent:
  assumes wf: "avl_wf compare deref t" "k \<in> K" "\<forall>d \<in> set (avl_items t). the (deref d) \<in> K"
    and item: "deref x = Some k"
    and absent: "avl_lookup deref t k = None"
    and ok: "malloc e s = (Some a, s')"
  shows "\<exists>t'. avl_insert e deref t x s = Some (None, t', s') \<and> avl_wf compare deref t' \<and>
     set (avl_items t') = insert x (set (avl_items t)) \<and>
     length (avl_items t') = Suc (length (avl_items t))"
proof -
  let ?c = "\<lambda>d. compare k (the (deref d))"
  have cmp: "avl_compare t = compare" and bal: "balanced (avl_root t)"
    using wf(1) by (simp_all add: avl_wf_def)
  have nodup: "dup ?c (avl_root t) = None" using lookup_dup [OF wf] absent cmp by simp
  obtain p t' where probe: "avl_probe e deref t x s = Some (Some (p, x), t', s')"
    and t': "avl_root t' = fst (ins ?c x (avl_root t))" "avl_compare t' = compare"
      "avl_count t' = avl_count t + 1"
    using probe_vacant [OF bal avl_wf_live [OF wf(1)] item refl _ ok] nodup cmp by auto
  obtain xs ys where xy: "avl_items t = xs @ ys" "avl_items t' = xs @ x # ys"
      "\<forall>d \<in> set xs. ?c d > 0" "\<forall>d \<in> set ys. ?c d < 0"
    using ins_inorder [OF bal nodup cut_items [OF wf]] t'(1) by metis
  have "\<forall>d \<in> set xs. compare (the (deref d)) k < 0"
    using xy wf(2,3) cmp_swap [of "the (deref _)" k] by auto
  then have sorted: "sorted_wrt (\<lambda>a b. compare (the (deref a)) (the (deref b)) < 0) (avl_items t')"
    using wf(1) xy item by (auto simp: avl_wf_def sorted_wrt_append)
  have "balanced (avl_root t')" using ins_balanced [OF bal] t'(1) by simp
  moreover have "avl_count t' = of_nat (length (avl_items t'))"
    using t'(3) wf(1) xy(1,2) by (simp add: avl_wf_def)
  ultimately have "avl_wf compare deref t'"
    using sorted t'(2) wf(1) xy(1,2) item by (auto simp: avl_wf_def)
  with probe xy(1,2) show ?thesis by (auto simp: avl_insert_def)
qed

text \<open>After an insertion of an absent key the lookup finds the item, and other keys as before.\<close>

lemma lookup_member:
  assumes "avl_wf compare deref t" "\<forall>d \<in> set (avl_items t). the (deref d) \<in> K"
    and "x \<in> set (avl_items t)" "k \<in> K" "compare k (the (deref x)) = 0"
  shows "avl_lookup deref t k = Some x"
proof -
  have cut: "cut (\<lambda>d. compare k (the (deref d))) (avl_items t)"
    using cut_items assms by blast
  from assms(3) obtain xs ys where xy: "avl_items t = xs @ x # ys" by (auto simp: in_set_conv_decomp)
  with cut assms(5) have "\<forall>a \<in> set xs. compare k (the (deref a)) > 0"
    by (fastforce simp: cut_def sorted_wrt_append)
  then have "List.find (\<lambda>d. compare k (the (deref d)) = 0) xs = None"
    by (auto simp: find_None_iff)
  with xy assms(1,5) show ?thesis by (simp add: avl_lookup_def avl_wf_def find_append)
qed

end

section \<open>Height and the direction cache\<close>

text \<open>The fewest items a balanced tree of a given height can hold.\<close>

fun avl_min :: "nat \<Rightarrow> int" where
  "avl_min 0 = 0"
| "avl_min (Suc 0) = 1"
| "avl_min (Suc (Suc n)) = 1 + avl_min (Suc n) + avl_min n"

fun avl_min_pair :: "nat \<Rightarrow> int \<times> int" where
  "avl_min_pair 0 = (0, 1)"
| "avl_min_pair (Suc n) = (case avl_min_pair n of (a, b) \<Rightarrow> (b, 1 + b + a))"

lemma avl_min_pair: "avl_min_pair n = (avl_min n, avl_min (Suc n))"
  by (induction n) auto

lemma avl_min_92: "avl_min 92 = 19740274219868223166"
proof -
  have "avl_min_pair 92 = (19740274219868223166, 31940434634990099904)"
    by code_simp
  then show ?thesis by (simp only: avl_min_pair prod.inject)
qed

lemma avl_min_Suc: "avl_min n \<le> avl_min (Suc n) \<and> 0 \<le> avl_min n"
  by (induction n rule: avl_min.induct) auto

lemma avl_min_mono: "m \<le> n \<Longrightarrow> avl_min m \<le> avl_min n"
  by (rule lift_Suc_mono_le [of avl_min]) (simp_all add: avl_min_Suc)

lemma balanced_size: "balanced t \<Longrightarrow> avl_min (height t) \<le> int (length (inorder t))"
proof (induction t)
  case Leaf
  then show ?case by simp
next
  case (Node l d b r)
  then have IH: "avl_min (height l) \<le> int (length (inorder l))"
      "avl_min (height r) \<le> int (length (inorder r))" by auto
  from balanced_height_cases [OF Node.prems] show ?case
  proof (elim disjE conjE)
    assume "height l = height r"
    moreover have "avl_min (Suc (height r)) \<le> 1 + 2 * avl_min (height r)"
      using avl_min_Suc [of "height r - 1"] by (cases "height r") auto
    ultimately show ?thesis using IH by simp
  next
    assume "height r = Suc (height l)"
    then show ?thesis using IH by auto
  next
    assume "height l = Suc (height r)"
    then show ?thesis using IH by auto
  qed
qed

lemma balanced_height_bound:
  assumes "balanced t" "length (inorder t) < 2 ^ 64"
  shows "height t < 92"
proof (rule ccontr)
  assume "\<not> height t < 92"
  then have "avl_min 92 \<le> avl_min (height t)" by (intro avl_min_mono) simp
  with balanced_size [OF assms(1)] have "19740274219868223166 \<le> int (length (inorder t))"
    by (simp add: avl_min_92)
  with assms(2) show False by simp
qed

lemma probe_search_length:
  "avl_probe_search compare deref k t y da = Some (Vacant y' da') \<Longrightarrow>
   length (y' @ da') \<le> length (y @ da) + height t"
proof (induction t arbitrary: y da)
  case Leaf
  then show ?case by simp
next
  case (Node l d b r)
  then obtain j where j: "deref d = Some j" by (auto split: option.splits)
  let ?y = "if b \<noteq> 0 then y @ da else y"
  let ?da = "(if b \<noteq> 0 then [] else da) @ [compare k j > 0]"
  from Node.prems j have
    "avl_probe_search compare deref k (if compare k j > 0 then r else l) ?y ?da = Some (Vacant y' da')"
    by (auto simp: Let_def split: if_splits)
  then have "length (y' @ da') \<le> length (?y @ ?da) + max (height l) (height r)"
    using Node.IH(1) [of ?y ?da] Node.IH(2) [of ?y ?da] by (auto split: if_splits)
  then show ?case by (simp split: if_splits)
qed

section \<open>Destruction\<close>

lemma destroy_loop_inorder: "avl_destroy_loop t = inorder t"
  by (induction t rule: avl_destroy_loop.induct) auto

section \<open>Properties\<close>


definition avl_example :: "(int, int) avl_table" where
  "avl_example =
     \<lparr>avl_root = Node (Node (Node Leaf 1 0 Leaf) 3 (-1) Leaf) 5 (-1) (Node Leaf 8 0 Leaf),
      avl_compare = (\<lambda>x y. x - y), avl_count = 4, avl_generation = 0\<rparr>"

definition flat_machine :: "flat machine" where
  "flat_machine = \<lparr>guest = flat_guest, mallocs = 0, cbs = []\<rparr>"

lemma flat_machine_malloc:
  "malloc flat_env flat_machine = (Some 0, flat_machine\<lparr>mallocs := 1\<rparr>)"
  by (simp add: malloc_def flat_env_def flat_machine_def)


text \<open>
  C2. The direction cache \<^verbatim>\<open>da[AVL_MAX_HEIGHT]\<close> of \<^verbatim>\<open>avl_probe\<close> is never written out of bounds:
  in a balanced tree with fewer than \<open>2 ^ 64\<close> items the whole descent, of which \<^verbatim>\<open>da\<close> holds a part,
  takes fewer than 92 steps.
\<close>

theorem avl_probe_cache_bound:
  assumes "balanced t" "length (inorder t) < 2 ^ 64"
    and "avl_probe_search compare deref k t [] [] = Some (Vacant y da)"
  shows "length (y @ da) < 92"
  using probe_search_length [OF assms(3)] balanced_height_bound [OF assms(1,2)] by simp

theorem avl_probe_cache_bound_witness:
  "length ([False, False] @ [True]) < (92::nat) \<and>
   avl_probe_search (\<lambda>x y. x - y) Some 2 (avl_root avl_example) [] [] =
     Some (Vacant [False] [False, True])"
  using avl_probe_cache_bound
    [of "avl_root avl_example" "\<lambda>x y. x - y" Some 2 "[False]" "[False, True]"]
  by (simp add: avl_example_def)

text \<open>
  C3. \<^verbatim>\<open>avl_destroy\<close> terminates although it neither recurses nor keeps a stack, and frees every node
  of the tree exactly once, in the order of the tree.
\<close>

theorem avl_destroy_frees_inorder:
  "avl_destroy t = avl_items t"
  by (simp add: avl_destroy_def destroy_loop_inorder)

end
