(* ===== verification/AvlDelete.thy ===== *)
theory AvlDelete
  imports AvlCorrect
begin

text \<open>
  \<^verbatim>\<open>avl_delete\<close> of \<^verbatim>\<open>faultplugin/lib/avl.c\<close> and its correctness.

  The stack \<^verbatim>\<open>pa[]\<close>, \<^verbatim>\<open>da[]\<close> of the code is the list of the directions \<^verbatim>\<open>da[1]\<close>, \<^verbatim>\<open>da[2]\<close>, \<dots>: below
  the pseudo node \<^verbatim>\<open>pa[0]\<close>, whose direction is always 0, \<^verbatim>\<open>pa[i]\<close> is the node that the directions
  before \<^verbatim>\<open>da[i]\<close> lead to, also after the links of the deleted node were moved to its successor.
\<close>

section \<open>The code\<close>

text \<open>The descent to the item.\<close>

fun avl_delete_search ::
  "('k \<Rightarrow> 'k \<Rightarrow> int) \<Rightarrow> ('a \<Rightarrow> 'k option) \<Rightarrow> 'k \<Rightarrow> bool list \<Rightarrow> 'a avl_node \<Rightarrow> bool list option option" where
  "avl_delete_search compare deref item da Leaf = Some None"
| "avl_delete_search compare deref item da (Node l d b r) =
     (case deref d of
        None \<Rightarrow> None
      | Some k \<Rightarrow>
          (let cmp = compare item k;
               dir = (cmp > 0)
           in if cmp = 0 then Some (Some da)
              else avl_delete_search compare deref item (da @ [dir]) (if dir then r else l)))"

text \<open>The walk from \<open>r\<close> to the last node \<open>s\<close> on the left.\<close>

fun avl_leftmost :: "'a avl_node \<Rightarrow> bool list" where
  "avl_leftmost (Node (Node sl sd sb sr) d b r) = False # avl_leftmost (Node sl sd sb sr)"
| "avl_leftmost t = []"

text \<open>
  Taking \<open>p\<close> out of the tree: the node that is in its place then, and the directions that were pushed
  for it.
\<close>

fun avl_unlink :: "'a avl_node \<Rightarrow> ('a avl_node \<times> bool list) option" where
  "avl_unlink Leaf = None"
| "avl_unlink (Node pl pd pb pr) =
     (case pr of
        Leaf \<Rightarrow> Some (pl, [])
      | Node rl rd rb rr \<Rightarrow>
          if rl = Leaf then Some (Node pl rd pb rr, [True])
          else
            (let down = avl_leftmost pr
             in case subtree_at down pr of
                  Leaf \<Rightarrow> None
                | Node sl sd sb sr \<Rightarrow>
                    Some (Node pl sd pb (update_at down (\<lambda>_. sr) pr), True # down)))"

text \<open>
  One round of the rebalancing at \<open>y\<close>, whose subtree in the direction \<open>da\<close> has become shorter; the flag
  says whether the loop is left.
\<close>

fun avl_shrunk :: "bool \<Rightarrow> 'a avl_node \<Rightarrow> ('a avl_node \<times> bool) option" where
  "avl_shrunk da Leaf = None"
| "avl_shrunk da (Node yl yd yb yr) =
     (if \<not> da then
        (let yb = yb + 1
         in if yb = 1 then Some (Node yl yd yb yr, True)
            else if yb = 2 then
              (case yr of
                 Leaf \<Rightarrow> None
               | Node xl xd xb xr \<Rightarrow>
                   if xb = -1 then
                     (case xl of
                        Leaf \<Rightarrow> None
                      | Node wl wd wb wr \<Rightarrow>
                          (let (xb', yb') = (if wb = 1 then (0, -1) else if wb = 0 then (0, 0) else (1, 0))
                           in Some (Node (Node yl yd yb' wl) wd 0 (Node wr xd xb' xr), False)))
                   else if xb = 0 then Some (Node (Node yl yd 1 xl) xd (-1) xr, True)
                   else Some (Node (Node yl yd 0 xl) xd 0 xr, False))
            else Some (Node yl yd yb yr, False))
      else
        (let yb = yb - 1
         in if yb = -1 then Some (Node yl yd yb yr, True)
            else if yb = -2 then
              (case yl of
                 Leaf \<Rightarrow> None
               | Node xl xd xb xr \<Rightarrow>
                   if xb = 1 then
                     (case xr of
                        Leaf \<Rightarrow> None
                      | Node wl wd wb wr \<Rightarrow>
                          (let (xb', yb') = (if wb = -1 then (0, 1) else if wb = 0 then (0, 0) else (-1, 0))
                           in Some (Node (Node xl xd xb' wl) wd 0 (Node wr yd yb' yr), False)))
                   else if xb = 0 then Some (Node xl xd 1 (Node xr yd (-1) yr), True)
                   else Some (Node xl xd 0 (Node xr yd 0 yr), False))
            else Some (Node yl yd yb yr, False)))"

text \<open>The loop over the stack; the flag of the result is the one of the last round.\<close>

fun avl_delete_loop :: "nat \<Rightarrow> bool list \<Rightarrow> 'a avl_node \<Rightarrow> ('a avl_node \<times> bool) option" where
  "avl_delete_loop 0 da root = Some (root, False)"
| "avl_delete_loop (Suc k) da root = do {
     (w, stop) \<leftarrow> avl_shrunk (da ! k) (subtree_at (take k da) root);
     let root = update_at (take k da) (\<lambda>_. w) root;
     if stop then Some (root, True) else avl_delete_loop k da root
   }"

definition avl_delete ::
  "('a \<Rightarrow> 'k option) \<Rightarrow> ('k, 'a) avl_table \<Rightarrow> 'k \<Rightarrow> ('a option \<times> ('k, 'a) avl_table) option" where
  "avl_delete deref tree item = do {
     found \<leftarrow> avl_delete_search (avl_compare tree) deref item [] (avl_root tree);
     (case found of
        None \<Rightarrow> Some (None, tree)
      | Some p \<Rightarrow>
          (case subtree_at p (avl_root tree) of
             Leaf \<Rightarrow> None
           | Node pl pd pb pr \<Rightarrow> do {
               (w, da) \<leftarrow> avl_unlink (Node pl pd pb pr);
               let stack = p @ da;
               (root, _) \<leftarrow> avl_delete_loop (length stack) stack (update_at p (\<lambda>_. w) (avl_root tree));
               Some (Some pd, tree\<lparr>avl_root := root, avl_count := avl_count tree - 1,
                                   avl_generation := avl_generation tree + 1\<rparr>)
             }))
   }"

text \<open>The checked forms: \<open>None\<close> is a failed \<^verbatim>\<open>assert\<close>.\<close>

definition avl_assert_insert ::
  "'g env \<Rightarrow> ('a \<Rightarrow> 'k option) \<Rightarrow> ('k, 'a) avl_table \<Rightarrow> 'a \<Rightarrow> ('g, 'z) machine_scheme \<Rightarrow>
   (('k, 'a) avl_table \<times> ('g, 'z) machine_scheme) option" where
  "avl_assert_insert e deref table item s = do {
     (p, table, s) \<leftarrow> avl_probe e deref table item s;
     (_, d) \<leftarrow> p;
     if d = item then Some (table, s) else None
   }"

definition avl_assert_delete ::
  "('a \<Rightarrow> 'k option) \<Rightarrow> ('k, 'a) avl_table \<Rightarrow> 'k \<Rightarrow> ('a \<times> ('k, 'a) avl_table) option" where
  "avl_assert_delete deref table item = do {
     (p, table) \<leftarrow> avl_delete deref table item;
     d \<leftarrow> p;
     Some (d, table)
   }"

section \<open>The search\<close>

lemma delete_search_dup:
  assumes "\<forall>d \<in> set (inorder t). deref d = Some (key d)"
  shows "\<exists>q. (case dup (\<lambda>d. compare item (key d)) t of
       None \<Rightarrow> avl_delete_search compare deref item da t = Some None
     | Some d \<Rightarrow> avl_delete_search compare deref item da t = Some (Some (da @ q)) \<and> inside q t \<and>
         (\<exists>l b r. subtree_at q t = Node l d b r) \<and> length q < height t)"
  using assms
proof (induction t arbitrary: da)
  case Leaf
  then show ?case by simp
next
  case (Node l d b r)
  let ?c = "compare item (key d)"
  have d: "deref d = Some (key d)" using Node.prems by simp
  consider "?c = 0" | "?c < 0" | "?c > 0" by linarith
  then show ?case
  proof cases
    case 1
    then show ?thesis using d by (intro exI [of _ "[]"]) simp
  next
    case 2
    obtain q where q: "case dup (\<lambda>d. compare item (key d)) l of
        None \<Rightarrow> avl_delete_search compare deref item (da @ [False]) l = Some None
      | Some d \<Rightarrow> avl_delete_search compare deref item (da @ [False]) l = Some (Some ((da @ [False]) @ q)) \<and> inside q l \<and>
         (\<exists>l' b r. subtree_at q l = Node l' d b r) \<and> length q < height l"
      using Node.IH(1) [of "da @ [False]"] Node.prems by auto
    show ?thesis
      by (rule exI [of _ "False # q"]) (use q d 2 in \<open>auto simp: Let_def split: option.splits\<close>)
  next
    case 3
    obtain q where q: "case dup (\<lambda>d. compare item (key d)) r of
        None \<Rightarrow> avl_delete_search compare deref item (da @ [True]) r = Some None
      | Some d \<Rightarrow> avl_delete_search compare deref item (da @ [True]) r = Some (Some ((da @ [True]) @ q)) \<and> inside q r \<and>
         (\<exists>l' b r'. subtree_at q r = Node l' d b r') \<and> length q < height r"
      using Node.IH(2) [of "da @ [True]"] Node.prems by auto
    show ?thesis
      by (rule exI [of _ "True # q"]) (use q d 3 in \<open>auto simp: Let_def split: option.splits\<close>)
  qed
qed

section \<open>Trees whose balance factors are stale\<close>

text \<open>
  Along the stack the balance factors are still those of the tree before, in which the subtree at the
  end of the stack was one higher; \<open>h\<close> is the height of that tree.
\<close>

fun stale :: "bool list \<Rightarrow> 'a avl_node \<Rightarrow> nat \<Rightarrow> bool" where
  "stale [] t h \<longleftrightarrow> balanced t \<and> h = Suc (height t)"
| "stale (dir # da) Leaf h \<longleftrightarrow> False"
| "stale (dir # da) (Node l d b r) h \<longleftrightarrow> \<bar>b\<bar> \<le> 1 \<and>
     (if dir then balanced l \<and> (\<exists>hr. stale da r hr \<and> b = int hr - int (height l) \<and> h = Suc (max (height l) hr))
      else balanced r \<and> (\<exists>hl. stale da l hl \<and> b = int (height r) - int hl \<and> h = Suc (max hl (height r))))"

lemma stale_update:
  "balanced t \<Longrightarrow> inside p t \<Longrightarrow> stale da n (height (subtree_at p t)) \<Longrightarrow>
   stale (p @ da) (update_at p (\<lambda>_. n) t) (height t)"
  by (induction p t rule: inside.induct) auto

lemma inside_height: "inside p t \<Longrightarrow> length p + height (subtree_at p t) \<le> height t"
  by (induction p t rule: inside.induct) auto

lemma balanced_subtree: "balanced t \<Longrightarrow> balanced (subtree_at p t)"
  by (induction p t rule: subtree_at.induct) auto

lemma inorder_update:
  "inside p t \<Longrightarrow> \<exists>xs ys. inorder t = xs @ inorder (subtree_at p t) @ ys \<and>
     (\<forall>n. inorder (update_at p (\<lambda>_. n) t) = xs @ inorder n @ ys)"
proof (induction p t rule: inside.induct)
  case (1 t)
  show ?case by (intro exI [of _ "[]"]) simp
next
  case (2 dir p l d b r)
  then obtain xs ys where xy: "inorder (if dir then r else l) = xs @ inorder (subtree_at p (if dir then r else l)) @ ys"
    "\<forall>n. inorder (update_at p (\<lambda>_. n) (if dir then r else l)) = xs @ inorder n @ ys" by auto
  show ?case
  proof (cases dir)
    case True
    then show ?thesis using xy by (intro exI [of _ "inorder l @ d # xs"] exI [of _ ys]) simp
  next
    case False
    then show ?thesis using xy by (intro exI [of _ xs] exI [of _ "ys @ d # inorder r"]) simp
  qed
qed simp

lemma leftmost_step: "l \<noteq> Leaf \<Longrightarrow> avl_leftmost (Node l d b r) = False # avl_leftmost l"
  by (cases l) simp_all

lemma leftmost_ok:
  "balanced t \<Longrightarrow> t \<noteq> Leaf \<Longrightarrow>
   \<exists>sd sb sr. subtree_at (avl_leftmost t) t = Node Leaf sd sb sr \<and>
     stale (avl_leftmost t) (update_at (avl_leftmost t) (\<lambda>_. sr) t) (height t) \<and>
     inorder t = sd # inorder (update_at (avl_leftmost t) (\<lambda>_. sr) t) \<and> length (avl_leftmost t) < height t"
proof (induction t)
  case (Node l d b r)
  show ?case
  proof (cases "l = Leaf")
    case True
    then show ?thesis using Node.prems by simp
  next
    case False
    then obtain sd sb sr where "subtree_at (avl_leftmost l) l = Node Leaf sd sb sr"
      "stale (avl_leftmost l) (update_at (avl_leftmost l) (\<lambda>_. sr) l) (height l)"
      "inorder l = sd # inorder (update_at (avl_leftmost l) (\<lambda>_. sr) l)" "length (avl_leftmost l) < height l"
      using Node by auto
    then show ?thesis
      unfolding leftmost_step [OF False] using Node.prems by (intro exI [of _ sd] exI [of _ sb] exI [of _ sr]) auto
  qed
qed simp

lemma unlink_ok:
  assumes "balanced (Node pl pd pb pr)"
  shows "\<exists>w da. avl_unlink (Node pl pd pb pr) = Some (w, da) \<and> stale da w (height (Node pl pd pb pr)) \<and>
    inorder w = inorder pl @ inorder pr \<and> length da < height (Node pl pd pb pr)"
proof -
  consider "pr = Leaf" | rd rb rr where "pr = Node Leaf rd rb rr"
    | rl rd rb rr where "pr = Node rl rd rb rr" "rl \<noteq> Leaf"
    by (cases pr) blast+
  then show ?thesis
  proof cases
    case 1
    then show ?thesis using assms by simp
  next
    case 2
    then show ?thesis using assms by auto
  next
    case 3
    have "balanced pr" using assms by simp
    moreover have "pr \<noteq> Leaf" using 3 by simp
    ultimately obtain sd sb sr where s: "subtree_at (avl_leftmost pr) pr = Node Leaf sd sb sr"
      "stale (avl_leftmost pr) (update_at (avl_leftmost pr) (\<lambda>_. sr) pr) (height pr)"
      "inorder pr = sd # inorder (update_at (avl_leftmost pr) (\<lambda>_. sr) pr)"
      "length (avl_leftmost pr) < height pr"
      using leftmost_ok by blast
    have "avl_unlink (Node pl pd pb pr) =
        Some (Node pl sd pb (update_at (avl_leftmost pr) (\<lambda>_. sr) pr), True # avl_leftmost pr)"
      using 3 s(1) by (simp add: Let_def)
    then show ?thesis using assms s(2-4) by auto
  qed
qed

section \<open>The rebalancing\<close>

lemma shrunk_left:
  assumes "balanced l" "balanced r" "b = int (height r) - int (Suc (height l))" "\<bar>b\<bar> \<le> 1"
  shows "\<exists>w stop. avl_shrunk False (Node l d b r) = Some (w, stop) \<and> balanced w \<and>
    height w + (if stop then 0 else 1) = Suc (max (Suc (height l)) (height r)) \<and>
    inorder w = inorder l @ d # inorder r"
proof (cases "b = 1")
  case False
  then have b: "b = 0 \<or> b = -1" using assms(4) by linarith
  then have "avl_shrunk False (Node l d b r) = Some (Node l d (b + 1) r, b = 0)" by auto
  then show ?thesis using assms(1-3) b by (intro exI [of _ "Node l d (b + 1) r"] exI [of _ "b = 0"]) auto
next
  case True
  then have h: "height r = Suc (Suc (height l))" using assms(3) by simp
  then obtain xl xd xb xr where r: "r = Node xl xd xb xr" by (cases r) auto
  have x: "balanced (Node xl xd xb xr)" using assms(2) unfolding r .
  have hx: "max (height xl) (height xr) = Suc (height l)" using h r by simp
  from balanced_height_cases [OF x] hx consider
    (even) "xb = 0" "height xl = Suc (height l)" "height xr = Suc (height l)" | (outer) "xb = 1" "height xl = height l" "height xr = Suc (height l)"
    | (inner) "xb = -1" "height xr = height l" "height xl = Suc (height l)"
    by fastforce
  then show ?thesis
  proof cases
    case even
    then have "avl_shrunk False (Node l d b r) = Some (Node (Node l d 1 xl) xd (-1) xr, True)" using True by (simp add: r)
    moreover have "balanced (Node (Node l d 1 xl) xd (-1) xr)" using assms(1) x even by simp
    ultimately show ?thesis using even h r by (intro exI [of _ "Node (Node l d 1 xl) xd (-1) xr"] exI [of _ True]) simp
  next
    case outer
    then have "avl_shrunk False (Node l d b r) = Some (Node (Node l d 0 xl) xd 0 xr, False)" using True by (simp add: r)
    moreover have "balanced (Node (Node l d 0 xl) xd 0 xr)" using assms(1) x outer by simp
    ultimately show ?thesis using outer h r by (intro exI [of _ "Node (Node l d 0 xl) xd 0 xr"] exI [of _ False]) simp
  next
    case inner
    then obtain wl wd wb wr where xl: "xl = Node wl wd wb wr" by (cases xl) auto
    let ?w = "Node (Node l d (if wb = 1 then -1 else 0) wl) wd 0 (Node wr xd (if wb = 1 then 0 else if wb = 0 then 0 else 1) xr)"
    have w: "balanced (Node wl wd wb wr)" using x unfolding xl by auto
    have hw: "max (height wl) (height wr) = height l" using inner(3) xl by simp
    from balanced_height_cases [OF w] hw have cs:
      "(wb = 0 \<and> height wl = height l \<and> height wr = height l) \<or>
       (wb = 1 \<and> height l = Suc (height wl) \<and> height wr = height l) \<or>
       (wb = -1 \<and> height l = Suc (height wr) \<and> height wl = height l)" by auto
    have eq: "avl_shrunk False (Node l d b r) = Some (?w, False)" using True inner(1) by (simp add: r xl)
    have bal: "balanced ?w" using assms(1) x w inner(2) cs by (elim disjE conjE) simp_all
    have ht: "height ?w = Suc (Suc (height l))" using inner(2) cs by (elim disjE conjE) simp_all
    have io: "inorder ?w = inorder l @ d # inorder r" by (simp add: r xl)
    have m: "Suc (max (Suc (height l)) (height r)) = Suc (Suc (Suc (height l)))" using h by simp
    show ?thesis
    proof (intro exI conjI)
      show "height ?w + (if False then 0 else 1) = Suc (max (Suc (height l)) (height r))" unfolding ht m by simp
    qed (rule eq bal io)+
  qed
qed

lemma shrunk_right:
  assumes "balanced l" "balanced r" "b = int (Suc (height r)) - int (height l)" "\<bar>b\<bar> \<le> 1"
  shows "\<exists>w stop. avl_shrunk True (Node l d b r) = Some (w, stop) \<and> balanced w \<and>
    height w + (if stop then 0 else 1) = Suc (max (height l) (Suc (height r))) \<and>
    inorder w = inorder l @ d # inorder r"
proof (cases "b = -1")
  case False
  then have b: "b = 0 \<or> b = 1" using assms(4) by linarith
  then have "avl_shrunk True (Node l d b r) = Some (Node l d (b - 1) r, b = 0)" by auto
  then show ?thesis using assms(1-3) b by (intro exI [of _ "Node l d (b - 1) r"] exI [of _ "b = 0"]) auto
next
  case True
  then have h: "height l = Suc (Suc (height r))" using assms(3) by simp
  then obtain xl xd xb xr where l: "l = Node xl xd xb xr" by (cases l) auto
  have x: "balanced (Node xl xd xb xr)" using assms(1) unfolding l .
  have hx: "max (height xl) (height xr) = Suc (height r)" using h l by simp
  from balanced_height_cases [OF x] hx consider
    (even) "xb = 0" "height xl = Suc (height r)" "height xr = Suc (height r)" | (outer) "xb = -1" "height xr = height r" "height xl = Suc (height r)"
    | (inner) "xb = 1" "height xl = height r" "height xr = Suc (height r)"
    by fastforce
  then show ?thesis
  proof cases
    case even
    then have "avl_shrunk True (Node l d b r) = Some (Node xl xd 1 (Node xr d (-1) r), True)" using True by (simp add: l)
    moreover have "balanced (Node xl xd 1 (Node xr d (-1) r))" using assms(2) x even by simp
    ultimately show ?thesis using even h l by (intro exI [of _ "Node xl xd 1 (Node xr d (-1) r)"] exI [of _ True]) simp
  next
    case outer
    then have "avl_shrunk True (Node l d b r) = Some (Node xl xd 0 (Node xr d 0 r), False)" using True by (simp add: l)
    moreover have "balanced (Node xl xd 0 (Node xr d 0 r))" using assms(2) x outer by simp
    ultimately show ?thesis using outer h l by (intro exI [of _ "Node xl xd 0 (Node xr d 0 r)"] exI [of _ False]) simp
  next
    case inner
    then obtain wl wd wb wr where xr: "xr = Node wl wd wb wr" by (cases xr) auto
    let ?w = "Node (Node xl xd (if wb = -1 then 0 else if wb = 0 then 0 else -1) wl) wd 0 (Node wr d (if wb = -1 then 1 else 0) r)"
    have w: "balanced (Node wl wd wb wr)" using x unfolding xr by auto
    have hw: "max (height wl) (height wr) = height r" using inner(3) xr by simp
    from balanced_height_cases [OF w] hw have cs:
      "(wb = 0 \<and> height wl = height r \<and> height wr = height r) \<or>
       (wb = 1 \<and> height r = Suc (height wl) \<and> height wr = height r) \<or>
       (wb = -1 \<and> height r = Suc (height wr) \<and> height wl = height r)" by auto
    have eq: "avl_shrunk True (Node l d b r) = Some (?w, False)" using True inner(1) by (simp add: l xr)
    have bal: "balanced ?w" using assms(2) x w inner(2) cs by (elim disjE conjE) simp_all
    have ht: "height ?w = Suc (Suc (height r))" using inner(2) cs by (elim disjE conjE) simp_all
    have io: "inorder ?w = inorder l @ d # inorder r" by (simp add: l xr)
    have m: "Suc (max (height l) (Suc (height r))) = Suc (Suc (Suc (height r)))" using h by simp
    show ?thesis
    proof (intro exI conjI)
      show "height ?w + (if False then 0 else 1) = Suc (max (height l) (Suc (height r)))" unfolding ht m by simp
    qed (rule eq bal io)+
  qed
qed

declare avl_shrunk.simps [simp del]

text \<open>The loop as a recursion over the stack, from its bottom to its top.\<close>

fun shrink :: "bool list \<Rightarrow> 'a avl_node \<Rightarrow> ('a avl_node \<times> bool) option" where
  "shrink [] t = Some (t, False)"
| "shrink (dir # da) Leaf = None"
| "shrink (dir # da) (Node l d b r) = do {
     (u, stop) \<leftarrow> shrink da (if dir then r else l);
     let y = (if dir then Node l d b u else Node u d b r);
     if stop then Some (y, True) else avl_shrunk dir y
   }"

lemma loop_child:
  "avl_delete_loop (Suc k) (dir # da) (Node l d b r) = do {
     (u, stop) \<leftarrow> avl_delete_loop k da (if dir then r else l);
     let y = (if dir then Node l d b u else Node u d b r);
     if stop then Some (y, True) else avl_shrunk dir y
   }"
proof (induction k arbitrary: l r)
  case 0
  show ?case by (cases "avl_shrunk dir (Node l d b r)") auto
next
  case (Suc k)
  let ?c = "if dir then r else l"
  show ?case
  proof (cases "avl_shrunk (da ! k) (subtree_at (take k da) ?c)")
    case None
    then show ?thesis by simp
  next
    case (Some ws)
    obtain w stop where "ws = (w, stop)" by fastforce
    then show ?thesis using Some Suc.IH by (cases dir; cases stop) (simp_all add: Let_def)
  qed
qed

lemma loop_shrink: "stale da t h \<Longrightarrow> avl_delete_loop (length da) da t = shrink da t"
proof (induction da t arbitrary: h rule: shrink.induct)
  case (3 dir da l d b r)
  then obtain h' where "stale da (if dir then r else l) h'" by (auto split: if_splits)
  then have "avl_delete_loop (length da) da (if dir then r else l) = shrink da (if dir then r else l)"
    by (rule "3.IH")
  then show ?case by (simp only: list.size loop_child shrink.simps add_0_right add_Suc_right)
qed simp_all

lemma shrink_ok:
  "stale da t h \<Longrightarrow> \<exists>u stop. shrink da t = Some (u, stop) \<and> balanced u \<and>
     height u + (if stop then 0 else 1) = h \<and> inorder u = inorder t"
proof (induction da t arbitrary: h rule: shrink.induct)
  case (3 dir da l d b r)
  show ?case
  proof (cases dir)
    case True
    then obtain hr where hr: "balanced l" "stale da r hr" "b = int hr - int (height l)" "h = Suc (max (height l) hr)" "\<bar>b\<bar> \<le> 1"
      using "3.prems" by auto
    then obtain u stop where u: "shrink da r = Some (u, stop)" "balanced u" "height u + (if stop then 0 else 1) = hr"
      "inorder u = inorder r"
      using "3.IH" [of hr] True by auto
    show ?thesis
    proof (cases stop)
      case True
      then have "shrink (dir # da) (Node l d b r) = Some (Node l d b u, True)" using u(1) \<open>dir\<close> by simp
      moreover have "balanced (Node l d b u)" "height (Node l d b u) = h" using u(2,3) hr True by simp_all
      moreover have "inorder (Node l d b u) = inorder (Node l d b r)" using u(4) by simp
      ultimately show ?thesis by (intro exI [of _ "Node l d b u"] exI [of _ True] conjI) (simp_all only: if_True add_0_right)
    next
      case False
      then obtain w s where w: "avl_shrunk True (Node l d b u) = Some (w, s)" "balanced w"
        "height w + (if s then 0 else 1) = Suc (max (height l) (Suc (height u)))" "inorder w = inorder l @ d # inorder u"
        using shrunk_right [of l u b d] u(2,3) hr(1,3,5) by auto
      have "shrink (dir # da) (Node l d b r) = Some (w, s)" using u(1) w(1) False \<open>dir\<close> by simp
      moreover have "height w + (if s then 0 else 1) = h" using w(3) u(3) hr(4) False by simp
      moreover have "inorder w = inorder (Node l d b r)" using w(4) u(4) by simp
      ultimately show ?thesis using w(2) by blast
    qed
  next
    case False
    then obtain hl where hl: "balanced r" "stale da l hl" "b = int (height r) - int hl" "h = Suc (max hl (height r))" "\<bar>b\<bar> \<le> 1"
      using "3.prems" by auto
    then obtain u stop where u: "shrink da l = Some (u, stop)" "balanced u" "height u + (if stop then 0 else 1) = hl"
      "inorder u = inorder l"
      using "3.IH" [of hl] False by auto
    show ?thesis
    proof (cases stop)
      case True
      then have "shrink (dir # da) (Node l d b r) = Some (Node u d b r, True)" using u(1) \<open>\<not> dir\<close> by simp
      moreover have "balanced (Node u d b r)" "height (Node u d b r) = h" using u(2,3) hl True by simp_all
      moreover have "inorder (Node u d b r) = inorder (Node l d b r)" using u(4) by simp
      ultimately show ?thesis by (intro exI [of _ "Node u d b r"] exI [of _ True] conjI) (simp_all only: if_True add_0_right)
    next
      case False
      then obtain w s where w: "avl_shrunk False (Node u d b r) = Some (w, s)" "balanced w"
        "height w + (if s then 0 else 1) = Suc (max (Suc (height u)) (height r))" "inorder w = inorder u @ d # inorder r"
        using shrunk_left [of u r b d] u(2,3) hl(1,3,5) by auto
      have "shrink (dir # da) (Node l d b r) = Some (w, s)" using u(1) w(1) False \<open>\<not> dir\<close> by simp
      moreover have "height w + (if s then 0 else 1) = h" using w(3) u(3) hl(4) False by simp
      moreover have "inorder w = inorder (Node l d b r)" using w(4) u(4) by simp
      ultimately show ?thesis using w(2) by blast
    qed
  qed
qed auto

section \<open>Deletion\<close>

lemma delete_ok:
  assumes "balanced (avl_root t)" "\<forall>d \<in> set (avl_items t). deref d = Some (key d)"
  shows "\<exists>t'. avl_delete deref t k = Some (dup (\<lambda>d. avl_compare t k (key d)) (avl_root t), t') \<and>
    (case dup (\<lambda>d. avl_compare t k (key d)) (avl_root t) of
       None \<Rightarrow> t' = t
     | Some d \<Rightarrow> balanced (avl_root t') \<and> avl_compare t' = avl_compare t \<and>
         avl_count t' = avl_count t - 1 \<and> avl_generation t' = avl_generation t + 1 \<and>
         (\<exists>xs ys. avl_items t = xs @ d # ys \<and> avl_items t' = xs @ ys))"
proof (cases "dup (\<lambda>d. avl_compare t k (key d)) (avl_root t)")
  case None
  then show ?thesis
    using delete_search_dup [OF assms(2), of "avl_compare t" k "[]"] by (simp add: avl_delete_def)
next
  case (Some d)
  let ?root = "avl_root t"
  obtain q pl pb pr where q: "avl_delete_search (avl_compare t) deref k [] ?root = Some (Some q)" "inside q ?root"
    "subtree_at q ?root = Node pl d pb pr"
    using delete_search_dup [OF assms(2), of "avl_compare t" k "[]"] Some by auto
  obtain xs ys where xy: "inorder ?root = xs @ inorder (subtree_at q ?root) @ ys"
    "\<forall>n. inorder (update_at q (\<lambda>_. n) ?root) = xs @ inorder n @ ys"
    using inorder_update [OF q(2)] by blast
  from balanced_subtree [OF assms(1), of q] have "balanced (Node pl d pb pr)" unfolding q(3) .
  from unlink_ok [OF this] obtain w da where w: "avl_unlink (Node pl d pb pr) = Some (w, da)" "stale da w (height (Node pl d pb pr))"
    "inorder w = inorder pl @ inorder pr"
    by (elim exE conjE) (rule that)
  let ?u = "update_at q (\<lambda>_. w) ?root"
  have st: "stale (q @ da) ?u (height ?root)"
    by (rule stale_update [OF assms(1) q(2)]) (use w(2) q(3) in simp)
  obtain root stop where root: "shrink (q @ da) ?u = Some (root, stop)" "balanced root" "inorder root = inorder ?u"
    using shrink_ok [OF st] by blast
  have "avl_delete deref t k = Some (Some d, t\<lparr>avl_root := root, avl_count := avl_count t - 1,
      avl_generation := avl_generation t + 1\<rparr>)"
    using q(1,3) w(1) root(1) loop_shrink [OF st] by (simp add: avl_delete_def Let_def del: avl_unlink.simps)
  moreover have "\<exists>xs ys. inorder ?root = xs @ d # ys \<and> inorder root = xs @ ys"
    by (rule exI [of _ "xs @ inorder pl"], rule exI [of _ "inorder pr @ ys"]) (use xy q(3) w(3) root(3) in simp)
  ultimately show ?thesis
    unfolding Some option.case using root(2)
    by (intro exI [of _ "t\<lparr>avl_root := root, avl_count := avl_count t - 1,
      avl_generation := avl_generation t + 1\<rparr>"]) simp
qed

text \<open>The directions on the stack, and the pseudo node below them, fit into \<^verbatim>\<open>pa[AVL_MAX_HEIGHT]\<close>.\<close>

lemma delete_stack_height:
  assumes "balanced t" "inside p t" "subtree_at p t \<noteq> Leaf" "avl_unlink (subtree_at p t) = Some (w, da)"
  shows "length (p @ da) < height t"
proof -
  have down: "length p + height (subtree_at p t) \<le> height t" by (rule inside_height [OF assms(2)])
  obtain pl pd pb pr where n: "subtree_at p t = Node pl pd pb pr" using assms(3) by (cases "subtree_at p t") auto
  have "balanced (Node pl pd pb pr)" using balanced_subtree [OF assms(1), of p] unfolding n .
  from unlink_ok [OF this] have "length da < height (subtree_at p t)" using assms(4) n by auto
  then show ?thesis using down by simp
qed

context avl_order
begin

lemma delete_correct:
  assumes wf: "avl_wf compare deref t" "k \<in> K" "\<forall>d \<in> set (avl_items t). the (deref d) \<in> K"
  shows "\<exists>t'. avl_delete deref t k = Some (avl_lookup deref t k, t') \<and> avl_wf compare deref t' \<and>
    avl_items t' = filter (\<lambda>d. compare k (the (deref d)) \<noteq> 0) (avl_items t)"
proof -
  let ?c = "\<lambda>d. compare k (the (deref d))"
  let ?less = "\<lambda>a b. compare (the (deref a)) (the (deref b)) < 0"
  have cmp: "avl_compare t = compare" and bal: "balanced (avl_root t)" and sorted: "sorted_wrt ?less (avl_items t)"
    and count: "avl_count t = of_nat (length (avl_items t))"
    using wf(1) by (simp_all add: avl_wf_def)
  have look: "dup (\<lambda>d. avl_compare t k (the (deref d))) (avl_root t) = avl_lookup deref t k" by (rule lookup_dup [OF wf])
  obtain t' where t': "avl_delete deref t k = Some (avl_lookup deref t k, t')"
    "case avl_lookup deref t k of None \<Rightarrow> t' = t
     | Some d \<Rightarrow> balanced (avl_root t') \<and> avl_compare t' = avl_compare t \<and> avl_count t' = avl_count t - 1 \<and>
         avl_generation t' = avl_generation t + 1 \<and> (\<exists>xs ys. avl_items t = xs @ d # ys \<and> avl_items t' = xs @ ys)"
    using delete_ok [where key = "\<lambda>d. the (deref d)" and k = k, OF bal avl_wf_live [OF wf(1)]] unfolding look by blast
  show ?thesis
  proof (cases "avl_lookup deref t k")
    case None
    then have "\<forall>d \<in> set (avl_items t). ?c d \<noteq> 0" using cmp by (simp add: avl_lookup_def find_None_iff)
    then have "filter (\<lambda>d. ?c d \<noteq> 0) (avl_items t) = avl_items t" by (simp add: filter_id_conv)
    then show ?thesis using None t' wf(1) by auto
  next
    case (Some d)
    then obtain xs ys where xy: "avl_items t = xs @ d # ys" "avl_items t' = xs @ ys" using t'(2) by auto
    have cut: "cut ?c (avl_items t)" by (rule cut_items [OF wf])
    have cd: "?c d = 0" using Some cmp by (auto simp: avl_lookup_def find_Some_iff)
    then have ys: "\<forall>y \<in> set ys. ?c y \<noteq> 0" using cut xy(1) by (fastforce simp: cut_def sorted_wrt_append)
    have xs: "\<forall>x \<in> set xs. ?c x \<noteq> 0" using cut xy(1) cd by (fastforce simp: cut_def sorted_wrt_append)
    have "filter (\<lambda>d. ?c d \<noteq> 0) (avl_items t) = xs @ ys" using xy(1) xs ys cd by (simp add: filter_id_conv)
    moreover have "avl_wf compare deref t'"
      using t'(2) Some cmp sorted count wf(1) xy by (auto simp: avl_wf_def sorted_wrt_append)
    ultimately show ?thesis using t'(1) xy(2) by auto
  qed
qed

end

section \<open>Properties\<close>

text \<open>
  C33. Deletion.  In a well-formed table whose callback is an order on the keys, \<^verbatim>\<open>avl_delete\<close> returns
  the item that compares equal to a key, or \<^verbatim>\<open>NULL\<close>, and leaves a well-formed table - balanced, sorted
  and counted - with exactly the other items in their order.  No missing child is dereferenced and no
  \<^verbatim>\<open>assert\<close> fails, wherever the node is and however far the rotations go.
\<close>

theorem avl_delete_removes:
  assumes "avl_order compare K" "avl_wf compare deref t" "k \<in> K" "\<forall>d \<in> set (avl_items t). the (deref d) \<in> K"
  shows "\<exists>t'. avl_delete deref t k = Some (avl_lookup deref t k, t') \<and> avl_wf compare deref t' \<and>
    avl_items t' = filter (\<lambda>d. compare k (the (deref d)) \<noteq> 0) (avl_items t)"
  using avl_order.delete_correct [OF assms] .

lemma int_order: "avl_order (\<lambda>x y. x - y) (UNIV :: int set)"
  by unfold_locales auto

lemma avl_example_wf: "avl_wf (\<lambda>x y. x - y) Some avl_example"
  by (simp add: avl_wf_def avl_example_def)

theorem avl_delete_removes_witness:
  "\<exists>t'. avl_delete Some avl_example 5 = Some (Some 5, t') \<and> avl_wf (\<lambda>x y. x - y) Some t' \<and> avl_items t' = [1, 3, 8]"
proof -
  have "5 \<in> (UNIV :: int set)" "\<forall>d \<in> set (avl_items avl_example). the (Some d) \<in> (UNIV :: int set)" by simp_all
  from avl_delete_removes [OF int_order avl_example_wf this] show ?thesis
    by (simp add: avl_lookup_def avl_example_def)
qed

end
