(* ===== verification/AvlTraverse.thy ===== *)
theory AvlTraverse
  imports AvlDelete
begin

text \<open>
  The traversers of \<^verbatim>\<open>faultplugin/lib/avl.c\<close>.

  A node is identified by its data pointer, which is the same as long as the node is in the tree
  (deletion moves links, not data).  A traverser holds its node with the path at which it was found; the
  path, and the paths on the stack, are those of the tree with the generation of the traverser, and a
  traverser with an old generation only uses the node itself, which \<^verbatim>\<open>trav_refresh\<close> looks up again.  The
  entries of \<^verbatim>\<open>avl_stack\<close> below \<^verbatim>\<open>avl_height\<close> are the list \<open>avl_stack\<close>.  An \<^verbatim>\<open>assert\<close> that fails is \<open>None\<close>.
\<close>

section \<open>The code\<close>

definition AVL_MAX_HEIGHT :: nat where "AVL_MAX_HEIGHT = 92"

record 'a avl_traverser =
  trav_node :: "(bool list \<times> 'a) option"
  avl_stack :: "bool list list"
  trav_generation :: u64

text \<open>The loop of \<^verbatim>\<open>trav_refresh\<close>: down to the node with the data pointer \<open>d\<close>.\<close>

fun refresh_loop ::
  "('k \<Rightarrow> 'k \<Rightarrow> int) \<Rightarrow> ('a \<Rightarrow> 'k option) \<Rightarrow> 'a \<Rightarrow> bool list \<Rightarrow> bool list list \<Rightarrow> 'a avl_node \<Rightarrow>
   (bool list \<times> bool list list) option" where
  "refresh_loop compare deref d i stack Leaf = None"
| "refresh_loop compare deref d i stack (Node l x b r) =
     (if x = d then Some (i, stack)
      else if \<not> length stack < AVL_MAX_HEIGHT then None
      else do {
        k \<leftarrow> deref d;
        j \<leftarrow> deref x;
        let dir = (compare k j > 0);
        refresh_loop compare deref d (i @ [dir]) (stack @ [i]) (if dir then r else l)
      })"

definition trav_refresh ::
  "('a \<Rightarrow> 'k option) \<Rightarrow> ('k, 'a) avl_table \<Rightarrow> 'a avl_traverser \<Rightarrow> 'a avl_traverser option" where
  "trav_refresh deref tree trav =
     (let trav = trav\<lparr>trav_generation := avl_generation tree\<rparr>
      in case trav_node trav of
           None \<Rightarrow> Some trav
         | Some (p, d) \<Rightarrow> do {
             (p, stack) \<leftarrow> refresh_loop (avl_compare tree) deref d [] [] (avl_root tree);
             Some (trav\<lparr>trav_node := Some (p, d), avl_stack := stack\<rparr>)
           })"

definition avl_t_init :: "('k, 'a) avl_table \<Rightarrow> 'a avl_traverser" where
  "avl_t_init tree = \<lparr>trav_node = None, avl_stack = [], trav_generation = avl_generation tree\<rparr>"

text \<open>The loops that follow the links in one direction as far as they go.\<close>

fun descend ::
  "bool \<Rightarrow> bool list \<Rightarrow> bool list list \<Rightarrow> 'a avl_node \<Rightarrow> (bool list \<times> 'a \<times> bool list list) option" where
  "descend dir x stack Leaf = None"
| "descend dir x stack (Node l d b r) =
     (if (if dir then r else l) = Leaf then Some (x, d, stack)
      else if \<not> length stack < AVL_MAX_HEIGHT then None
      else descend dir (x @ [dir]) (stack @ [x]) (if dir then r else l))"

definition avl_t_first :: "('k, 'a) avl_table \<Rightarrow> ('a option \<times> 'a avl_traverser) option" where
  "avl_t_first tree =
     (if avl_root tree = Leaf then Some (None, avl_t_init tree)
      else do {
        (x, d, stack) \<leftarrow> descend False [] [] (avl_root tree);
        Some (Some d, \<lparr>trav_node = Some (x, d), avl_stack = stack, trav_generation = avl_generation tree\<rparr>)
      })"

definition avl_t_last :: "('k, 'a) avl_table \<Rightarrow> ('a option \<times> 'a avl_traverser) option" where
  "avl_t_last tree =
     (if avl_root tree = Leaf then Some (None, avl_t_init tree)
      else do {
        (x, d, stack) \<leftarrow> descend True [] [] (avl_root tree);
        Some (Some d, \<lparr>trav_node = Some (x, d), avl_stack = stack, trav_generation = avl_generation tree\<rparr>)
      })"

fun avl_t_find_loop ::
  "('k \<Rightarrow> 'k \<Rightarrow> int) \<Rightarrow> ('a \<Rightarrow> 'k option) \<Rightarrow> 'k \<Rightarrow> bool list \<Rightarrow> bool list list \<Rightarrow> 'a avl_node \<Rightarrow>
   (bool list \<times> 'a \<times> bool list list) option option" where
  "avl_t_find_loop compare deref item p stack Leaf = Some None"
| "avl_t_find_loop compare deref item p stack (Node l d b r) = do {
     k \<leftarrow> deref d;
     let cmp = compare item k;
     if cmp = 0 then Some (Some (p, d, stack))
     else if \<not> length stack < AVL_MAX_HEIGHT then None
     else avl_t_find_loop compare deref item (p @ [cmp > 0]) (stack @ [p]) (if cmp > 0 then r else l)
   }"

definition avl_t_find ::
  "('a \<Rightarrow> 'k option) \<Rightarrow> ('k, 'a) avl_table \<Rightarrow> 'k \<Rightarrow> ('a option \<times> 'a avl_traverser) option" where
  "avl_t_find deref tree item = do {
     found \<leftarrow> avl_t_find_loop (avl_compare tree) deref item [] [] (avl_root tree);
     Some (case found of
             None \<Rightarrow> (None, avl_t_init tree)
           | Some (p, d, stack) \<Rightarrow>
               (Some d, \<lparr>trav_node = Some (p, d), avl_stack = stack, trav_generation = avl_generation tree\<rparr>))
   }"

text \<open>The path \<^verbatim>\<open>avl_probe\<close> returns is the one before its rotation; the old generation says so.\<close>

definition avl_t_insert ::
  "'g env \<Rightarrow> ('a \<Rightarrow> 'k option) \<Rightarrow> 'a avl_traverser \<Rightarrow> ('k, 'a) avl_table \<Rightarrow> 'a \<Rightarrow> ('g, 'z) machine_scheme \<Rightarrow>
   ('a option \<times> 'a avl_traverser \<times> ('k, 'a) avl_table \<times> ('g, 'z) machine_scheme) option" where
  "avl_t_insert e deref trav tree item s = do {
     (p, tree, s) \<leftarrow> avl_probe e deref tree item s;
     Some (case p of
             Some (path, d) \<Rightarrow>
               (Some d, trav\<lparr>trav_node := Some (path, d), trav_generation := avl_generation tree - 1\<rparr>, tree, s)
           | None \<Rightarrow> (None, avl_t_init tree, tree, s))
   }"

text \<open>\<open>same\<close>: both arguments are the same traverser.\<close>

definition avl_t_copy ::
  "bool \<Rightarrow> ('k, 'a) avl_table \<Rightarrow> 'a avl_traverser \<Rightarrow> 'a avl_traverser \<Rightarrow> 'a option \<times> 'a avl_traverser" where
  "avl_t_copy same tree trav src =
     (let trav =
        (if same then trav
         else
           (let trav = trav\<lparr>trav_node := trav_node src, trav_generation := trav_generation src\<rparr>
            in if trav_generation trav = avl_generation tree then trav\<lparr>avl_stack := avl_stack src\<rparr> else trav))
      in (map_option snd (trav_node trav), trav))"

text \<open>
  The way up: as long as the node was reached through its link in the direction \<open>dir\<close>.  The inner
  \<open>None\<close> is the end of the stack.
\<close>

function climb :: "bool \<Rightarrow> bool list \<Rightarrow> bool list list \<Rightarrow> (bool list \<times> bool list list) option" where
  "climb dir x stack =
     (if stack = [] then None
      else
        (let y = x; x = last stack; stack = butlast stack
         in if y = x @ [dir] then climb dir x stack else Some (x, stack)))"
  by pat_completeness auto
termination by (relation "measure (\<lambda>(dir, x, stack). length stack)") auto

declare climb.simps [simp del]

definition avl_t_next ::
  "('a \<Rightarrow> 'k option) \<Rightarrow> ('k, 'a) avl_table \<Rightarrow> 'a avl_traverser \<Rightarrow> ('a option \<times> 'a avl_traverser) option" where
  "avl_t_next deref tree trav = do {
     trav \<leftarrow> (if trav_generation trav \<noteq> avl_generation tree then trav_refresh deref tree trav else Some trav);
     (case trav_node trav of
        None \<Rightarrow> avl_t_first tree
      | Some (x, _) \<Rightarrow>
          (case subtree_at x (avl_root tree) of
             Leaf \<Rightarrow> None
           | Node l _ b r \<Rightarrow>
               if r \<noteq> Leaf then
                 (if \<not> length (avl_stack trav) < AVL_MAX_HEIGHT then None
                  else do {
                    (x, d, stack) \<leftarrow> descend False (x @ [True]) (avl_stack trav @ [x]) r;
                    Some (Some d, trav\<lparr>trav_node := Some (x, d), avl_stack := stack\<rparr>)
                  })
               else
                 (case climb True x (avl_stack trav) of
                    None \<Rightarrow> Some (None, trav\<lparr>trav_node := None, avl_stack := []\<rparr>)
                  | Some (x, stack) \<Rightarrow>
                      (case subtree_at x (avl_root tree) of
                         Leaf \<Rightarrow> None
                       | Node _ d _ _ \<Rightarrow> Some (Some d, trav\<lparr>trav_node := Some (x, d), avl_stack := stack\<rparr>)))))
   }"

definition avl_t_prev ::
  "('a \<Rightarrow> 'k option) \<Rightarrow> ('k, 'a) avl_table \<Rightarrow> 'a avl_traverser \<Rightarrow> ('a option \<times> 'a avl_traverser) option" where
  "avl_t_prev deref tree trav = do {
     trav \<leftarrow> (if trav_generation trav \<noteq> avl_generation tree then trav_refresh deref tree trav else Some trav);
     (case trav_node trav of
        None \<Rightarrow> avl_t_last tree
      | Some (x, _) \<Rightarrow>
          (case subtree_at x (avl_root tree) of
             Leaf \<Rightarrow> None
           | Node l _ b r \<Rightarrow>
               if l \<noteq> Leaf then
                 (if \<not> length (avl_stack trav) < AVL_MAX_HEIGHT then None
                  else do {
                    (x, d, stack) \<leftarrow> descend True (x @ [False]) (avl_stack trav @ [x]) l;
                    Some (Some d, trav\<lparr>trav_node := Some (x, d), avl_stack := stack\<rparr>)
                  })
               else
                 (case climb False x (avl_stack trav) of
                    None \<Rightarrow> Some (None, trav\<lparr>trav_node := None, avl_stack := []\<rparr>)
                  | Some (x, stack) \<Rightarrow>
                      (case subtree_at x (avl_root tree) of
                         Leaf \<Rightarrow> None
                       | Node _ d _ _ \<Rightarrow> Some (Some d, trav\<lparr>trav_node := Some (x, d), avl_stack := stack\<rparr>)))))
   }"

definition avl_t_cur :: "'a avl_traverser \<Rightarrow> 'a option" where
  "avl_t_cur trav = map_option snd (trav_node trav)"

text \<open>The node must be the current one of the traverser; its place in a changed tree is looked up.\<close>

fun replace_node :: "'a \<Rightarrow> 'a \<Rightarrow> 'a avl_node \<Rightarrow> 'a avl_node" where
  "replace_node d new Leaf = Leaf"
| "replace_node d new (Node l x b r) =
     Node (replace_node d new l) (if x = d then new else x) b (replace_node d new r)"

definition avl_t_replace ::
  "('k, 'a) avl_table \<Rightarrow> 'a avl_traverser \<Rightarrow> 'a \<Rightarrow> ('a \<times> 'a avl_traverser \<times> ('k, 'a) avl_table) option" where
  "avl_t_replace tree trav new = do {
     (p, old) \<leftarrow> trav_node trav;
     Some (old, trav\<lparr>trav_node := Some (p, new)\<rparr>, tree\<lparr>avl_root := replace_node old new (avl_root tree)\<rparr>)
   }"

section \<open>The items before and after a node\<close>

text \<open>Both directions at once: \<open>items_from True\<close> is the order of the tree, \<open>items_from False\<close> its reverse.\<close>

fun items_from :: "bool \<Rightarrow> 'a avl_node \<Rightarrow> 'a list" where
  "items_from dir Leaf = []"
| "items_from dir (Node l d b r) =
     items_from dir (if dir then l else r) @ d # items_from dir (if dir then r else l)"

lemma items_from_inorder: "items_from dir t = (if dir then inorder t else rev (inorder t))"
  by (induction dir t rule: items_from.induct) auto

text \<open>The items behind the subtree at a path, and those in front of it.\<close>

fun after :: "bool \<Rightarrow> bool list \<Rightarrow> 'a avl_node \<Rightarrow> 'a list" where
  "after dir [] t = []"
| "after dir (x # p) Leaf = []"
| "after dir (x # p) (Node l d b r) =
     after dir p (if x then r else l) @
     (if x = dir then [] else d # items_from dir (if dir then r else l))"

fun before :: "bool \<Rightarrow> bool list \<Rightarrow> 'a avl_node \<Rightarrow> 'a list" where
  "before dir [] t = []"
| "before dir (x # p) Leaf = []"
| "before dir (x # p) (Node l d b r) =
     (if x = dir then items_from dir (if dir then l else r) @ [d] else []) @ before dir p (if x then r else l)"

lemma items_around:
  "inside p t \<Longrightarrow> items_from dir t = before dir p t @ items_from dir (subtree_at p t) @ after dir p t"
  by (induction p t rule: inside.induct) (auto split: if_splits)

lemma after_snoc:
  "inside p t \<Longrightarrow> subtree_at p t = Node l d b r \<Longrightarrow>
   after dir (p @ [x]) t = (if x = dir then [] else d # items_from dir (if dir then r else l)) @ after dir p t"
  by (induction p t rule: inside.induct) auto

lemma inside_snoc: "inside (p @ [x]) t \<longleftrightarrow> inside p t \<and> subtree_at p t \<noteq> Leaf"
proof (induction p t rule: inside.induct)
  case (1 t)
  then show ?case by (cases t) simp_all
qed auto

lemma inside_append: "inside p t \<Longrightarrow> inside (p @ q) t \<longleftrightarrow> inside q (subtree_at p t)"
  by (induction p t rule: inside.induct) auto

lemma subtree_append: "inside p t \<Longrightarrow> subtree_at (p @ q) t = subtree_at q (subtree_at p t)"
  by (induction p t rule: inside.induct) auto

section \<open>Descending and climbing\<close>

text \<open>The stack of a node: all nodes above it.\<close>

definition prefixes_of :: "bool list \<Rightarrow> bool list list" where
  "prefixes_of p = map (\<lambda>i. take i p) [0..<length p]"

lemma prefixes_of_simps [simp]:
  "prefixes_of [] = []" "prefixes_of (p @ [x]) = prefixes_of p @ [p]" "length (prefixes_of p) = length p"
  by (simp_all add: prefixes_of_def)

lemma prefixes_Nil [simp]: "prefixes_of p = [] \<longleftrightarrow> p = []"
  by (simp add: prefixes_of_def)

lemma descend_ok:
  "t \<noteq> Leaf \<Longrightarrow> length x + height t \<le> AVL_MAX_HEIGHT \<Longrightarrow>
   \<exists>q d. descend (\<not> dir) x (prefixes_of x) t = Some (x @ q, d, prefixes_of (x @ q)) \<and>
     inside q t \<and> (\<exists>l b r. subtree_at q t = Node l d b r) \<and>
     items_from dir t = d # tl (items_from dir t)"
proof (induction t arbitrary: x)
  case (Node l d b r)
  let ?c = "if \<not> dir then r else l"
  show ?case
  proof (cases "?c = Leaf")
    case True
    then show ?thesis by (intro exI [of _ "[]"] exI [of _ d]) auto
  next
    case False
    have len: "length x < AVL_MAX_HEIGHT" "length (x @ [\<not> dir]) + height ?c \<le> AVL_MAX_HEIGHT"
      using Node.prems(2) False by (auto split: if_splits)
    have "\<exists>q d'. descend (\<not> dir) (x @ [\<not> dir]) (prefixes_of (x @ [\<not> dir])) ?c =
        Some ((x @ [\<not> dir]) @ q, d', prefixes_of ((x @ [\<not> dir]) @ q)) \<and> inside q ?c \<and>
        (\<exists>l b r. subtree_at q ?c = Node l d' b r) \<and> items_from dir ?c = d' # tl (items_from dir ?c)"
      using Node.IH(1) [of "x @ [\<not> dir]"] Node.IH(2) [of "x @ [\<not> dir]"] False len(2) by (cases dir) simp_all
    then obtain q d' where q: "descend (\<not> dir) (x @ [\<not> dir]) (prefixes_of (x @ [\<not> dir])) ?c =
        Some ((x @ [\<not> dir]) @ q, d', prefixes_of ((x @ [\<not> dir]) @ q))" "inside q ?c"
        "\<exists>l b r. subtree_at q ?c = Node l d' b r" "items_from dir ?c = d' # tl (items_from dir ?c)" by blast
    have "items_from dir (Node l d b r) = d' # tl (items_from dir (Node l d b r))"
      using q(4) by (cases dir; cases "items_from dir ?c") simp_all
    then show ?thesis
      using q(1-3) False len(1) by (intro exI [of _ "(\<not> dir) # q"] exI [of _ d']) (simp add: Let_def)
  qed
qed simp

lemma climb_ok:
  "inside p t \<Longrightarrow> subtree_at p t \<noteq> Leaf \<Longrightarrow>
   case climb dir p (prefixes_of p) of
     None \<Rightarrow> after dir p t = []
   | Some (q, stack) \<Rightarrow> stack = prefixes_of q \<and> inside q t \<and>
       (\<exists>l d b r. subtree_at q t = Node l d b r \<and> after dir p t = d # items_from dir (if dir then r else l) @ after dir q t)"
proof (induction p rule: rev_induct)
  case Nil
  then show ?case by (simp add: climb.simps)
next
  case (snoc x p)
  have p: "inside p t" "subtree_at p t \<noteq> Leaf" using snoc.prems(1) by (simp_all add: inside_snoc)
  then obtain l d b r where n: "subtree_at p t = Node l d b r" by (cases "subtree_at p t") auto
  note a = after_snoc [OF p(1) n, of dir x]
  show ?case
  proof (cases "x = dir")
    case True
    then have up: "climb dir (p @ [x]) (prefixes_of (p @ [x])) = climb dir p (prefixes_of p)"
      by (subst climb.simps) (simp add: Let_def)
    have "after dir (p @ [x]) t = after dir p t" using a True by simp
    then show ?thesis using snoc.IH [OF p] unfolding up by (simp only:)
  next
    case False
    then have "climb dir (p @ [x]) (prefixes_of (p @ [x])) = Some (p, prefixes_of p)"
      by (subst climb.simps) (simp add: Let_def)
    then show ?thesis using p(1) n a False by simp
  qed
qed

section \<open>A step of a traverser\<close>

text \<open>A traverser that is at the node with the item \<open>d\<close> and has its stack.\<close>

definition at_node :: "('k, 'a) avl_table \<Rightarrow> 'a avl_traverser \<Rightarrow> 'a \<Rightarrow> bool list \<Rightarrow> bool" where
  "at_node tree trav d p \<longleftrightarrow>
     trav_node trav = Some (p, d) \<and> avl_stack trav = prefixes_of p \<and>
     trav_generation trav = avl_generation tree \<and> inside p (avl_root tree) \<and>
     (\<exists>l b r. subtree_at p (avl_root tree) = Node l d b r)"

text \<open>What \<^verbatim>\<open>avl_t_next\<close> and \<^verbatim>\<open>avl_t_prev\<close> do at a node; \<open>dir\<close> is the direction.\<close>

definition step_from :: "bool \<Rightarrow> ('k, 'a) avl_table \<Rightarrow> 'a avl_traverser \<Rightarrow> ('a option \<times> 'a avl_traverser) option" where
  "step_from dir tree trav = do {
     (x, _) \<leftarrow> trav_node trav;
     (case subtree_at x (avl_root tree) of
        Leaf \<Rightarrow> None
      | Node l _ b r \<Rightarrow>
          let c = (if dir then r else l) in
          if c \<noteq> Leaf then
            (if \<not> length (avl_stack trav) < AVL_MAX_HEIGHT then None
             else do {
               (x, d, stack) \<leftarrow> descend (\<not> dir) (x @ [dir]) (avl_stack trav @ [x]) c;
               Some (Some d, trav\<lparr>trav_node := Some (x, d), avl_stack := stack\<rparr>)
             })
          else
            (case climb dir x (avl_stack trav) of
               None \<Rightarrow> Some (None, trav\<lparr>trav_node := None, avl_stack := []\<rparr>)
             | Some (x, stack) \<Rightarrow>
                 (case subtree_at x (avl_root tree) of
                    Leaf \<Rightarrow> None
                  | Node _ d _ _ \<Rightarrow> Some (Some d, trav\<lparr>trav_node := Some (x, d), avl_stack := stack\<rparr>))))
   }"

lemma next_step:
  "trav_generation trav = avl_generation tree \<Longrightarrow> trav_node trav \<noteq> None \<Longrightarrow>
   avl_t_next deref tree trav = step_from True tree trav"
  "trav_generation trav = avl_generation tree \<Longrightarrow> trav_node trav \<noteq> None \<Longrightarrow>
   avl_t_prev deref tree trav = step_from False tree trav"
  by (auto simp: avl_t_next_def avl_t_prev_def step_from_def Let_def split: avl_node.splits option.splits)

text \<open>One step goes to the next item of the order, or to the null item behind the last one.\<close>

lemma step_ok:
  assumes "at_node tree trav d p" "height (avl_root tree) \<le> AVL_MAX_HEIGHT"
  shows "\<exists>xs ys. items_from dir (avl_root tree) = xs @ d # ys \<and>
    (\<exists>trav'. step_from dir tree trav = Some (case ys of [] \<Rightarrow> None | y # _ \<Rightarrow> Some y, trav') \<and>
       (case ys of [] \<Rightarrow> trav_node trav' = None | y # _ \<Rightarrow> \<exists>q. at_node tree trav' y q))"
proof -
  let ?t = "avl_root tree"
  have trav: "trav_node trav = Some (p, d)" "avl_stack trav = prefixes_of p"
    "trav_generation trav = avl_generation tree" "inside p ?t"
    using assms(1) by (simp_all add: at_node_def)
  obtain l b r where n: "subtree_at p ?t = Node l d b r" using assms(1) by (auto simp: at_node_def)
  let ?c = "if dir then r else l"
  let ?ys = "items_from dir ?c @ after dir p ?t"
  have items: "items_from dir ?t = (before dir p ?t @ items_from dir (if dir then l else r)) @ d # ?ys"
    using items_around [OF trav(4), of dir] n by simp
  have down: "length p + height (Node l d b r) \<le> height ?t" using inside_height [OF trav(4)] unfolding n .
  have "\<exists>trav'. step_from dir tree trav = Some (case ?ys of [] \<Rightarrow> None | y # _ \<Rightarrow> Some y, trav') \<and>
       (case ?ys of [] \<Rightarrow> trav_node trav' = None | y # _ \<Rightarrow> \<exists>q. at_node tree trav' y q)"
  proof (cases "?c = Leaf")
    case False
    have len: "length p < AVL_MAX_HEIGHT" "length (p @ [dir]) + height ?c \<le> AVL_MAX_HEIGHT"
      using down assms(2) by (auto split: if_splits)
    obtain q d' where q: "descend (\<not> dir) (p @ [dir]) (prefixes_of (p @ [dir])) ?c =
        Some ((p @ [dir]) @ q, d', prefixes_of ((p @ [dir]) @ q))" "inside q ?c"
        "\<exists>l b r. subtree_at q ?c = Node l d' b r" "items_from dir ?c = d' # tl (items_from dir ?c)"
      using descend_ok [OF False len(2)] by blast
    let ?trav = "trav\<lparr>trav_node := Some ((p @ [dir]) @ q, d'), avl_stack := prefixes_of ((p @ [dir]) @ q)\<rparr>"
    have "step_from dir tree trav = Some (Some d', ?trav)"
      using trav(1,2) n False len(1) q(1) by (simp add: step_from_def Let_def)
    moreover have "at_node tree ?trav d' ((p @ [dir]) @ q)"
    proof -
      have "inside (p @ dir # q) ?t" "subtree_at (p @ dir # q) ?t = subtree_at q ?c"
        unfolding inside_append [OF trav(4)] subtree_append [OF trav(4)] n using q(2) by simp_all
      then show ?thesis using q(3) trav(3) by (simp add: at_node_def)
    qed
    ultimately show ?thesis using q(4) by (intro exI [of _ ?trav]) (cases "items_from dir ?c", auto)
  next
    case True
    then have ys: "?ys = after dir p ?t" by simp
    have "subtree_at p ?t \<noteq> Leaf" using n by simp
    note c = climb_ok [OF trav(4) this, of dir]
    show ?thesis
    proof (cases "climb dir p (prefixes_of p)")
      case None
      then show ?thesis using c trav(1,2) n True unfolding ys by (simp add: step_from_def Let_def)
    next
      case (Some qs)
      then obtain q where q: "climb dir p (prefixes_of p) = Some (q, prefixes_of q)" "inside q ?t"
        using c by (cases qs) auto
      obtain l' d' b' r' where m: "subtree_at q ?t = Node l' d' b' r'"
        "after dir p ?t = d' # items_from dir (if dir then r' else l') @ after dir q ?t"
        using c q(1) by auto
      let ?trav = "trav\<lparr>trav_node := Some (q, d'), avl_stack := prefixes_of q\<rparr>"
      have "step_from dir tree trav = Some (Some d', ?trav)"
        using trav(1,2) n True q(1) m(1) by (simp add: step_from_def Let_def)
      moreover have "at_node tree ?trav d' q" using trav(3) q(2) m(1) by (simp add: at_node_def)
      moreover have ys': "?ys = d' # items_from dir (if dir then r' else l') @ after dir q ?t"
        unfolding ys by (rule m(2))
      ultimately show ?thesis unfolding ys' by auto
    qed
  qed
  then show ?thesis using items by blast
qed

lemma balanced_max_height:
  assumes "balanced t" "length (inorder t) < 2 ^ 64"
  shows "height t \<le> AVL_MAX_HEIGHT"
  using balanced_height_bound [OF assms] by (simp add: AVL_MAX_HEIGHT_def)

lemma first_ok:
  assumes "height (avl_root tree) \<le> AVL_MAX_HEIGHT" "avl_root tree \<noteq> Leaf"
  shows "\<exists>trav p d. avl_t_first tree = Some (Some d, trav) \<and> at_node tree trav d p \<and>
      inorder (avl_root tree) = d # tl (inorder (avl_root tree))"
    and "\<exists>trav p d. avl_t_last tree = Some (Some d, trav) \<and> at_node tree trav d p \<and>
      rev (inorder (avl_root tree)) = d # tl (rev (inorder (avl_root tree)))"
  using descend_ok [OF assms(2), of "[]" True] descend_ok [OF assms(2), of "[]" False] assms
  by (auto simp: avl_t_first_def avl_t_last_def at_node_def items_from_inorder)

text \<open>
  The lookup of \<^verbatim>\<open>trav_refresh\<close>: below an item on the wrong side of \<open>d\<close> the comparison leads to the
  side \<open>d\<close> is on.
\<close>

lemma refresh_loop_ok:
  assumes "\<forall>x \<in> set (inorder t). deref x = Some (key x)" "d \<in> set (inorder t)"
    and "sorted_wrt (\<lambda>x y. compare (key x) (key y) < 0 \<and> compare (key y) (key x) > 0) (inorder t)"
    and "length i + height t \<le> AVL_MAX_HEIGHT"
  shows "\<exists>q l b r. refresh_loop compare deref d i (prefixes_of i) t = Some (i @ q, prefixes_of (i @ q)) \<and>
    inside q t \<and> subtree_at q t = Node l d b r"
  using assms
proof (induction t arbitrary: i)
  case (Node l x b r)
  show ?case
  proof (cases "x = d")
    case True
    then show ?thesis by (intro exI [of _ "[]"]) simp
  next
    case False
    let ?dir = "compare (key d) (key x) > 0"
    have side: "d \<in> set (inorder (if ?dir then r else l))"
      using Node.prems(2,3) False by (force simp: sorted_wrt_append)
    then have "(if ?dir then r else l) \<noteq> Leaf" by (auto split: if_splits)
    then have len: "length i < AVL_MAX_HEIGHT" "length (i @ [?dir]) + height (if ?dir then r else l) \<le> AVL_MAX_HEIGHT"
      using Node.prems(4) by (auto split: if_splits)
    have keys: "deref d = Some (key d)" "deref x = Some (key x)" using Node.prems(1,2) by auto
    have "\<exists>q l' b' r'. refresh_loop compare deref d (i @ [?dir]) (prefixes_of (i @ [?dir])) (if ?dir then r else l) =
        Some ((i @ [?dir]) @ q, prefixes_of ((i @ [?dir]) @ q)) \<and>
        inside q (if ?dir then r else l) \<and> subtree_at q (if ?dir then r else l) = Node l' d b' r'"
    proof (cases ?dir)
      case True
      show ?thesis unfolding if_P [OF True]
        by (rule Node.IH(2)) (use Node.prems(1,3) side len True in \<open>simp_all add: sorted_wrt_append\<close>)
    next
      case False
      show ?thesis unfolding if_not_P [OF False]
        by (rule Node.IH(1)) (use Node.prems(1,3) side len False in \<open>simp_all add: sorted_wrt_append\<close>)
    qed
    then obtain q l' b' r' where q: "refresh_loop compare deref d (i @ [?dir]) (prefixes_of (i @ [?dir])) (if ?dir then r else l) =
        Some ((i @ [?dir]) @ q, prefixes_of ((i @ [?dir]) @ q))"
        "inside q (if ?dir then r else l)" "subtree_at q (if ?dir then r else l) = Node l' d b' r'" by blast
    then show ?thesis using False len(1) keys by (intro exI [of _ "?dir # q"]) (simp add: Let_def)
  qed
qed simp

text \<open>A traverser at the item \<open>d\<close>, also one that was left behind by changes of the tree.\<close>

definition at_item :: "('k, 'a) avl_table \<Rightarrow> 'a avl_traverser \<Rightarrow> 'a \<Rightarrow> bool" where
  "at_item tree trav d \<longleftrightarrow>
     (\<exists>p. at_node tree trav d p) \<or>
     (\<exists>p. trav_node trav = Some (p, d)) \<and> trav_generation trav \<noteq> avl_generation tree"

context avl_order
begin

lemma wf_sorted:
  assumes "avl_wf compare deref t" "\<forall>d \<in> set (avl_items t). the (deref d) \<in> K"
  shows "sorted_wrt (\<lambda>x y. compare (the (deref x)) (the (deref y)) < 0 \<and> compare (the (deref y)) (the (deref x)) > 0)
      (avl_items t)"
  by (rule sorted_wrt_mono_rel [of _ "\<lambda>x y. compare (the (deref x)) (the (deref y)) < 0"])
    (use assms cmp_swap in \<open>auto simp: avl_wf_def\<close>)

lemma wf_distinct:
  assumes "avl_wf compare deref t" "\<forall>d \<in> set (avl_items t). the (deref d) \<in> K"
  shows "distinct (avl_items t)"
proof -
  have "distinct xs" if "sorted_wrt (\<lambda>x y. f x y < 0 \<and> f y x > 0) xs" for f :: "_ \<Rightarrow> _ \<Rightarrow> int" and xs :: "'c list"
    using that by (induction xs) force+
  from this [OF wf_sorted [OF assms]] show ?thesis .
qed

lemma refresh_ok:
  assumes wf: "avl_wf compare deref t" "\<forall>d \<in> set (avl_items t). the (deref d) \<in> K"
    and size: "length (avl_items t) < 2 ^ 64" and at: "at_item t trav d" "d \<in> set (avl_items t)"
  shows "\<exists>trav' p. (if trav_generation trav \<noteq> avl_generation t then trav_refresh deref t trav else Some trav) = Some trav' \<and>
    at_node t trav' d p"
proof (cases "trav_generation trav = avl_generation t")
  case True
  then show ?thesis using at(1) by (auto simp: at_item_def)
next
  case False
  then obtain p where p: "trav_node trav = Some (p, d)" using at(1) by (auto simp: at_item_def at_node_def)
  have h: "length [] + height (avl_root t) \<le> AVL_MAX_HEIGHT"
    using balanced_max_height [of "avl_root t"] wf(1) size by (simp add: avl_wf_def)
  have cmp: "avl_compare t = compare" using wf(1) by (simp add: avl_wf_def)
  obtain q l b r where "refresh_loop compare deref d [] [] (avl_root t) = Some (q, prefixes_of q)"
    "inside q (avl_root t)" "subtree_at q (avl_root t) = Node l d b r"
    using refresh_loop_ok [where key = "\<lambda>d. the (deref d)", OF avl_wf_live [OF wf(1)] at(2) wf_sorted [OF wf] h] by auto
  then show ?thesis using False p cmp by (auto simp: trav_refresh_def at_node_def)
qed

lemma next_ok:
  assumes wf: "avl_wf compare deref t" "\<forall>d \<in> set (avl_items t). the (deref d) \<in> K"
    and size: "length (avl_items t) < 2 ^ 64" and items: "avl_items t = xs @ d # ys" and at: "at_item t trav d"
  shows "\<exists>trav'. avl_t_next deref t trav = Some (case ys of [] \<Rightarrow> None | y # _ \<Rightarrow> Some y, trav') \<and>
      (case ys of [] \<Rightarrow> trav_node trav' = None | y # _ \<Rightarrow> at_item t trav' y)"
    and "\<exists>trav'. avl_t_prev deref t trav = Some (case rev xs of [] \<Rightarrow> None | x # _ \<Rightarrow> Some x, trav') \<and>
      (case rev xs of [] \<Rightarrow> trav_node trav' = None | x # _ \<Rightarrow> at_item t trav' x)"
proof -
  have "d \<in> set (avl_items t)" using items by simp
  then obtain u p where u: "(if trav_generation trav \<noteq> avl_generation t then trav_refresh deref t trav else Some trav) = Some u"
    "at_node t u d p" using refresh_ok [OF wf size at] by blast
  have un: "trav_generation u = avl_generation t" "trav_node u \<noteq> None" using u(2) by (simp_all add: at_node_def)
  have same: "avl_t_next deref t trav = avl_t_next deref t u" "avl_t_prev deref t trav = avl_t_prev deref t u"
    using u(1) un(1) by (simp_all add: avl_t_next_def avl_t_prev_def)
  have h: "height (avl_root t) \<le> AVL_MAX_HEIGHT"
    using balanced_max_height [of "avl_root t"] wf(1) size by (simp add: avl_wf_def)
  have unique: "as = xs \<and> bs = ys" if "avl_items t = as @ d # bs" for as bs
  proof -
    have "as @ d # bs = xs @ d # ys" using that items by simp
    moreover have "distinct (as @ d # bs)" "distinct (xs @ d # ys)"
      using wf_distinct [OF wf] unfolding that [symmetric] items [symmetric] by simp_all
    ultimately show ?thesis by (auto simp: append_eq_append_conv2 append_eq_Cons_conv Cons_eq_append_conv)
  qed
  have at: "at_item t v y" if "at_node t v y q" for v y q using that by (auto simp: at_item_def)
  obtain as bs trav' where f: "avl_items t = as @ d # bs"
    "step_from True t u = Some (case bs of [] \<Rightarrow> None | y # _ \<Rightarrow> Some y, trav')"
    "case bs of [] \<Rightarrow> trav_node trav' = None | y # _ \<Rightarrow> \<exists>q. at_node t trav' y q"
    using step_ok [OF u(2) h, of True] by (auto simp: items_from_inorder)
  then show "\<exists>trav'. avl_t_next deref t trav = Some (case ys of [] \<Rightarrow> None | y # _ \<Rightarrow> Some y, trav') \<and>
      (case ys of [] \<Rightarrow> trav_node trav' = None | y # _ \<Rightarrow> at_item t trav' y)"
    using unique [OF f(1)] at unfolding same next_step(1) [OF un] by (auto split: list.splits)
  obtain as bs trav' where g: "rev (avl_items t) = as @ d # bs"
    "step_from False t u = Some (case bs of [] \<Rightarrow> None | y # _ \<Rightarrow> Some y, trav')"
    "case bs of [] \<Rightarrow> trav_node trav' = None | y # _ \<Rightarrow> \<exists>q. at_node t trav' y q"
    using step_ok [OF u(2) h, of False] by (auto simp: items_from_inorder)
  have "avl_items t = rev bs @ d # rev as" using arg_cong [OF g(1), of rev] by simp
  from unique [OF this] have "bs = rev xs" by auto
  then show "\<exists>trav'. avl_t_prev deref t trav = Some (case rev xs of [] \<Rightarrow> None | x # _ \<Rightarrow> Some x, trav') \<and>
      (case rev xs of [] \<Rightarrow> trav_node trav' = None | x # _ \<Rightarrow> at_item t trav' x)"
    using g(2,3) at unfolding same next_step(2) [OF un] by (auto split: list.splits)
qed

end

section \<open>Traversals\<close>

text \<open>The results of \<open>n\<close> calls of \<^verbatim>\<open>avl_t_next\<close>.\<close>

primrec visits ::
  "nat \<Rightarrow> ('a \<Rightarrow> 'k option) \<Rightarrow> ('k, 'a) avl_table \<Rightarrow> 'a avl_traverser \<Rightarrow> 'a option list option" where
  "visits 0 deref tree trav = Some []"
| "visits (Suc n) deref tree trav = do {
     (r, trav) \<leftarrow> avl_t_next deref tree trav;
     rs \<leftarrow> visits n deref tree trav;
     Some (r # rs)
   }"

context avl_order
begin

lemma visits_rest:
  assumes "avl_wf compare deref t" "\<forall>d \<in> set (avl_items t). the (deref d) \<in> K" "length (avl_items t) < 2 ^ 64"
  shows "avl_items t = xs @ d # ys \<Longrightarrow> at_item t trav d \<Longrightarrow>
    visits (Suc (length ys)) deref t trav = Some (map Some ys @ [None])"
proof (induction ys arbitrary: xs d trav)
  case Nil
  then show ?case using next_ok(1) [OF assms Nil.prems] by auto
next
  case (Cons y ys)
  obtain trav' where n: "avl_t_next deref t trav = Some (Some y, trav')" "at_item t trav' y"
    using next_ok(1) [OF assms Cons.prems] by auto
  have "avl_items t = (xs @ [d]) @ y # ys" using Cons.prems(1) by simp
  note rest = Cons.IH [OF this n(2)]
  show ?case unfolding list.size add_Suc_right add_0_right
    by (subst visits.simps(2)) (simp only: n(1) rest bind.bind_lunit prod.case list.map append_Cons)
qed

lemma visits_all:
  assumes "avl_wf compare deref t" "\<forall>d \<in> set (avl_items t). the (deref d) \<in> K" "length (avl_items t) < 2 ^ 64"
  shows "visits (Suc (length (avl_items t))) deref t (avl_t_init t) = Some (map Some (avl_items t) @ [None])"
proof (cases "avl_root t = Leaf")
  case True
  then show ?thesis by (simp add: avl_t_next_def avl_t_init_def avl_t_first_def)
next
  case False
  have "height (avl_root t) \<le> AVL_MAX_HEIGHT"
    using balanced_max_height [of "avl_root t"] assms(1,3) by (simp add: avl_wf_def)
  from first_ok(1) [OF this False] obtain trav p d ys where f: "avl_t_first t = Some (Some d, trav)" "at_node t trav d p"
    "avl_items t = d # ys" by blast
  have "at_item t trav d" using f(2) by (auto simp: at_item_def)
  moreover have "avl_items t = [] @ d # ys" using f(3) by simp
  ultimately have rest: "visits (Suc (length ys)) deref t trav = Some (map Some ys @ [None])"
    by (intro visits_rest [OF assms])
  have first: "avl_t_next deref t (avl_t_init t) = Some (Some d, trav)"
    using f(1) by (simp add: avl_t_next_def avl_t_init_def)
  show ?thesis unfolding f(3) list.size add_Suc_right add_0_right
    by (subst visits.simps(2)) (simp only: first rest bind.bind_lunit prod.case list.map append_Cons)
qed

end

section \<open>Changes of the tree under a traverser\<close>

text \<open>An insertion either moves no node or changes the generation.\<close>

definition node_with :: "'a \<Rightarrow> bool list \<Rightarrow> 'a avl_node \<Rightarrow> bool" where
  "node_with d p t \<longleftrightarrow> inside p t \<and> (\<exists>l b r. subtree_at p t = Node l d b r)"

lemma node_with_Cons: "node_with d (x # p) (Node l y b r) \<longleftrightarrow> node_with d p (if x then r else l)"
  by (auto simp: node_with_def)

lemma node_with_Nil: "node_with d [] t \<longleftrightarrow> (\<exists>l b r. t = Node l d b r)"
  by (simp add: node_with_def)

lemma node_with_Leaf [simp]: "\<not> node_with d p Leaf"
  by (cases p) (auto simp: node_with_def)

lemma node_with_leaf_filled:
  "node_with d p t \<Longrightarrow> inside n t \<Longrightarrow> subtree_at n t = Leaf \<Longrightarrow> node_with d p (update_at n f t)"
proof (induction n t arbitrary: p rule: inside.induct)
  case (2 x n l y b r)
  then show ?case
    by (cases p) (auto simp: node_with_Cons node_with_Nil split: if_splits)
qed auto

lemma node_with_adjusted: "node_with d p t \<Longrightarrow> node_with d p (avl_adjust da t)"
proof (induction da t arbitrary: p rule: avl_adjust.induct)
  case (1 x da l y b r)
  then show ?case by (cases p) (auto simp: node_with_Cons node_with_Nil split: if_splits)
qed auto

lemma node_with_update:
  "(\<And>p t. node_with d p t \<Longrightarrow> node_with d p (f t)) \<Longrightarrow> node_with d p t \<Longrightarrow> node_with d p (update_at y f t)"
proof (induction y t arbitrary: p rule: inside.induct)
  case (2 x y l z b r)
  then show ?case by (cases p) (auto simp: node_with_Cons node_with_Nil split: if_splits)
qed auto

lemma search_vacant_leaf:
  "avl_probe_search compare deref k t y da = Some (Vacant y' da') \<Longrightarrow>
   \<exists>q. y' @ da' = (y @ da) @ q \<and> inside q t \<and> subtree_at q t = Leaf"
proof (induction t arbitrary: y da)
  case Leaf
  then show ?case by simp
next
  case (Node l d b r)
  then obtain j where j: "deref d = Some j" by (auto split: option.splits)
  let ?dir = "compare k j > 0"
  let ?y = "if b \<noteq> 0 then y @ da else y"
  let ?da = "(if b \<noteq> 0 then [] else da) @ [?dir]"
  have n: "avl_probe_search compare deref k (if ?dir then r else l) ?y ?da = Some (Vacant y' da')"
    using Node.prems j by (auto simp: Let_def split: if_splits)
  have "\<exists>q. y' @ da' = (?y @ ?da) @ q \<and> inside q (if ?dir then r else l) \<and> subtree_at q (if ?dir then r else l) = Leaf"
    using Node.IH(1) [of ?y ?da] Node.IH(2) [of ?y ?da] n by (cases ?dir) simp_all
  then obtain q where "y' @ da' = (?y @ ?da) @ q" "inside q (if ?dir then r else l)"
    "subtree_at q (if ?dir then r else l) = Leaf" by blast
  then show ?case by (intro exI [of _ "?dir # q"]) (auto split: if_splits)
qed

lemma probe_keeps_nodes:
  assumes "avl_probe e deref t x s = Some (r, t', s')" "node_with d p (avl_root t)"
  shows "avl_generation t' = avl_generation t + 1 \<or>
    avl_generation t' = avl_generation t \<and> node_with d p (avl_root t')"
proof -
  have root: "avl_root t \<noteq> Leaf" using assms(2) by auto
  obtain k found where k: "deref x = Some k"
    "avl_probe_search (avl_compare t) deref k (avl_root t) [] [] = Some found"
    using assms(1) by (auto simp: avl_probe_def Option.bind_eq_Some_conv)
  show ?thesis
  proof (cases found)
    case (Duplicate q c)
    then show ?thesis using assms k by (simp add: avl_probe_def)
  next
    case (Vacant y da)
    show ?thesis
    proof (cases "fst (malloc e s)")
      case None
      then show ?thesis using assms k Vacant by (auto simp: avl_probe_def split: prod.splits)
    next
      case (Some a)
      let ?n = "update_at (y @ da) (\<lambda>_. Node Leaf x 0 Leaf) (avl_root t)"
      let ?u = "update_at y (avl_adjust da) ?n"
      obtain w rotated where w: "avl_rebalance (subtree_at y ?u) = Some (w, rotated)"
        "t' = (if rotated
           then t\<lparr>avl_count := avl_count t + 1, avl_root := update_at y (\<lambda>_. w) ?u, avl_generation := avl_generation t + 1\<rparr>
           else t\<lparr>avl_count := avl_count t + 1, avl_root := ?u\<rparr>)"
        using assms(1) k Vacant Some root
        by (auto simp: avl_probe_def Let_def Option.bind_eq_Some_conv split: prod.splits if_splits)
      have "inside (y @ da) (avl_root t)" "subtree_at (y @ da) (avl_root t) = Leaf"
        using search_vacant_leaf [of "avl_compare t" deref k "avl_root t" "[]" "[]" y da] k(2) Vacant by auto
      then have "node_with d p ?n" by (rule node_with_leaf_filled [OF assms(2)])
      then have "node_with d p ?u"
        by (rule node_with_update [where f = "avl_adjust da", OF node_with_adjusted, rotated])
      then show ?thesis using w(2) by (cases rotated) simp_all
    qed
  qed
qed

lemma probe_keeps_item:
  assumes "avl_probe e deref t x s = Some (r, t', s')" "at_node t trav d p"
  shows "at_item t' trav d"
proof -
  have "node_with d p (avl_root t)" using assms(2) by (simp add: at_node_def node_with_def)
  from probe_keeps_nodes [OF assms(1) this] show ?thesis
  proof
    assume "avl_generation t' = avl_generation t + 1"
    then show ?thesis using assms(2) by (simp add: at_item_def at_node_def)
  next
    assume "avl_generation t' = avl_generation t \<and> node_with d p (avl_root t')"
    then have "at_node t' trav d p" using assms(2) unfolding at_node_def node_with_def by simp
    then show ?thesis unfolding at_item_def by blast
  qed
qed

lemma delete_keeps_item:
  assumes "avl_delete deref t k = Some (Some c, t')" "at_node t trav d p"
  shows "at_item t' trav d"
proof -
  obtain f where f: "avl_delete_search (avl_compare t) deref k [] (avl_root t) = Some f"
    using assms(1) by (auto simp: avl_delete_def Option.bind_eq_Some_conv)
  obtain q where q: "f = Some q" using assms(1) f by (cases f) (auto simp: avl_delete_def)
  obtain pl pd pb pr where n: "subtree_at q (avl_root t) = Node pl pd pb pr"
    using assms(1) f q by (cases "subtree_at q (avl_root t)") (auto simp: avl_delete_def)
  have "avl_generation t' = avl_generation t + 1"
    using assms(1) unfolding avl_delete_def f q n bind.bind_lunit option.case avl_node.case Let_def
    by (auto simp: Option.bind_eq_Some_conv simp del: avl_unlink.simps)
  then show ?thesis using assms(2) by (auto simp: at_item_def at_node_def)
qed

section \<open>Properties\<close>

text \<open>
  C34. A traversal visits every item once, in order: on a well-formed table, the calls of
  \<^verbatim>\<open>avl_t_next\<close> after \<^verbatim>\<open>avl_t_init\<close> return its items from the least to the greatest and then \<^verbatim>\<open>NULL\<close>;
  the stack \<^verbatim>\<open>avl_stack[AVL_MAX_HEIGHT]\<close> never overflows.
\<close>

theorem traversal_visits_in_order:
  assumes "avl_order compare K" "avl_wf compare deref t" "\<forall>d \<in> set (avl_items t). the (deref d) \<in> K"
    and "length (avl_items t) < 2 ^ 64"
  shows "visits (Suc (length (avl_items t))) deref t (avl_t_init t) = Some (map Some (avl_items t) @ [None])"
  using avl_order.visits_all [OF assms] .

theorem traversal_visits_in_order_witness:
  "visits 5 Some avl_example (avl_t_init avl_example) = Some [Some 1, Some 3, Some 5, Some 8, None]"
proof -
  have "\<forall>d \<in> set (avl_items avl_example). the (Some d) \<in> (UNIV :: int set)" "length (avl_items avl_example) < 2 ^ 64"
    by (simp_all add: avl_example_def)
  from traversal_visits_in_order [OF int_order avl_example_wf this] show ?thesis
    by (simp add: avl_example_def eval_nat_numeral)
qed

text \<open>
  C29. A traverser survives an insertion, also one that rotates the nodes above it: the next item it
  returns is the successor of its item in the new table, and the previous one the predecessor.
\<close>

theorem traverser_survives_insertion:
  assumes "avl_order compare K" "at_node t trav d p" "avl_probe e deref t x s = Some (r, t', s')"
    and "avl_wf compare deref t'" "\<forall>d \<in> set (avl_items t'). the (deref d) \<in> K"
    and "length (avl_items t') < 2 ^ 64" "avl_items t' = xs @ d # ys"
  shows "\<exists>u v. avl_t_next deref t' trav = Some (case ys of [] \<Rightarrow> None | y # _ \<Rightarrow> Some y, u) \<and>
    avl_t_prev deref t' trav = Some (case rev xs of [] \<Rightarrow> None | x # _ \<Rightarrow> Some x, v)"
  using avl_order.next_ok [OF assms(1,4-7) probe_keeps_item [OF assms(3,2)]] by blast

text \<open>The insertion of 2 rotates the subtree of 3, at which the traverser is.\<close>

definition avl_rotated :: "(int, int) avl_table" where
  "avl_rotated = avl_example\<lparr>
     avl_root := Node (Node (Node Leaf 1 0 Leaf) 2 0 (Node Leaf 3 0 Leaf)) 5 (-1) (Node Leaf 8 0 Leaf),
     avl_count := 5, avl_generation := 1\<rparr>"

theorem traverser_survives_insertion_witness:
  "\<exists>u v. avl_t_next Some avl_rotated \<lparr>trav_node = Some ([False], 3), avl_stack = [[]], trav_generation = 0\<rparr> = Some (Some 5, u) \<and>
    avl_t_prev Some avl_rotated \<lparr>trav_node = Some ([False], 3), avl_stack = [[]], trav_generation = 0\<rparr> = Some (Some 2, v)"
proof -
  let ?trav = "\<lparr>trav_node = Some ([False], 3), avl_stack = [[]], trav_generation = 0\<rparr>"
  have at: "at_node avl_example ?trav 3 [False]"
    by (simp add: at_node_def avl_example_def prefixes_of_def)
  have probe: "avl_probe flat_env Some avl_example 2 flat_machine =
      Some (Some ([False, False, True], 2), avl_rotated, flat_machine\<lparr>mallocs := 1\<rparr>)"
    by (simp add: avl_probe_def avl_rotated_def avl_example_def flat_machine_malloc)
  have wf: "avl_wf (\<lambda>x y. x - y) Some avl_rotated"
    by (simp add: avl_wf_def avl_rotated_def avl_example_def)
  have items: "avl_items avl_rotated = [1, 2] @ 3 # [5, 8]" by (simp add: avl_rotated_def)
  then have "\<forall>d \<in> set (avl_items avl_rotated). the (Some d) \<in> (UNIV :: int set)" "length (avl_items avl_rotated) < 2 ^ 64"
    by simp_all
  from traverser_survives_insertion [OF int_order at probe wf this items] show ?thesis by simp
qed

end
