(* ===== verification/AvlCopy.thy ===== *)
theory AvlCopy
  imports AvlTraverse
begin

text \<open>
  \<^verbatim>\<open>avl_copy\<close> of \<^verbatim>\<open>faultplugin/lib/avl.c\<close> and its recovery from errors.

  While a table is copied, its new nodes have fields that were not written yet.  A \<open>draft\<close> is the part
  that exists so far: a link is \<^verbatim>\<open>NULL\<close>, not written, or points to a node, and so is a data pointer; a
  balance factor that was not written is \<open>None\<close>.  Reading a field that was not written is undefined behaviour.
  The pointers \<open>x\<close> and \<open>y\<close> are the table seen as a node (\<open>Head\<close>, whose left link is the root) or
  a path from its root.
\<close>

section \<open>The code\<close>

datatype 'a cell = Unset_data | Null_data | Item 'a

datatype 'a draft = Null_link | Unset_link | Draft "'a draft" "'a cell" "int option" "'a draft"

datatype pos = Head | At "bool list"

fun child :: "bool \<Rightarrow> pos \<Rightarrow> pos" where
  "child dir Head = At []"
| "child dir (At p) = At (p @ [dir])"

text \<open>The left link of a node of the original, and the assignments through a pointer to a new node.\<close>

fun left_link :: "pos \<Rightarrow> 'a avl_node \<Rightarrow> 'a avl_node" where
  "left_link Head t = t"
| "left_link (At p) t = (case subtree_at p t of Leaf \<Rightarrow> Leaf | Node l _ _ _ \<Rightarrow> l)"

fun draft_at :: "bool list \<Rightarrow> ('a draft \<Rightarrow> 'a draft) \<Rightarrow> 'a draft \<Rightarrow> 'a draft" where
  "draft_at [] f t = f t"
| "draft_at (dir # p) f (Draft l c b r) =
     (if dir then Draft l c b (draft_at p f r) else Draft (draft_at p f l) c b r)"
| "draft_at (dir # p) f t = t"

fun draft_field ::
  "('a draft \<Rightarrow> 'a cell \<Rightarrow> int option \<Rightarrow> 'a draft \<Rightarrow> 'a draft) \<Rightarrow> 'a draft \<Rightarrow> 'a draft" where
  "draft_field f (Draft l c b r) = f l c b r"
| "draft_field f t = t"

fun set_left :: "pos \<Rightarrow> 'a draft \<Rightarrow> 'a draft \<Rightarrow> 'a draft" where
  "set_left Head link t = link"
| "set_left (At p) link t = draft_at p (draft_field (\<lambda>l c b r. Draft link c b r)) t"

fun set_right :: "pos \<Rightarrow> 'a draft \<Rightarrow> 'a draft \<Rightarrow> 'a draft" where
  "set_right Head link t = t"
| "set_right (At p) link t = draft_at p (draft_field (\<lambda>l c b r. Draft l c b link)) t"

fun set_data :: "pos \<Rightarrow> 'a cell \<Rightarrow> 'a draft \<Rightarrow> 'a draft" where
  "set_data Head c t = t"
| "set_data (At p) c t = draft_at p (draft_field (\<lambda>l _ b r. Draft l c b r)) t"

fun set_balance :: "pos \<Rightarrow> int \<Rightarrow> 'a draft \<Rightarrow> 'a draft" where
  "set_balance Head b t = t"
| "set_balance (At p) b t = draft_at p (draft_field (\<lambda>l c _ r. Draft l c (Some b) r)) t"

definition fresh_node :: "'a draft" where
  "fresh_node = Draft Unset_link Unset_data None Unset_link"

text \<open>
  \<^verbatim>\<open>avl_destroy\<close> on a table that is not complete; \<open>call\<close> says whether a \<^verbatim>\<open>destroy\<close> function was
  given, the result is the list of items it is called with.
\<close>

fun draft_size :: "'a draft \<Rightarrow> nat" where
  "draft_size (Draft l c b r) = Suc (draft_size l + draft_size r)"
| "draft_size t = 0"

fun draft_left_size :: "'a draft \<Rightarrow> nat" where
  "draft_left_size (Draft l c b r) = draft_size l"
| "draft_left_size t = 0"

function destroy_draft :: "bool \<Rightarrow> 'a draft \<Rightarrow> 'a list option" where
  "destroy_draft call Null_link = Some []"
| "destroy_draft call Unset_link = None"
| "destroy_draft call (Draft Null_link c b r) =
     (if call then
        (case c of
           Unset_data \<Rightarrow> None
         | Null_data \<Rightarrow> destroy_draft call r
         | Item d \<Rightarrow> map_option ((#) d) (destroy_draft call r))
      else destroy_draft call r)"
| "destroy_draft call (Draft Unset_link c b r) = None"
| "destroy_draft call (Draft (Draft ll lc lb lr) c b r) =
     destroy_draft call (Draft ll lc lb (Draft lr c b r))"
  by pat_completeness auto
termination
  by (relation "measures [\<lambda>(_, t). draft_size t, \<lambda>(_, t). draft_left_size t]") auto

text \<open>The stack holds the pointers \<open>x\<close> and \<open>y\<close> of each level, \<open>y\<close> on top.\<close>

function copy_error_recovery :: "bool \<Rightarrow> pos list \<Rightarrow> 'a draft \<Rightarrow> 'a list option" where
  "copy_error_recovery call stack new =
     (if length stack > 2
      then copy_error_recovery call (butlast (butlast stack)) (set_right (stack ! (length stack - 1)) Null_link new)
      else destroy_draft call new)"
  by pat_completeness auto
termination by (relation "measure (\<lambda>(_, stack, _). length stack)") auto

declare copy_error_recovery.simps [simp del]

text \<open>The finished copy, when every field was written.\<close>

fun finished :: "'a draft \<Rightarrow> 'a avl_node option" where
  "finished Null_link = Some Leaf"
| "finished (Draft l (Item d) (Some b) r) = do { l \<leftarrow> finished l; r \<leftarrow> finished r; Some (Node l d b r) }"
| "finished t = None"

text \<open>
  The loops: \<open>down\<close> is the \<^verbatim>\<open>while\<close> that follows the left links, otherwise it is the inner
  \<^verbatim>\<open>for\<close>.  The result is the copy, or \<^verbatim>\<open>NULL\<close> with the items that were destroyed.
\<close>

partial_function (option) copy_loop ::
  "'g env \<Rightarrow> ('a \<Rightarrow> 'a option) option \<Rightarrow> bool \<Rightarrow> 'a avl_node \<Rightarrow> bool \<Rightarrow> pos \<Rightarrow> pos \<Rightarrow> pos list \<Rightarrow> 'a draft \<Rightarrow>
   ('g, 'z) machine_scheme \<Rightarrow> ('a avl_node option \<times> 'a list \<times> ('g, 'z) machine_scheme) option" where
  "copy_loop e copy call org down x y stack new s =
     (if down then
        (if left_link x org \<noteq> Leaf then
           (if \<not> length stack < 2 * (AVL_MAX_HEIGHT + 1) then None
            else
              (case malloc e s of
                 (None, s) \<Rightarrow>
                   (let new = set_left y Null_link new;
                        new = (if y \<noteq> Head then set_right y Null_link (set_data y Null_data new) else new)
                    in map_option (\<lambda>ds. (None, ds, s)) (copy_error_recovery call stack new))
               | (Some _, s) \<Rightarrow>
                   copy_loop e copy call org True (child False x) (child False y) (stack @ [x, y])
                     (set_left y fresh_node new) s))
         else copy_loop e copy call org False x y stack (set_left y Null_link new) s)
      else
        (case x of
           Head \<Rightarrow> None
         | At p \<Rightarrow>
             (case subtree_at p org of
                Leaf \<Rightarrow> None
              | Node _ d b r \<Rightarrow>
                  (let new = set_balance y b new
                   in case (case copy of None \<Rightarrow> Some d | Some f \<Rightarrow> f d) of
                        None \<Rightarrow>
                          (let new = set_right y Null_link (set_data y Null_data new)
                           in map_option (\<lambda>ds. (None, ds, s)) (copy_error_recovery call stack new))
                      | Some d \<Rightarrow>
                          (let new = set_data y (Item d) new
                           in if r \<noteq> Leaf then
                                (case malloc e s of
                                   (None, s) \<Rightarrow>
                                     map_option (\<lambda>ds. (None, ds, s))
                                       (copy_error_recovery call stack (set_right y Null_link new))
                                 | (Some _, s) \<Rightarrow>
                                     copy_loop e copy call org True (child True x) (child True y) stack
                                       (set_right y fresh_node new) s)
                              else
                                (let new = set_right y Null_link new
                                 in if length stack \<le> 2 then map_option (\<lambda>t. (Some t, [], s)) (finished new)
                                    else
                                      copy_loop e copy call org False (last (butlast stack)) (last stack)
                                        (butlast (butlast stack)) new s))))))"

definition avl_copy ::
  "'g env \<Rightarrow> ('k, 'a) avl_table \<Rightarrow> ('a \<Rightarrow> 'a option) option \<Rightarrow> bool \<Rightarrow> ('g, 'z) machine_scheme \<Rightarrow>
   (('k, 'a) avl_table option \<times> 'a list \<times> ('g, 'z) machine_scheme) option" where
  "avl_copy e org copy call s =
     (case avl_create e (avl_compare org) s of
        (None, s) \<Rightarrow> Some (None, [], s)
      | (Some new, s) \<Rightarrow>
          (let new = new\<lparr>avl_count := avl_count org\<rparr>
           in if avl_count new = 0 then Some (Some new, [], s)
              else do {
                (t, ds, s) \<leftarrow> copy_loop e copy call (avl_root org) True Head Head [] Null_link s;
                Some (map_option (\<lambda>t. new\<lparr>avl_root := t\<rparr>) t, ds, s)
              }))"

section \<open>Assignments to a draft\<close>

lemma draft_at_append: "draft_at (p @ q) f t = draft_at p (draft_at q f) t"
  by (induction p f t rule: draft_at.induct) auto

lemma draft_at_twice: "draft_at p f (draft_at p g t) = draft_at p (\<lambda>t. f (g t)) t"
  by (induction p g t rule: draft_at.induct) auto

text \<open>A node that was put at \<open>p\<close>, and assignments through a pointer to it or to its children.\<close>

definition put_draft :: "bool list \<Rightarrow> 'a draft \<Rightarrow> 'a draft \<Rightarrow> 'a draft" where
  "put_draft p d t = draft_at p (\<lambda>_. d) t"

lemma put_draft_Nil [simp]: "put_draft [] d t = d"
  by (simp add: put_draft_def)

lemma set_put_draft [simp]:
  "set_left (At p) link (put_draft p (Draft l c b r) t) = put_draft p (Draft link c b r) t"
  "set_right (At p) link (put_draft p (Draft l c b r) t) = put_draft p (Draft l c b link) t"
  "set_data (At p) k (put_draft p (Draft l c b r) t) = put_draft p (Draft l k b r) t"
  "set_balance (At p) n (put_draft p (Draft l c b r) t) = put_draft p (Draft l c (Some n) r) t"
  by (simp_all add: put_draft_def draft_at_twice)

declare set_left.simps(2) [simp del] set_right.simps(2) [simp del] set_data.simps(2) [simp del]
  set_balance.simps(2) [simp del]

lemma put_draft_child:
  "put_draft (p @ [False]) d (put_draft p (Draft l c b r) t) = put_draft p (Draft d c b r) t"
  "put_draft (p @ [True]) d (put_draft p (Draft l c b r) t) = put_draft p (Draft l c b d) t"
  by (simp_all add: put_draft_def draft_at_append draft_at_twice)

text \<open>A fresh node below a node is an assignment to the link.\<close>

lemma put_fresh_child:
  "put_draft p (Draft fresh_node c b r) t = put_draft (p @ [False]) fresh_node (put_draft p (Draft Unset_link c b r) t)"
  "put_draft p (Draft l c b fresh_node) t = put_draft (p @ [True]) fresh_node (put_draft p (Draft l c b Unset_link) t)"
  by (simp_all add: put_draft_child)

lemma subtree_at_child:
  "subtree_at p t = Node l d b r \<Longrightarrow> subtree_at (p @ [dir]) t = (if dir then r else l)"
  by (induction p t rule: subtree_at.induct) auto

section \<open>A copy that succeeds\<close>

definition copy_item :: "('a \<Rightarrow> 'a option) option \<Rightarrow> 'a \<Rightarrow> 'a option" where
  "copy_item copy d = (case copy of None \<Rightarrow> Some d | Some f \<Rightarrow> f d)"

fun complete :: "('a \<Rightarrow> 'a option) option \<Rightarrow> 'a avl_node \<Rightarrow> 'a draft" where
  "complete copy Leaf = Null_link"
| "complete copy (Node l d b r) =
     Draft (complete copy l) (Item (the (copy_item copy d))) (Some b) (complete copy r)"

lemma finished_complete: "finished (complete copy t) = Some (map_avl_node (\<lambda>d. the (copy_item copy d)) t)"
  by (induction t) auto

text \<open>Where the loop goes on after a subtree.\<close>

definition resume_copy ::
  "'g env \<Rightarrow> ('a \<Rightarrow> 'a option) option \<Rightarrow> bool \<Rightarrow> 'a avl_node \<Rightarrow> pos list \<Rightarrow> 'a draft \<Rightarrow>
   ('g, 'z) machine_scheme \<Rightarrow> ('a avl_node option \<times> 'a list \<times> ('g, 'z) machine_scheme) option" where
  "resume_copy e copy call org stack new s =
     (if length stack \<le> 2 then map_option (\<lambda>t. (Some t, [], s)) (finished new)
      else copy_loop e copy call org False (last (butlast stack)) (last stack) (butlast (butlast stack)) new s)"

lemma resume_pushed:
  assumes "2 \<le> length stack"
  shows "resume_copy e copy call org (stack @ [x, y]) new s = copy_loop e copy call org False x y stack new s"
  using assms by (auto simp: resume_copy_def butlast_append)

lemma copy_left:
  assumes "plenty e" "subtree_at p org = Node l d b r" "l \<noteq> Leaf" "length stack < 2 * (AVL_MAX_HEIGHT + 1)"
  shows "copy_loop e copy call org True (At p) (At p) stack (put_draft p fresh_node new) s =
    copy_loop e copy call org True (At (p @ [False])) (At (p @ [False])) (stack @ [At p, At p])
      (put_draft (p @ [False]) fresh_node (put_draft p fresh_node new)) (s\<lparr>mallocs := mallocs s + 1\<rparr>)"
  unfolding put_draft_child fresh_node_def
  by (subst copy_loop.simps) (use assms in \<open>simp add: plenty_malloc fresh_node_def\<close>)

lemma copy_no_left:
  assumes "subtree_at p org = Node Leaf d b r"
  shows "copy_loop e copy call org True (At p) (At p) stack (put_draft p fresh_node new) s =
    copy_loop e copy call org False (At p) (At p) stack
      (put_draft p (Draft Null_link Unset_data None Unset_link) new) s"
  by (subst copy_loop.simps) (use assms in \<open>simp add: fresh_node_def\<close>)

lemma copy_node:
  assumes "plenty e" "subtree_at p org = Node l d b r" "copy_item copy d = Some d'"
  shows "copy_loop e copy call org False (At p) (At p) stack (put_draft p (Draft dl Unset_data None Unset_link) new) s =
    (if r \<noteq> Leaf then
       copy_loop e copy call org True (At (p @ [True])) (At (p @ [True])) stack
         (put_draft (p @ [True]) fresh_node (put_draft p (Draft dl (Item d') (Some b) Unset_link) new))
         (s\<lparr>mallocs := mallocs s + 1\<rparr>)
     else resume_copy e copy call org stack (put_draft p (Draft dl (Item d') (Some b) Null_link) new) s)"
  unfolding put_draft_child
  by (subst copy_loop.simps) (use assms in \<open>simp add: plenty_malloc copy_item_def resume_copy_def\<close>)

definition copyable :: "('a \<Rightarrow> 'a option) option \<Rightarrow> 'a avl_node \<Rightarrow> bool" where
  "copyable copy t \<longleftrightarrow> (\<forall>d \<in> set (inorder t). copy_item copy d \<noteq> None)"

lemma copyable_simps [simp]:
  "copyable copy Leaf"
  "copyable copy (Node l d b r) \<longleftrightarrow> copyable copy l \<and> copy_item copy d \<noteq> None \<and> copyable copy r"
  by (auto simp: copyable_def)

text \<open>The left part of a subtree, given the same for all of its nodes.\<close>

lemma copy_left_part:
  fixes s :: "('g, 'z) machine_scheme"
  assumes "plenty e" "subtree_at p org = Node l d b r" "copyable copy l" "2 \<le> length stack"
    "length stack + 2 * height (Node l d b r) \<le> 2 * (AVL_MAX_HEIGHT + 2)"
    and sub: "\<And>p stack new (s :: ('g, 'z) machine_scheme). subtree_at p org = l \<Longrightarrow> l \<noteq> Leaf \<Longrightarrow> copyable copy l \<Longrightarrow>
      2 \<le> length stack \<Longrightarrow> length stack + 2 * height l \<le> 2 * (AVL_MAX_HEIGHT + 2) \<Longrightarrow>
      copy_loop e copy call org True (At p) (At p) stack (put_draft p fresh_node new) s =
      resume_copy e copy call org stack (put_draft p (complete copy l) new) (s\<lparr>mallocs := mallocs s + (avl_size l - 1)\<rparr>)"
  shows "copy_loop e copy call org True (At p) (At p) stack (put_draft p fresh_node new) s =
    copy_loop e copy call org False (At p) (At p) stack
      (put_draft p (Draft (complete copy l) Unset_data None Unset_link) new) (s\<lparr>mallocs := mallocs s + avl_size l\<rparr>)"
proof (cases "l = Leaf")
  case True
  with copy_no_left [of p org d b r] assms(2) show ?thesis by simp
next
  case False
  then have pos: "0 < avl_size l" "0 < height l" by (cases l; simp)+
  have at: "subtree_at (p @ [False]) org = l" using subtree_at_child [OF assms(2)] by simp
  have room: "length stack < 2 * (AVL_MAX_HEIGHT + 1)"
    "length (stack @ [At p, At p]) + 2 * height l \<le> 2 * (AVL_MAX_HEIGHT + 2)"
    using assms(5) pos by simp_all
  have "copy_loop e copy call org True (At p) (At p) stack (put_draft p fresh_node new) s =
    resume_copy e copy call org (stack @ [At p, At p]) (put_draft (p @ [False]) (complete copy l) (put_draft p fresh_node new))
      (s\<lparr>mallocs := mallocs s + 1\<rparr>\<lparr>mallocs := mallocs (s\<lparr>mallocs := mallocs s + 1\<rparr>) + (avl_size l - 1)\<rparr>)"
    unfolding copy_left [OF assms(1,2) False room(1)]
    by (rule sub [OF at False assms(3) _ room(2)]) simp
  then show ?thesis
    using False pos unfolding resume_pushed [OF assms(4)] by (simp add: fresh_node_def put_draft_child)
qed

lemma copy_subtree:
  assumes "plenty e"
  shows "subtree_at p org = t \<Longrightarrow> t \<noteq> Leaf \<Longrightarrow> copyable copy t \<Longrightarrow>
    2 \<le> length stack \<Longrightarrow> length stack + 2 * height t \<le> 2 * (AVL_MAX_HEIGHT + 2) \<Longrightarrow>
    copy_loop e copy call org True (At p) (At p) stack (put_draft p fresh_node new) s =
    resume_copy e copy call org stack (put_draft p (complete copy t) new) (s\<lparr>mallocs := mallocs s + (avl_size t - 1)\<rparr>)"
proof (induction t arbitrary: p stack new s)
  case Leaf
  then show ?case by simp
next
  case (Node l d b r)
  have at: "subtree_at (p @ [True]) org = r" using subtree_at_child [OF Node.prems(1)] by simp
  obtain d' where d: "copy_item copy d = Some d'" "copyable copy l" using Node.prems(3) by auto
  have left: "copy_loop e copy call org True (At p) (At p) stack (put_draft p fresh_node new) s =
    copy_loop e copy call org False (At p) (At p) stack
      (put_draft p (Draft (complete copy l) Unset_data None Unset_link) new) (s\<lparr>mallocs := mallocs s + avl_size l\<rparr>)"
    by (rule copy_left_part [OF assms Node.prems(1) d(2) Node.prems(4,5)]) (rule Node.IH(1))
  show ?case
  proof (cases "r = Leaf")
    case True
    then show ?thesis unfolding left using d(1) by (simp add: copy_node [OF assms Node.prems(1) d(1)])
  next
    case False
    then have pos: "0 < avl_size r" by (cases r) auto
    let ?new = "put_draft p (Draft (complete copy l) (Item d') (Some b) Unset_link) new"
    let ?s = "s\<lparr>mallocs := mallocs s + avl_size l\<rparr>\<lparr>mallocs := mallocs (s\<lparr>mallocs := mallocs s + avl_size l\<rparr>) + 1\<rparr>"
    have "copy_loop e copy call org True (At (p @ [True])) (At (p @ [True])) stack (put_draft (p @ [True]) fresh_node ?new) ?s =
      resume_copy e copy call org stack (put_draft (p @ [True]) (complete copy r) ?new)
        (?s\<lparr>mallocs := mallocs ?s + (avl_size r - 1)\<rparr>)"
      by (rule Node.IH(2) [OF at False]) (use Node.prems in simp_all)
    then show ?thesis
      unfolding left copy_node [OF assms Node.prems(1) d(1)] using d(1) False pos
      by (simp add: put_draft_child add.assoc)
  qed
qed

lemma copy_all:
  assumes "plenty e" "org \<noteq> Leaf" "height org \<le> AVL_MAX_HEIGHT" "copyable copy org"
  shows "copy_loop e copy call org True Head Head [] Null_link s =
    Some (Some (map_avl_node (\<lambda>d. the (copy_item copy d)) org), [], s\<lparr>mallocs := mallocs s + avl_size org\<rparr>)"
proof -
  have pos: "0 < avl_size org" using assms(2) by (cases org) auto
  have "copy_loop e copy call org True Head Head [] Null_link s =
    copy_loop e copy call org True (At []) (At []) [Head, Head] (put_draft [] fresh_node Null_link) (s\<lparr>mallocs := mallocs s + 1\<rparr>)"
    by (subst copy_loop.simps) (use assms(1,2) in \<open>simp add: plenty_malloc\<close>)
  also have "\<dots> = resume_copy e copy call org [Head, Head] (put_draft [] (complete copy org) Null_link)
      (s\<lparr>mallocs := mallocs s + 1\<rparr>\<lparr>mallocs := mallocs (s\<lparr>mallocs := mallocs s + 1\<rparr>) + (avl_size org - 1)\<rparr>)"
    by (rule copy_subtree [OF assms(1)]) (use assms in simp_all)
  finally show ?thesis using pos by (simp add: resume_copy_def finished_complete)
qed

section \<open>A copy that fails\<close>

text \<open>
  The draft of a subtree after the recovery: the nodes whose left subtree was being copied keep the
  data pointer that was never written.
\<close>

fun recovered :: "('a \<Rightarrow> 'a option) option \<Rightarrow> 'a avl_node \<Rightarrow> 'a draft" where
  "recovered copy Leaf = Null_link"
| "recovered copy (Node l d b r) =
     (if \<not> copyable copy l then Draft (recovered copy l) Unset_data None Null_link
      else
        (case copy_item copy d of
           None \<Rightarrow> Draft (complete copy l) Null_data (Some b) Null_link
         | Some d' \<Rightarrow> Draft (complete copy l) (Item d') (Some b) (recovered copy r)))"

lemma recovery_pop:
  assumes "2 \<le> length stack"
  shows "copy_error_recovery call (stack @ [x, At p]) (put_draft p (Draft l c b r) new) =
    copy_error_recovery call stack (put_draft p (Draft l c b Null_link) new)"
  using assms by (subst copy_error_recovery.simps) (auto simp: nth_append butlast_append)

lemma copy_node_fails:
  assumes "subtree_at p org = Node l d b r" "copy_item copy d = None"
  shows "copy_loop e copy call org False (At p) (At p) stack (put_draft p (Draft dl Unset_data None Unset_link) new) s =
    map_option (\<lambda>ds. (None, ds, s))
      (copy_error_recovery call stack (put_draft p (Draft dl Null_data (Some b) Null_link) new))"
  by (subst copy_loop.simps) (use assms in \<open>simp add: copy_item_def\<close>)

lemma copy_subtree_fails:
  assumes "plenty e"
  shows "subtree_at p org = t \<Longrightarrow> \<not> copyable copy t \<Longrightarrow> 2 \<le> length stack \<Longrightarrow>
    length stack + 2 * height t \<le> 2 * (AVL_MAX_HEIGHT + 2) \<Longrightarrow>
    \<exists>k. copy_loop e copy call org True (At p) (At p) stack (put_draft p fresh_node new) s =
      map_option (\<lambda>ds. (None, ds, s\<lparr>mallocs := k\<rparr>)) (copy_error_recovery call stack (put_draft p (recovered copy t) new))"
proof (induction t arbitrary: p stack new s)
  case Leaf
  then show ?case by simp
next
  case (Node l d b r)
  have at: "subtree_at (p @ [False]) org = l" "subtree_at (p @ [True]) org = r"
    using subtree_at_child [OF Node.prems(1)] by simp_all
  show ?case
  proof (cases "copyable copy l")
    case False
    then have l: "l \<noteq> Leaf" "0 < height l" by (cases l; simp)+
    have room: "length stack < 2 * (AVL_MAX_HEIGHT + 1)"
      "length (stack @ [At p, At p]) + 2 * height l \<le> 2 * (AVL_MAX_HEIGHT + 2)" "2 \<le> length (stack @ [At p, At p])"
      using Node.prems(4) l by simp_all
    let ?s = "s\<lparr>mallocs := mallocs s + 1\<rparr>"
    obtain k where "copy_loop e copy call org True (At (p @ [False])) (At (p @ [False])) (stack @ [At p, At p])
          (put_draft (p @ [False]) fresh_node (put_draft p fresh_node new)) ?s =
        map_option (\<lambda>ds. (None, ds, ?s\<lparr>mallocs := k\<rparr>)) (copy_error_recovery call (stack @ [At p, At p])
          (put_draft (p @ [False]) (recovered copy l) (put_draft p fresh_node new)))"
      using Node.IH(1) [OF at(1) False room(3,2)] by blast
    then show ?thesis
      unfolding copy_left [OF assms Node.prems(1) l(1) room(1)] using False
      by (simp add: fresh_node_def put_draft_child recovery_pop [OF Node.prems(3)]) blast
  next
    case True
    have left: "copy_loop e copy call org True (At p) (At p) stack (put_draft p fresh_node new) s =
    copy_loop e copy call org False (At p) (At p) stack
      (put_draft p (Draft (complete copy l) Unset_data None Unset_link) new) (s\<lparr>mallocs := mallocs s + avl_size l\<rparr>)"
      by (rule copy_left_part [OF assms Node.prems(1) True Node.prems(3,4)]) (rule copy_subtree [OF assms])
    show ?thesis
    proof (cases "copy_item copy d")
      case None
      then show ?thesis
        unfolding left copy_node_fails [OF Node.prems(1) None] using True by auto
    next
      case (Some d')
      then have r: "\<not> copyable copy r" "r \<noteq> Leaf" using Node.prems(2) True by auto
      let ?new = "put_draft p (Draft (complete copy l) (Item d') (Some b) Unset_link) new"
      let ?s = "s\<lparr>mallocs := mallocs s + avl_size l\<rparr>\<lparr>mallocs := mallocs (s\<lparr>mallocs := mallocs s + avl_size l\<rparr>) + 1\<rparr>"
      have room: "length stack + 2 * height r \<le> 2 * (AVL_MAX_HEIGHT + 2)" using Node.prems(4) by simp
      obtain k where "copy_loop e copy call org True (At (p @ [True])) (At (p @ [True])) stack
            (put_draft (p @ [True]) fresh_node ?new) ?s =
          map_option (\<lambda>ds. (None, ds, ?s\<lparr>mallocs := k\<rparr>))
            (copy_error_recovery call stack (put_draft (p @ [True]) (recovered copy r) ?new))"
        using Node.IH(2) [OF at(2) r(1) Node.prems(3) room] by blast
      then show ?thesis
        unfolding left copy_node [OF assms Node.prems(1) Some] using True Some r by (simp add: put_draft_child) blast
    qed
  qed
qed

section \<open>The recovery\<close>

text \<open>The items of a draft in order: what \<^verbatim>\<open>avl_destroy\<close> calls the function with.\<close>

fun draft_items :: "'a draft \<Rightarrow> 'a list option" where
  "draft_items Null_link = Some []"
| "draft_items Unset_link = None"
| "draft_items (Draft l c b r) = do {
     xs \<leftarrow> draft_items l;
     ys \<leftarrow> (case c of Unset_data \<Rightarrow> None | Null_data \<Rightarrow> Some [] | Item d \<Rightarrow> Some [d]);
     zs \<leftarrow> draft_items r;
     Some (xs @ ys @ zs)
   }"

fun all_linked :: "'a draft \<Rightarrow> bool" where
  "all_linked Null_link = True"
| "all_linked Unset_link = False"
| "all_linked (Draft l c b r) \<longleftrightarrow> all_linked l \<and> all_linked r"

lemma destroy_items: "destroy_draft True t = draft_items t"
  by (induction True t rule: destroy_draft.induct) (auto split: cell.splits Option.bind_splits simp: map_option_case split: option.splits)

lemma destroy_nothing: "all_linked t \<Longrightarrow> destroy_draft False t = Some []"
  by (induction False t rule: destroy_draft.induct) auto

lemma complete_items: "draft_items (complete copy t) = Some (map (\<lambda>d. the (copy_item copy d)) (inorder t))"
  by (induction t) auto

lemma recovered_linked: "all_linked (complete copy t)" "all_linked (recovered copy t)"
proof -
  show c: "all_linked (complete copy t)" for t by (induction t) auto
  show "all_linked (recovered copy t)" by (induction t) (auto simp: c split: option.splits)
qed

text \<open>Whether the first item that cannot be copied is not below the left link of any node.\<close>

fun fails_on_right :: "('a \<Rightarrow> 'a option) option \<Rightarrow> 'a avl_node \<Rightarrow> bool" where
  "fails_on_right copy Leaf = True"
| "fails_on_right copy (Node l d b r) \<longleftrightarrow>
     copyable copy l \<and> (copy_item copy d \<noteq> None \<longrightarrow> fails_on_right copy r)"

definition copied_before :: "('a \<Rightarrow> 'a option) option \<Rightarrow> 'a list \<Rightarrow> 'a list" where
  "copied_before copy ds = map (\<lambda>d. the (copy_item copy d)) (takeWhile (\<lambda>d. copy_item copy d \<noteq> None) ds)"

lemma recovered_items:
  "draft_items (recovered copy t) = (if fails_on_right copy t then Some (copied_before copy (inorder t)) else None)"
proof (induction t)
  case Leaf
  then show ?case by (simp add: copied_before_def)
next
  case (Node l d b r)
  show ?case
  proof (cases "copyable copy l")
    case False
    then show ?thesis by (simp split: Option.bind_splits)
  next
    case True
    then have "takeWhile (\<lambda>d. copy_item copy d \<noteq> None) (inorder l @ d # inorder r) =
        inorder l @ takeWhile (\<lambda>d. copy_item copy d \<noteq> None) (d # inorder r)"
      by (intro takeWhile_append2) (simp add: copyable_def)
    then show ?thesis using True Node.IH(2) by (auto simp: copied_before_def complete_items split: option.splits)
  qed
qed

lemma copy_fails:
  assumes "plenty e" "\<not> copyable copy org" "height org \<le> AVL_MAX_HEIGHT"
  shows "\<exists>k. copy_loop e copy call org True Head Head [] Null_link s =
    map_option (\<lambda>ds. (None, ds, s\<lparr>mallocs := k\<rparr>))
      (if call then (if fails_on_right copy org then Some (copied_before copy (inorder org)) else None) else Some [])"
proof -
  have leaf: "org \<noteq> Leaf" using assms(2) by auto
  let ?s = "s\<lparr>mallocs := mallocs s + 1\<rparr>"
  have "copy_loop e copy call org True Head Head [] Null_link s =
    copy_loop e copy call org True (At []) (At []) [Head, Head] (put_draft [] fresh_node Null_link) ?s"
    by (subst copy_loop.simps) (use assms(1) leaf in \<open>simp add: plenty_malloc\<close>)
  moreover obtain k where "copy_loop e copy call org True (At []) (At []) [Head, Head] (put_draft [] fresh_node Null_link) ?s =
    map_option (\<lambda>ds. (None, ds, ?s\<lparr>mallocs := k\<rparr>)) (copy_error_recovery call [Head, Head] (put_draft [] (recovered copy org) Null_link))"
    using copy_subtree_fails [OF assms(1), of "[]" org org copy "[Head, Head]" call Null_link ?s] assms(2,3) by auto
  moreover have "copy_error_recovery call [Head, Head] (recovered copy org) = destroy_draft call (recovered copy org)"
    by (simp add: copy_error_recovery.simps)
  ultimately show ?thesis
    using destroy_nothing [OF recovered_linked(2), of copy org] by (cases call) (auto simp: destroy_items recovered_items)
qed

section \<open>The table\<close>

lemma copy_size: "avl_size t = length (inorder t)"
  by (induction t) auto

lemma avl_wf_shape:
  assumes "avl_wf compare deref org" "length (avl_items org) < 2 ^ 64"
  shows "avl_count org = 0 \<longleftrightarrow> avl_root org = Leaf" "height (avl_root org) \<le> AVL_MAX_HEIGHT"
proof -
  have "unat (avl_count org) = length (avl_items org)"
    using assms by (simp add: avl_wf_def unat_of_nat)
  then have "avl_count org = 0 \<longleftrightarrow> length (avl_items org) = 0" by (metis unat_eq_zero)
  then show "avl_count org = 0 \<longleftrightarrow> avl_root org = Leaf" by (cases "avl_root org") auto
  show "height (avl_root org) \<le> AVL_MAX_HEIGHT" using assms by (intro balanced_max_height) (simp_all add: avl_wf_def)
qed

text \<open>
  C38. A copy of a table.  When there is memory and every item can be copied, \<^verbatim>\<open>avl_copy\<close> returns a new
  table of the same shape, with the same balance factors, the copy of each item in the place of the
  item, or the items themselves when no copy function is given; the stack of \<^verbatim>\<open>2 * (AVL_MAX_HEIGHT + 1)\<close> entries does
  not overflow, and no field of the copy is left unwritten.
\<close>

theorem avl_copy_copies:
  assumes "plenty e" "avl_wf compare deref org" "length (avl_items org) < 2 ^ 64"
    and "\<forall>d \<in> set (avl_items org). copy_item copy d \<noteq> None"
  shows "avl_copy e org copy call s =
    Some (Some \<lparr>avl_root = map_avl_node (\<lambda>d. the (copy_item copy d)) (avl_root org), avl_compare = compare,
                avl_count = avl_count org, avl_generation = 0\<rparr>,
          [], s\<lparr>mallocs := mallocs s + 1 + length (avl_items org)\<rparr>)"
proof -
  have c: "avl_compare org = compare" using assms(2) by (simp add: avl_wf_def)
  note shape = avl_wf_shape [OF assms(2,3)]
  show ?thesis
  proof (cases "avl_root org = Leaf")
    case True
    then show ?thesis using c shape(1) by (simp add: avl_copy_def avl_create_def plenty_malloc [OF assms(1)])
  next
    case False
    have "copyable copy (avl_root org)" using assms(4) by (simp add: copyable_def)
    from copy_all [OF assms(1) False shape(2) this, of call "s\<lparr>mallocs := mallocs s + 1\<rparr>"] show ?thesis
      using False c shape(1) by (simp add: avl_copy_def avl_create_def plenty_malloc [OF assms(1)] copy_size)
  qed
qed

theorem avl_copy_copies_witness:
  "avl_copy flat_env avl_example (Some (\<lambda>d. if d = 2 then None else Some (d + 10))) True flat_machine =
     Some (Some (avl_example\<lparr>avl_root :=
       Node (Node (Node Leaf 11 0 Leaf) 13 (-1) Leaf) 15 (-1) (Node Leaf 18 0 Leaf)\<rparr>), [], flat_machine\<lparr>mallocs := 5\<rparr>)"
proof -
  have "plenty flat_env" by (simp add: plenty_def flat_env_def)
  moreover have "length (avl_items avl_example) < 2 ^ 64"
    "\<forall>d \<in> set (avl_items avl_example). copy_item (Some (\<lambda>d. if d = 2 then None else Some (d + 10))) d \<noteq> None"
    by (simp_all add: avl_example_def copy_item_def)
  ultimately show ?thesis
    by (subst avl_copy_copies [OF _ avl_example_wf]) (simp_all add: avl_example_def flat_machine_def copy_item_def)
qed

text \<open>
  C39. A copy that fails.  When an item cannot be copied, \<^verbatim>\<open>avl_copy\<close> is meant to call \<^verbatim>\<open>destroy\<close>
  with the items copied so far and to return \<^verbatim>\<open>NULL\<close>.  It does so when no \<^verbatim>\<open>destroy\<close> function is
  given, or when the item that fails is not below the left link of any node; in every other case the
  recovery reads the data pointer of a node that was never written.
\<close>

theorem failed_copy_reads_unset_data:
  assumes "plenty e" "avl_wf compare deref org" "length (avl_items org) < 2 ^ 64"
    and "\<exists>d \<in> set (avl_items org). copy_item copy d = None"
  shows "\<exists>k. avl_copy e org copy call s =
    (if \<not> call then Some (None, [], s\<lparr>mallocs := k\<rparr>)
     else if fails_on_right copy (avl_root org) then Some (None, copied_before copy (avl_items org), s\<lparr>mallocs := k\<rparr>)
     else None)"
proof -
  note shape = avl_wf_shape [OF assms(2,3)]
  have fails: "\<not> copyable copy (avl_root org)" using assms(4) by (auto simp: copyable_def)
  then have "avl_count org \<noteq> 0" using shape(1) by auto
  with copy_fails [OF assms(1) fails shape(2), of call "s\<lparr>mallocs := mallocs s + 1\<rparr>"] show ?thesis
    by (auto simp: avl_copy_def avl_create_def plenty_malloc [OF assms(1)])
qed

text \<open>The first item cannot be copied; its node is below the left link of the root.\<close>

theorem failed_copy_reads_unset_data_witness:
  "avl_copy flat_env avl_example (Some (\<lambda>d. if d = 1 then None else Some d)) True flat_machine = None"
proof -
  let ?f = "Some (\<lambda>d. if d = 1 then None else Some d)"
  have "plenty flat_env" by (simp add: plenty_def flat_env_def)
  moreover have "length (avl_items avl_example) < 2 ^ 64" "\<exists>d \<in> set (avl_items avl_example). copy_item ?f d = None"
    by (simp_all add: avl_example_def copy_item_def)
  moreover have "\<not> fails_on_right ?f (avl_root avl_example)"
    by (simp add: avl_example_def copy_item_def)
  ultimately show ?thesis
    using failed_copy_reads_unset_data [OF _ avl_example_wf, where copy = ?f and call = True and s = flat_machine] by auto
qed

end
