(* ===== verification/SingleStep.thy ===== *)
theory SingleStep
  imports Machine
begin

text \<open>
  \<^verbatim>\<open>faultplugin/singlestep.c\<close>: the number of requests for single-step mode, and the mode itself.
  Several parts of the plugin ask for single stepping at the same time (a trigger that is about
  to fire, a live fault, a faulted block to be recorded); QEMU is in single-step mode as long as
  one request is open.
\<close>

record 'g singlestep_state = "'g machine" +
  req_singlestep :: u64

definition init_singlestep_req ::
  "('g, 'z) singlestep_state_scheme \<Rightarrow> ('g, 'z) singlestep_state_scheme" where
  "init_singlestep_req s = s\<lparr>req_singlestep := 0\<rparr>"

definition check_singlestep ::
  "'g env \<Rightarrow> ('g, 'z) singlestep_state_scheme \<Rightarrow> ('g, 'z) singlestep_state_scheme" where
  "check_singlestep e s =
     (let g = (if req_singlestep s = 0 then single_step e False (guest s)
               else single_step e True (guest s))
      in s\<lparr>guest := flush_tb e g\<rparr>)"

definition add_singlestep_req ::
  "'g env \<Rightarrow> ('g, 'z) singlestep_state_scheme \<Rightarrow> ('g, 'z) singlestep_state_scheme" where
  "add_singlestep_req e s = check_singlestep e (s\<lparr>req_singlestep := req_singlestep s + 1\<rparr>)"

definition rem_singlestep_req ::
  "'g env \<Rightarrow> ('g, 'z) singlestep_state_scheme \<Rightarrow> ('g, 'z) singlestep_state_scheme" where
  "rem_singlestep_req e s =
     (if req_singlestep s \<noteq> 0 then check_singlestep e (s\<lparr>req_singlestep := req_singlestep s - 1\<rparr>)
      else s)"

lemma req_singlestep_simps [simp]:
  "req_singlestep (init_singlestep_req s) = 0"
  "req_singlestep (check_singlestep e s) = req_singlestep s"
  "req_singlestep (add_singlestep_req e s) = req_singlestep s + 1"
  "req_singlestep (rem_singlestep_req e s) =
     (if req_singlestep s = 0 then 0 else req_singlestep s - 1)"
  by (simp_all add: init_singlestep_req_def check_singlestep_def add_singlestep_req_def
      rem_singlestep_req_def Let_def)

lemma singlestep_frame [frame_simps]:
  "mallocs (check_singlestep e s) = mallocs s"
  "mallocs (add_singlestep_req e s) = mallocs s"
  "mallocs (rem_singlestep_req e s) = mallocs s"
  "cbs (check_singlestep e s) = cbs s"
  "cbs (add_singlestep_req e s) = cbs s"
  "cbs (rem_singlestep_req e s) = cbs s"
  "singlestep_state.more (check_singlestep e s) = singlestep_state.more s"
  "singlestep_state.more (add_singlestep_req e s) = singlestep_state.more s"
  "singlestep_state.more (rem_singlestep_req e s) = singlestep_state.more s"
  by (simp_all add: check_singlestep_def add_singlestep_req_def rem_singlestep_req_def Let_def)

text \<open>Every change of the counter leaves memory and registers of the guest alone.\<close>

lemma singlestep_ram [frame_simps]:
  assumes "ram e byte A"
  shows "byte (guest (add_singlestep_req e s)) = byte (guest s)"
    and "byte (guest (rem_singlestep_req e s)) = byte (guest s)"
  using assms
  by (simp_all add: check_singlestep_def add_singlestep_req_def rem_singlestep_req_def Let_def
      ram_others)

lemma singlestep_regs [frame_simps]:
  assumes "regs_ok e m"
  shows "read_reg e r (guest (add_singlestep_req e s)) = read_reg e r (guest s)"
    and "read_reg e r (guest (rem_singlestep_req e s)) = read_reg e r (guest s)"
  using assms
  by (simp_all add: check_singlestep_def add_singlestep_req_def rem_singlestep_req_def Let_def
      regs_ok_def)

text \<open>
  \<open>quiet e g g'\<close>: between two guest states only the execution mode changed; plain memory and
  registers are the same.
\<close>

definition quiet :: "'g env \<Rightarrow> 'g \<Rightarrow> 'g \<Rightarrow> bool" where
  "quiet e g g' \<longleftrightarrow>
     (\<forall>byte A. ram e byte A \<longrightarrow> byte g' = byte g) \<and>
     (\<forall>m r. regs_ok e m \<longrightarrow> read_reg e r g' = read_reg e r g)"

lemma quiet_refl [simp]: "quiet e g g"
  by (simp add: quiet_def)

lemma quiet_trans [trans]: "quiet e g h \<Longrightarrow> quiet e h k \<Longrightarrow> quiet e g k"
  by (simp add: quiet_def)

lemma quiet_singlestep [simp]:
  "quiet e (guest s) (guest (add_singlestep_req e s))"
  "quiet e (guest s) (guest (rem_singlestep_req e s))"
  by (auto simp: quiet_def frame_simps)

lemma quiet_flush [simp]: "quiet e g (flush_tb e g)"
  by (auto simp: quiet_def ram_def regs_ok_def)

lemma quietD:
  "quiet e g g' \<Longrightarrow> ram e byte A \<Longrightarrow> byte g' = byte g"
  "quiet e g g' \<Longrightarrow> regs_ok e m \<Longrightarrow> read_reg e r g' = read_reg e r g"
  by (auto simp: quiet_def)

text \<open>Both operations as updates of the state.\<close>

lemma add_singlestep_req_update:
  obtains g where "add_singlestep_req e s = s\<lparr>guest := g, req_singlestep := req_singlestep s + 1\<rparr>"
    "quiet e (guest s) g"
proof (rule that)
  show "add_singlestep_req e s =
      s\<lparr>guest := guest (add_singlestep_req e s), req_singlestep := req_singlestep s + 1\<rparr>"
    by (simp add: add_singlestep_req_def check_singlestep_def Let_def)
qed simp

lemma rem_singlestep_req_update:
  obtains g where "rem_singlestep_req e s =
      s\<lparr>guest := g, req_singlestep := (if req_singlestep s = 0 then 0 else req_singlestep s - 1)\<rparr>"
    "quiet e (guest s) g"
proof (rule that)
  show "rem_singlestep_req e s = s\<lparr>guest := guest (rem_singlestep_req e s),
      req_singlestep := (if req_singlestep s = 0 then 0 else req_singlestep s - 1)\<rparr>"
    by (simp add: rem_singlestep_req_def check_singlestep_def Let_def)
qed simp

section \<open>Requests and releases\<close>

datatype request = Add | Remove

fun step_requests ::
  "'g env \<Rightarrow> request list \<Rightarrow> ('g, 'z) singlestep_state_scheme \<Rightarrow> ('g, 'z) singlestep_state_scheme" where
  "step_requests e [] s = s"
| "step_requests e (Add # rs) s = step_requests e rs (add_singlestep_req e s)"
| "step_requests e (Remove # rs) s = step_requests e rs (rem_singlestep_req e s)"

text \<open>The number of open requests: a release without an open request is ignored.\<close>

fun open_requests :: "request list \<Rightarrow> nat \<Rightarrow> nat" where
  "open_requests [] n = n"
| "open_requests (Add # rs) n = open_requests rs (Suc n)"
| "open_requests (Remove # rs) n = open_requests rs (n - 1)"

lemma unat_add_one: "unat (x :: u64) + 1 < 2 ^ 64 \<Longrightarrow> unat (x + 1) = unat x + 1"
  by (simp add: unat_word_ariths)

lemma unat_sub_one: "unat (if x = 0 then 0 else x - 1 :: u64) = unat x - 1"
  by (auto simp: unat_sub word_le_nat_alt unat_gt_0 Suc_le_eq)

lemma step_requests_count:
  "unat (req_singlestep s) + length rs < 2 ^ 64 \<Longrightarrow>
   unat (req_singlestep (step_requests e rs s)) = open_requests rs (unat (req_singlestep s))"
proof (induction e rs s rule: step_requests.induct)
  case (1 e s)
  then show ?case by simp
next
  case (2 e rs s)
  then have "unat (req_singlestep (add_singlestep_req e s)) = unat (req_singlestep s) + 1"
    by (simp add: unat_add_one)
  with 2 show ?case by simp
next
  case (3 e rs s)
  have "unat (req_singlestep (rem_singlestep_req e s)) = unat (req_singlestep s) - 1"
    by (simp add: unat_sub_one del: One_nat_def)
  with 3 show ?case by simp
qed

text \<open>QEMU's mode follows the counter.\<close>

definition mode_ok :: "'g env \<Rightarrow> ('g \<Rightarrow> bool) \<Rightarrow> bool" where
  "mode_ok e mode \<longleftrightarrow> (\<forall>b g. mode (flush_tb e (single_step e b g)) = b)"

lemma mode_check:
  "mode_ok e mode \<Longrightarrow> mode (guest (check_singlestep e s)) \<longleftrightarrow> req_singlestep s \<noteq> 0"
  by (simp add: mode_ok_def check_singlestep_def)

lemma step_requests_mode:
  "mode_ok e mode \<Longrightarrow> (mode (guest s) \<longleftrightarrow> req_singlestep s \<noteq> 0) \<Longrightarrow>
   mode (guest (step_requests e rs s)) \<longleftrightarrow> req_singlestep (step_requests e rs s) \<noteq> 0"
proof (induction e rs s rule: step_requests.induct)
  case (1 e s)
  then show ?case by simp
next
  case (2 e rs s)
  then show ?case by (simp add: add_singlestep_req_def mode_check)
next
  case (3 e rs s)
  then show ?case by (simp add: rem_singlestep_req_def mode_check)
qed

lemma flat_mode_ok: "mode_ok flat_env flat_step"
  by (simp add: mode_ok_def flat_env_def)

text \<open>
  C22. The counter of single-step requests: after any sequence of requests and releases it holds
  the number of open requests (a release without an open request is ignored), and QEMU is in
  single-step mode exactly when it is not zero.
\<close>

theorem singlestep_counts_open_requests:
  assumes "mode_ok e mode"
    and "mode (guest s) \<longleftrightarrow> req_singlestep s \<noteq> 0"
    and "unat (req_singlestep s) + length rs < 2 ^ 64"
  shows "unat (req_singlestep (step_requests e rs s)) = open_requests rs (unat (req_singlestep s)) \<and>
         (mode (guest (step_requests e rs s)) \<longleftrightarrow>
          open_requests rs (unat (req_singlestep s)) \<noteq> 0)"
  using step_requests_count [OF assms(3), of e] step_requests_mode [OF assms(1,2), of rs]
  by (metis unat_eq_zero)

definition flat_singlestep :: "flat singlestep_state" where
  "flat_singlestep = \<lparr>guest = flat_guest, mallocs = 0, cbs = [], req_singlestep = 0\<rparr>"

theorem singlestep_counts_open_requests_witness:
  "unat (req_singlestep (step_requests flat_env [Add, Remove, Remove, Add, Add] flat_singlestep)) =
     open_requests [Add, Remove, Remove, Add, Add] (unat (req_singlestep flat_singlestep)) \<and>
   open_requests [Add, Remove, Remove, Add, Add] (unat (req_singlestep flat_singlestep)) = 2"
  using singlestep_counts_open_requests
    [OF flat_mode_ok, of flat_singlestep "[Add, Remove, Remove, Add, Add]"]
  by (simp add: flat_singlestep_def flat_guest_def)

end
