(* ===== verification/FaultList.thy ===== *)
theory FaultList
  imports SingleStep
begin

text \<open>
  \<^verbatim>\<open>faultplugin/fault_list.h\<close>, \<^verbatim>\<open>faultplugin/fault_list.c\<close>: the configured faults, a singly linked
  list of \<^verbatim>\<open>malloc\<close>ed structs.  Pointers to its nodes are handed to QEMU as callback user data and
  stored in the live-fault vector, so the nodes live in a store and keep their identity.
\<close>

section \<open>Data\<close>

record fault_trigger =
  trig_address :: u64
  hitcounter :: u64
  trignum :: u64

record fault =
  f_address :: u64
  f_type :: u64
  f_model :: u64
  f_lifetime :: u64
  f_num_bytes :: u8
  f_mask :: "u8 list"
  f_restoremask :: "u8 list"
  f_trigger :: fault_trigger

record fault_node =
  fn_next :: "ref option"
  fn_fault :: fault

record 'g fault_list_state = "'g singlestep_state" +
  first_fault :: "ref option"
  fault_heap :: "ref \<rightharpoonup> fault_node"

interpretation fault_cell: linked_cell fn_next "\<lambda>p. fn_next_update (\<lambda>_. p)"
  by unfold_locales simp

section \<open>Operations\<close>

definition init_fault_list ::
  "('g, 'z) fault_list_state_scheme \<Rightarrow> ('g, 'z) fault_list_state_scheme" where
  "init_fault_list s = s\<lparr>first_fault := None\<rparr>"

text \<open>
  \<^verbatim>\<open>trigger.trignum\<close> is not set by \<^verbatim>\<open>add_fault\<close>; it holds what \<^verbatim>\<open>malloc\<close> left there.  The mask loop
  copies the sixteen bytes of the caller's array and clears the restore mask.
\<close>

definition add_fault ::
  "'g env \<Rightarrow> u64 \<Rightarrow> u64 \<Rightarrow> u64 \<Rightarrow> u64 \<Rightarrow> u8 list \<Rightarrow> u64 \<Rightarrow> u64 \<Rightarrow> u8 \<Rightarrow>
   ('g, 'z) fault_list_state_scheme \<Rightarrow> int \<times> ('g, 'z) fault_list_state_scheme" where
  "add_fault e fault_address fault_type fault_model fault_lifetime fault_mask
      fault_trigger_address fault_trigger_hitcounter num_bytes s =
     (case malloc e s of
        (None, s) \<Rightarrow> (-1, s)
      | (Some r, s) \<Rightarrow>
          (0, s\<lparr>fault_heap := (fault_heap s)(r \<mapsto>
                  \<lparr>fn_next = (if first_fault s \<noteq> None then first_fault s else None),
                   fn_fault =
                     \<lparr>f_address = fault_address, f_type = fault_type, f_model = fault_model,
                      f_lifetime = fault_lifetime, f_num_bytes = num_bytes,
                      f_mask = map (\<lambda>i. fault_mask ! i) [0..<16],
                      f_restoremask = replicate 16 0,
                      f_trigger = \<lparr>trig_address = fault_trigger_address,
                                   hitcounter = fault_trigger_hitcounter,
                                   trignum = malloc_junk e r 0\<rparr>\<rparr>\<rparr>),
                first_fault := Some r\<rparr>))"

definition delete_fault_queue ::
  "('g, 'z) fault_list_state_scheme \<Rightarrow> ('g, 'z) fault_list_state_scheme option" where
  "delete_fault_queue s = do {
     h \<leftarrow> free_chain fn_next (first_fault s) (fault_heap s);
     Some (s\<lparr>fault_heap := h, first_fault := None\<rparr>)
   }"

definition return_first_fault :: "('g, 'z) fault_list_state_scheme \<Rightarrow> ref option" where
  "return_first_fault s = first_fault s"

definition return_next ::
  "ref option \<Rightarrow> ('g, 'z) fault_list_state_scheme \<Rightarrow> ref option option" where
  "return_next current s = do {
     r \<leftarrow> current;
     n \<leftarrow> fault_heap s r;
     Some (fn_next n)
   }"

text \<open>Reading and writing the struct behind a fault pointer.\<close>

definition get_fault :: "ref \<Rightarrow> ('g, 'z) fault_list_state_scheme \<Rightarrow> fault option" where
  "get_fault r s = map_option fn_fault (fault_heap s r)"

definition put_fault ::
  "ref \<Rightarrow> fault \<Rightarrow> ('g, 'z) fault_list_state_scheme \<Rightarrow> ('g, 'z) fault_list_state_scheme option" where
  "put_fault r f s = do {
     n \<leftarrow> fault_heap s r;
     Some (s\<lparr>fault_heap := (fault_heap s)(r \<mapsto> n\<lparr>fn_fault := f\<rparr>)\<rparr>)
   }"

definition get_fault_trigger_address ::
  "ref \<Rightarrow> ('g, 'z) fault_list_state_scheme \<Rightarrow> u64 option" where
  "get_fault_trigger_address current s = do {
     f \<leftarrow> get_fault current s;
     Some (trig_address (f_trigger f))
   }"

definition set_fault_trigger_num ::
  "ref \<Rightarrow> u64 \<Rightarrow> ('g, 'z) fault_list_state_scheme \<Rightarrow> ('g, 'z) fault_list_state_scheme option" where
  "set_fault_trigger_num current num s = do {
     f \<leftarrow> get_fault current s;
     put_fault current (f\<lparr>f_trigger := (f_trigger f)\<lparr>trignum := num\<rparr>\<rparr>) s
   }"

text \<open>The search loop over the list: \<open>Some None\<close> is the final \<^verbatim>\<open>return NULL\<close>.\<close>

definition get_fault_struct_by_trigger ::
  "u64 \<Rightarrow> u64 \<Rightarrow> ('g, 'z) fault_list_state_scheme \<Rightarrow> ref option option" where
  "get_fault_struct_by_trigger fault_trigger_address fault_trigger_number s =
     seek fn_next (fault_heap s)
       (\<lambda>n. trig_address (f_trigger (fn_fault n)) = fault_trigger_address \<and>
            trignum (f_trigger (fn_fault n)) = fault_trigger_number)
       (first_fault s)"

section \<open>The list as a whole\<close>

text \<open>
  \<open>fault_refs s rs\<close>: the list consists of the nodes \<open>rs\<close>, all of them already allocated blocks.
\<close>

definition fault_refs :: "('g, 'z) fault_list_state_scheme \<Rightarrow> ref list \<Rightarrow> bool" where
  "fault_refs s rs \<longleftrightarrow>
     chain fn_next (fault_heap s) (first_fault s) rs \<and> below (fault_heap s) (mallocs s)"

lemma fault_refs_empty:
  "fault_heap s = Map.empty \<Longrightarrow> fault_refs (init_fault_list s) []"
  by (simp add: fault_refs_def init_fault_list_def)

lemma add_fault_refs:
  assumes "fault_refs s rs"
  shows "case add_fault e a ty mo lt m ta th nb s of
           (c, s') \<Rightarrow>
             if malloc_ok e (mallocs s)
             then c = 0 \<and> fault_refs s' (mallocs s # rs) \<and>
                  (\<forall>r \<in> set rs. get_fault r s' = get_fault r s) \<and>
                  get_fault (mallocs s) s' = Some
                    \<lparr>f_address = a, f_type = ty, f_model = mo, f_lifetime = lt, f_num_bytes = nb,
                     f_mask = map (\<lambda>i. m ! i) [0..<16], f_restoremask = replicate 16 0,
                     f_trigger = \<lparr>trig_address = ta, hitcounter = th,
                                  trignum = malloc_junk e (mallocs s) 0\<rparr>\<rparr>
             else c = -1 \<and> fault_refs s' rs \<and> fault_heap s' = fault_heap s"
proof (cases "malloc_ok e (mallocs s)")
  case True
  have "mallocs s \<notin> set rs" "fault_heap s (mallocs s) = None"
    using assms by (auto simp: fault_refs_def below_fresh dest: chain_below)
  with True assms show ?thesis
    by (auto simp: add_fault_def malloc_def fault_refs_def chain_frame get_fault_def below_new)
next
  case False
  with assms show ?thesis
    by (auto simp: add_fault_def malloc_def fault_refs_def elim: below_mono)
qed

lemma fault_refs_live: "fault_refs s rs \<Longrightarrow> r \<in> set rs \<Longrightarrow> \<exists>f. get_fault r s = Some f"
  by (auto simp: fault_refs_def get_fault_def dest: chain_liveD)

lemma fault_refs_distinct: "fault_refs s rs \<Longrightarrow> distinct rs"
  by (auto simp: fault_refs_def dest: chain_distinct)

lemma put_fault_Some:
  "get_fault r s = Some f \<Longrightarrow>
   \<exists>s'. put_fault r g s = Some s' \<and> get_fault r s' = Some g \<and>
        (\<forall>t. t \<noteq> r \<longrightarrow> get_fault t s' = get_fault t s)"
  by (auto simp: put_fault_def get_fault_def)

lemma put_fault_get:
  "put_fault r g s = Some s' \<Longrightarrow> get_fault t s' = (if t = r then Some g else get_fault t s)"
  by (auto simp: put_fault_def get_fault_def split: bind_splits)

lemma put_fault_frame [frame_simps]:
  assumes "put_fault r g s = Some s'"
  shows "guest s' = guest s" "mallocs s' = mallocs s" "cbs s' = cbs s"
    "req_singlestep s' = req_singlestep s" "first_fault s' = first_fault s"
    "fault_list_state.more s' = fault_list_state.more s"
    "dom (fault_heap s') = dom (fault_heap s)"
  using assms by (auto simp: put_fault_def insert_absorb split: bind_splits if_splits)

lemma put_fault_refs:
  assumes "put_fault r g s = Some s'"
  shows "fault_refs s' rs \<longleftrightarrow> fault_refs s rs"
proof -
  obtain n where n: "fault_heap s r = Some n" "fault_heap s' = (fault_heap s)(r \<mapsto> n\<lparr>fn_fault := g\<rparr>)"
    using assms by (auto simp: put_fault_def split: bind_splits)
  then show ?thesis
    unfolding fault_refs_def put_fault_frame [OF assms] by (auto simp: chain_same_next below_def)
qed

text \<open>Walking the list with \<^verbatim>\<open>return_next\<close> visits its nodes in order and ends with \<^verbatim>\<open>NULL\<close>.\<close>

lemma return_next_refs:
  "fault_refs s (xs @ r # ys) \<Longrightarrow>
   return_next (Some r) s = Some (case ys of [] \<Rightarrow> None | y # _ \<Rightarrow> Some y)"
  by (auto simp: fault_refs_def return_next_def dest!: chain_suffix
      split: list.splits option.splits)

lemma get_fault_struct_by_trigger_find:
  assumes "fault_refs s rs"
  shows "get_fault_struct_by_trigger a k s =
     Some (List.find (\<lambda>r. \<exists>f. get_fault r s = Some f \<and> trig_address (f_trigger f) = a \<and>
                            trignum (f_trigger f) = k) rs)"
proof -
  have ch: "chain fn_next (fault_heap s) (first_fault s) rs" using assms by (simp add: fault_refs_def)
  have "List.find (\<lambda>r. trig_address (f_trigger (fn_fault (the (fault_heap s r)))) = a \<and>
                       trignum (f_trigger (fn_fault (the (fault_heap s r)))) = k) rs =
        List.find (\<lambda>r. \<exists>f. get_fault r s = Some f \<and> trig_address (f_trigger f) = a \<and>
                            trignum (f_trigger f) = k) rs"
    using chain_liveD [OF ch] by (intro find_cong) (fastforce simp: get_fault_def)+
  then show ?thesis by (simp add: get_fault_struct_by_trigger_def seek_chain [OF ch])
qed

lemma delete_fault_queue_refs:
  "fault_refs s rs \<Longrightarrow>
   \<exists>s'. delete_fault_queue s = Some s' \<and> fault_refs s' [] \<and>
        fault_heap s' = fault_heap s |` (- set rs)"
  by (auto simp: fault_refs_def delete_fault_queue_def free_chain_frees below_restrict)

end
