(* ===== verification/Protobuf.thy ===== *)
theory Protobuf
  imports Machine
begin

text \<open>
  The messages exchanged with the Python front end, as the generated structs in
  \<^verbatim>\<open>faultplugin/protobuf/*.pb-c.h\<close> declare them (from \<^verbatim>\<open>protobuf/*.proto\<close>).  A counted array
  \<^verbatim>\<open>n_x\<close>, \<^verbatim>\<open>x\<close> is a list, a pointer to a submessage an option.  The byte encoding is generated
  code and the protobuf-c library; it is not modelled here.
\<close>

section \<open>\<^verbatim>\<open>data.pb-c.h\<close>: what the plugin sends\<close>

record tb_information_msg =
  ti_base_address :: u64
  ti_size :: u64
  ti_instruction_count :: u64
  ti_num_of_exec :: u64
  ti_assembler :: string

record tb_exec_order_msg =
  teo_tb_base_address :: u64
  teo_pos :: u64

record mem_info_msg =
  mi_ins_address :: u64
  mi_size :: u64
  mi_memmory_address :: u64
  mi_direction :: u32
  mi_counter :: u64

record mem_dump_info_msg =
  mdi_address :: u64
  mdi_len :: u64
  mdi_dumps :: "u8 list list"

record register_dump_msg =
  rdm_register_values :: "u64 list"
  rdm_pc :: u64
  rdm_tb_count :: u64

record register_info_msg =
  ri_register_dumps :: "register_dump_msg list"
  ri_arch_type :: u32

record faulted_data_msg =
  fd_trigger_address :: u64
  fd_assembler :: string

record mem_map_info_msg =
  mmi_address :: u64
  mmi_size :: u64

record data_msg =
  dm_architecture :: string
  dm_end_point :: int
  dm_end_reason :: string
  dm_tb_informations :: "tb_information_msg list"
  dm_tb_exec_orders :: "tb_exec_order_msg list"
  dm_mem_infos :: "mem_info_msg list"
  dm_register_info :: "register_info_msg option"
  dm_faulted_datas :: "faulted_data_msg list"
  dm_mem_dump_infos :: "mem_dump_info_msg list"
  dm_mem_map_infos :: "mem_map_info_msg list"

text \<open>\<^verbatim>\<open>ARCHIE__DATA__INIT\<close>\<close>

definition data_msg_init :: data_msg where
  "data_msg_init =
     \<lparr>dm_architecture = [], dm_end_point = 0, dm_end_reason = [], dm_tb_informations = [],
      dm_tb_exec_orders = [], dm_mem_infos = [], dm_register_info = None, dm_faulted_datas = [],
      dm_mem_dump_infos = [], dm_mem_map_infos = []\<rparr>"

section \<open>\<^verbatim>\<open>control.pb-c.h\<close>, \<^verbatim>\<open>fault.pb-c.h\<close>: what the plugin receives\<close>

record end_point_msg =
  ep_address :: u64
  ep_counter :: u64

record memory_dump_msg =
  mdm_address :: u64
  mdm_length :: u64

record control_msg =
  cm_max_duration :: u64
  cm_num_faults :: u64
  cm_tb_exec_list :: bool
  cm_tb_info :: bool
  cm_mem_info :: bool
  cm_start_address :: u64
  cm_start_counter :: u64
  cm_end_points :: "end_point_msg list"
  cm_tb_exec_list_ring_buffer :: bool
  cm_memorydumps :: "memory_dump_msg list"
  cm_has_start :: bool
  cm_memmap_dump :: bool
  cm_full_mem_dump :: bool

record fault_msg =
  fm_address :: u64
  fm_type :: u64
  fm_model :: u64
  fm_lifespan :: u64
  fm_trigger_address :: u64
  fm_trigger_hitcounter :: u64
  fm_mask_upper :: u64
  fm_mask_lower :: u64
  fm_num_bytes :: u32

end
