(* ===== verification/MemDump.thy ===== *)
theory MemDump
  imports FaultList Protobuf
begin

text \<open>
  \<^verbatim>\<open>faultplugin/faultdata.c\<close>: the memory regions to be dumped.  Each region keeps the snapshots
  taken of it so far; regions come from the configuration and from every memory fault that is
  injected.

  Counts of allocated blocks (\<^verbatim>\<open>num_memdump\<close>, \<^verbatim>\<open>used_memdump\<close>, \<^verbatim>\<open>num_dumps\<close>, \<^verbatim>\<open>used_dumps\<close>) are
  \<open>nat\<close>: each unit of them is a live block of the heap, so \<^verbatim>\<open>uint64_t\<close> cannot wrap.  The length of
  a region is the user's, and the loops that clear a buffer run an \<^verbatim>\<open>int\<close> index up to it, which
  overflows (undefined behaviour) from \<open>2 ^ 31\<close> on.
\<close>

section \<open>Data\<close>

record memorydump =
  md_address :: u64
  md_len :: u64
  md_num_dumps :: nat
  md_used_dumps :: nat
  md_buf :: "u8 list list option"

record 'g memdump_state = "'g fault_list_state" +
  memdump :: "memorydump option list option"
  num_memdump :: nat
  used_memdump :: nat

definition empty_memorydump :: memorydump where
  "empty_memorydump =
     \<lparr>md_address = 0, md_len = 0, md_num_dumps = 0, md_used_dumps = 0, md_buf = None\<rparr>"

section \<open>Operations\<close>

definition init_memory_module ::
  "('g, 'z) memdump_state_scheme \<Rightarrow> ('g, 'z) memdump_state_scheme" where
  "init_memory_module s = s\<lparr>memdump := None, num_memdump := 0, used_memdump := 0\<rparr>"

definition memory_module_configured :: "('g, 'z) memdump_state_scheme \<Rightarrow> int" where
  "memory_module_configured s = (if memdump s = None then 0 else 1)"

text \<open>
  Frees every buffer, buffer vector and region, then the vector; reading \<^verbatim>\<open>buf[j]\<close> for
  \<^verbatim>\<open>j < num_dumps\<close> must stay inside the buffer vector.
\<close>

definition delete_memory_dump ::
  "('g, 'z) memdump_state_scheme \<Rightarrow> ('g, 'z) memdump_state_scheme option" where
  "delete_memory_dump s =
     (case memdump s of
        None \<Rightarrow> Some s
      | Some v \<Rightarrow>
          if num_memdump s \<le> length v \<and>
             (\<forall>m \<in> set (take (num_memdump s) v).
                case m of None \<Rightarrow> True
                | Some m \<Rightarrow> (case md_buf m of None \<Rightarrow> True | Some b \<Rightarrow> md_num_dumps m \<le> length b))
          then Some (s\<lparr>memdump := None\<rparr>) else None)"

fun init_memory_fill ::
  "'g env \<Rightarrow> nat \<Rightarrow> nat \<Rightarrow> ('g, 'z) memdump_state_scheme \<Rightarrow> (int \<times> ('g, 'z) memdump_state_scheme) option"
where
  "init_memory_fill e i 0 s = Some (0, s)"
| "init_memory_fill e i (Suc k) s =
     (case malloc e s of
        (None, s) \<Rightarrow> do { s \<leftarrow> delete_memory_dump s; Some (-1, s) }
      | (Some _, s) \<Rightarrow> do {
          v \<leftarrow> memdump s;
          v \<leftarrow> arr_set v i (Some empty_memorydump);
          init_memory_fill e (Suc i) k (s\<lparr>memdump := Some v\<rparr>)
        })"

definition init_memory ::
  "'g env \<Rightarrow> nat \<Rightarrow> ('g, 'z) memdump_state_scheme \<Rightarrow> (int \<times> ('g, 'z) memdump_state_scheme) option" where
  "init_memory e number_of_regions s =
     (let s = s\<lparr>num_memdump := number_of_regions, used_memdump := 0, memdump := None\<rparr> in
      case malloc e s of
        (None, s) \<Rightarrow> Some (-1, s)
      | (Some _, s) \<Rightarrow>
          init_memory_fill e 0 number_of_regions (s\<lparr>memdump := Some (replicate number_of_regions None)\<rparr>))"

text \<open>A zeroed buffer of \<open>n\<close> bytes; \<open>None\<close> when writing it is undefined.\<close>

definition zero_buffer :: "ref option \<Rightarrow> u64 \<Rightarrow> u8 list option" where
  "zero_buffer p n =
     (if (p = None \<and> n \<noteq> 0) \<or> 2 ^ 31 \<le> unat n then None else Some (replicate (unat n) 0))"

text \<open>The vector is full: move it to one that is an element longer.\<close>

definition grow_memdump ::
  "'g env \<Rightarrow> ('g, 'z) memdump_state_scheme \<Rightarrow> (int \<times> ('g, 'z) memdump_state_scheme) option" where
  "grow_memdump e s =
     (case malloc e s of
        (None, s) \<Rightarrow> Some (-1, s)
      | (Some _, s) \<Rightarrow> do {
          v \<leftarrow> memdump s;
          if num_memdump s \<le> length v then
            (case malloc e s of
               (None, s) \<Rightarrow> None
             | (Some _, s) \<Rightarrow>
                 Some (0, s\<lparr>memdump := Some (take (num_memdump s) v @ [Some empty_memorydump]),
                           num_memdump := Suc (num_memdump s)\<rparr>))
          else None
        })"

definition insert_memorydump_config ::
  "'g env \<Rightarrow> u64 \<Rightarrow> u64 \<Rightarrow> ('g, 'z) memdump_state_scheme \<Rightarrow>
   (int \<times> ('g, 'z) memdump_state_scheme) option" where
  "insert_memorydump_config e baseaddress len s =
     (if memdump s = None then Some (-1, s)
      else do {
        (status, s) \<leftarrow> (if num_memdump s = used_memdump s then grow_memdump e s else Some (0, s));
        if status < 0 then Some (-1, s)
        else do {
          v \<leftarrow> memdump s;
          slot \<leftarrow> arr_get v (used_memdump s);
          tmp \<leftarrow> slot;
          let pos = used_memdump s;
          let s = s\<lparr>used_memdump := Suc (used_memdump s)\<rparr>;
          let tmp = tmp\<lparr>md_address := baseaddress, md_len := len, md_num_dumps := 1\<rparr>;
          (case malloc e s of
             (None, s) \<Rightarrow>
               Some (-1, s\<lparr>memdump :=
                 Some (v[pos := Some (tmp\<lparr>md_buf := None, md_address := 0\<rparr>)])\<rparr>)
           | (Some _, s) \<Rightarrow>
               (case malloc e s of
                  (p, s) \<Rightarrow> do {
                    zeros \<leftarrow> zero_buffer p len;
                    Some (1, s\<lparr>memdump := Some (v[pos := Some (tmp\<lparr>md_buf := Some [zeros]\<rparr>)])\<rparr>)
                  }))
        }
      })"

text \<open>All buffers are used: a vector with one more, zeroed.\<close>

definition grow_region ::
  "'g env \<Rightarrow> memorydump \<Rightarrow> ('g, 'z) memdump_state_scheme \<Rightarrow>
   (int \<times> memorydump \<times> ('g, 'z) memdump_state_scheme) option" where
  "grow_region e current s =
     (case malloc e s of
        (None, s) \<Rightarrow> Some (-1, current, s)
      | (Some _, s) \<Rightarrow> do {
          b \<leftarrow> (case md_buf current of
                 None \<Rightarrow> if md_num_dumps current = 0 then Some [] else None
               | Some b \<Rightarrow> if md_num_dumps current \<le> length b then Some b else None);
          (case malloc e s of
             (None, s) \<Rightarrow> Some (-1, current, s)
           | (p, s) \<Rightarrow> do {
               zeros \<leftarrow> zero_buffer p (md_len current);
               Some (0, current\<lparr>md_buf := Some (take (md_num_dumps current) b @ [zeros]),
                               md_num_dumps := Suc (md_num_dumps current)\<rparr>, s)
             })
        })"

definition read_memoryregion ::
  "'g env \<Rightarrow> nat \<Rightarrow> ('g, 'z) memdump_state_scheme \<Rightarrow> (int \<times> ('g, 'z) memdump_state_scheme) option" where
  "read_memoryregion e memorydump_position s = do {
     v \<leftarrow> memdump s;
     slot \<leftarrow> arr_get v memorydump_position;
     current \<leftarrow> slot;
     (status, current, s) \<leftarrow>
       (if md_num_dumps current = md_used_dumps current then grow_region e current s
        else Some (0, current, s));
     if status < 0 then Some (-1, s)
     else do {
       b \<leftarrow> md_buf current;
       buf \<leftarrow> arr_get b (md_used_dumps current);
       let (ret, bytes, g) = read_mem e (md_address current) (unat (md_len current)) (guest s);
       let current = current\<lparr>md_buf := Some (b[md_used_dumps current := bytes]),
                             md_used_dumps := Suc (md_used_dumps current)\<rparr>;
       Some (ret, s\<lparr>guest := g, memdump := Some (v[memorydump_position := Some current])\<rparr>)
     }
   }"

text \<open>The loops run \<^verbatim>\<open>i\<close> up to \<^verbatim>\<open>used_memdump\<close>, which their bodies do not change.\<close>

fun read_all_from ::
  "'g env \<Rightarrow> nat list \<Rightarrow> ('g, 'z) memdump_state_scheme \<Rightarrow> (int \<times> ('g, 'z) memdump_state_scheme) option"
where
  "read_all_from e [] s = Some (0, s)"
| "read_all_from e (i # is) s = do {
     (status, s) \<leftarrow> read_memoryregion e i s;
     if status \<noteq> 0 then Some (-1, s) else read_all_from e is s
   }"

definition read_all_memory ::
  "'g env \<Rightarrow> ('g, 'z) memdump_state_scheme \<Rightarrow> (int \<times> ('g, 'z) memdump_state_scheme) option" where
  "read_all_memory e s = read_all_from e [0..<used_memdump s] s"

fun read_specific_from ::
  "'g env \<Rightarrow> u64 \<Rightarrow> nat list \<Rightarrow> ('g, 'z) memdump_state_scheme \<Rightarrow> ('g, 'z) memdump_state_scheme option"
where
  "read_specific_from e baseaddress [] s = Some s"
| "read_specific_from e baseaddress (i # is) s = do {
     v \<leftarrow> memdump s;
     slot \<leftarrow> arr_get v i;
     current \<leftarrow> slot;
     (if md_address current = baseaddress
      then do {
        (_, s) \<leftarrow> read_memoryregion e i s;
        read_specific_from e baseaddress is s
      }
      else read_specific_from e baseaddress is s)
   }"

definition read_specific_memoryregion ::
  "'g env \<Rightarrow> u64 \<Rightarrow> ('g, 'z) memdump_state_scheme \<Rightarrow> ('g, 'z) memdump_state_scheme option" where
  "read_specific_memoryregion e baseaddress s =
     read_specific_from e baseaddress [0..<used_memdump s] s"

text \<open>
  The message for one region: its address and length and, for each snapshot taken, the \<^verbatim>\<open>len\<close>
  bytes of the buffer.  A failed allocation ends the process (\<open>Inl\<close>, the exit status).
\<close>

fun alloc_all ::
  "'g env \<Rightarrow> nat \<Rightarrow> ('g, 'z) machine_scheme \<Rightarrow> bool \<times> ('g, 'z) machine_scheme" where
  "alloc_all e 0 s = (True, s)"
| "alloc_all e (Suc n) s =
     (case malloc e s of (None, s) \<Rightarrow> (False, s) | (Some _, s) \<Rightarrow> alloc_all e n s)"

definition readout_memorydump ::
  "'g env \<Rightarrow> nat \<Rightarrow> ('g, 'z) memdump_state_scheme \<Rightarrow>
   ((int + mem_dump_info_msg) \<times> ('g, 'z) memdump_state_scheme) option" where
  "readout_memorydump e memorydump_position s = do {
     v \<leftarrow> memdump s;
     slot \<leftarrow> arr_get v memorydump_position;
     current \<leftarrow> slot;
     (case alloc_all e (Suc (md_used_dumps current)) s of
        (False, s) \<Rightarrow> Some (Inl 1, s)
      | (True, s) \<Rightarrow> do {
          dumps \<leftarrow> (case md_buf current of
                     None \<Rightarrow> if md_used_dumps current = 0 then Some [] else None
                   | Some b \<Rightarrow> if md_used_dumps current \<le> length b
                              then Some (map (take (unat (md_len current))) (take (md_used_dumps current) b))
                              else None);
          Some (Inr \<lparr>mdi_address = md_address current, mdi_len = md_len current,
                     mdi_dumps = dumps\<rparr>, s)
        })
   }"

fun readout_all_from ::
  "'g env \<Rightarrow> nat list \<Rightarrow> mem_dump_info_msg list \<Rightarrow> ('g, 'z) memdump_state_scheme \<Rightarrow>
   ((int + int \<times> mem_dump_info_msg list) \<times> ('g, 'z) memdump_state_scheme) option" where
  "readout_all_from e [] infos s = Some (Inr (0, infos), s)"
| "readout_all_from e (i # is) infos s =
     (case malloc e s of
        (None, s) \<Rightarrow> Some (Inr (-1, infos), s)
      | (Some _, s) \<Rightarrow> do {
          (info, s) \<leftarrow> readout_memorydump e i s;
          (case info of
             Inl code \<Rightarrow> Some (Inl code, s)
           | Inr info \<Rightarrow> readout_all_from e is (infos @ [info]) s)
        })"

text \<open>\<^verbatim>\<open>mem_dump_infos\<close> of the message is set only after the loop.\<close>

definition readout_all_memorydump ::
  "'g env \<Rightarrow> data_msg \<Rightarrow> ('g, 'z) memdump_state_scheme \<Rightarrow>
   ((int + int \<times> data_msg) \<times> ('g, 'z) memdump_state_scheme) option" where
  "readout_all_memorydump e msg s =
     (if used_memdump s = 0 then Some (Inr (0, msg), s)
      else
        (case malloc e s of
           (None, s) \<Rightarrow> Some (Inr (-1, msg), s)
         | (Some _, s) \<Rightarrow> do {
             (r, s) \<leftarrow> readout_all_from e [0..<used_memdump s] [] s;
             Some (case r of
                     Inl code \<Rightarrow> Inl code
                   | Inr (status, infos) \<Rightarrow>
                       Inr (status, if status = 0 then msg\<lparr>dm_mem_dump_infos := infos\<rparr> else msg), s)
           }))"

section \<open>Frame\<close>

text \<open>Everything but the fields of this module and the allocation counter is as before.\<close>

definition memdump_only ::
  "('g, 'z) memdump_state_scheme \<Rightarrow> ('g, 'z) memdump_state_scheme \<Rightarrow> bool" where
  "memdump_only s s' \<longleftrightarrow>
     (\<exists>k v n u. mallocs s \<le> k \<and>
        s' = s\<lparr>mallocs := k, memdump := v, num_memdump := n, used_memdump := u\<rparr>)"

lemma memdump_onlyI [intro]:
  "mallocs s \<le> k \<Longrightarrow>
   memdump_only s (s\<lparr>mallocs := k, memdump := v, num_memdump := n, used_memdump := u\<rparr>)"
  by (auto simp: memdump_only_def)

lemma memdump_only_refl [simp]: "memdump_only s s"
proof -
  have "s = s\<lparr>mallocs := mallocs s, memdump := memdump s, num_memdump := num_memdump s,
             used_memdump := used_memdump s\<rparr>" by simp
  then show ?thesis unfolding memdump_only_def by blast
qed

lemma memdump_only_trans:
  "memdump_only s t \<Longrightarrow> memdump_only t u \<Longrightarrow> memdump_only s u"
  unfolding memdump_only_def by (elim exE conjE) (simp, blast intro: le_trans)

lemma memdump_only_frame [frame_simps]:
  assumes "memdump_only s s'"
  shows "guest s' = guest s" "cbs s' = cbs s" "req_singlestep s' = req_singlestep s"
    "first_fault s' = first_fault s" "fault_heap s' = fault_heap s"
    "memdump_state.more s' = memdump_state.more s" "mallocs s \<le> mallocs s'"
  using assms by (auto simp: memdump_only_def)

section \<open>The regions and their snapshots\<close>

text \<open>A region as its clients see it: address, length, snapshots in the order taken.\<close>

type_synonym region_log = "u64 \<times> u64 \<times> u8 list list"

definition region_log :: "memorydump \<Rightarrow> region_log" where
  "region_log m = (md_address m, md_len m, take (md_used_dumps m) (the (md_buf m)))"

definition logs :: "('g, 'z) memdump_state_scheme \<Rightarrow> region_log list" where
  "logs s = map (\<lambda>m. region_log (the m)) (take (used_memdump s) (the (memdump s)))"

definition region_ok :: "memorydump \<Rightarrow> bool" where
  "region_ok m \<longleftrightarrow>
     (case md_buf m of
        None \<Rightarrow> False
      | Some b \<Rightarrow> length b = md_num_dumps m \<and> md_used_dumps m \<le> md_num_dumps m \<and>
                  (\<forall>x \<in> set b. length x = unat (md_len m)) \<and> unat (md_len m) < 2 ^ 31)"

definition memdump_ok :: "('g, 'z) memdump_state_scheme \<Rightarrow> bool" where
  "memdump_ok s \<longleftrightarrow>
     (case memdump s of
        None \<Rightarrow> False
      | Some v \<Rightarrow> length v = num_memdump s \<and> used_memdump s \<le> num_memdump s \<and> None \<notin> set v \<and>
                  (\<forall>i < used_memdump s. region_ok (the (v ! i))) \<and>
                  (\<forall>i < num_memdump s. used_memdump s \<le> i \<longrightarrow> the (v ! i) = empty_memorydump))"

lemma memdump_ok_get:
  "memdump_ok s \<Longrightarrow> i < used_memdump s \<Longrightarrow>
   \<exists>v m. memdump s = Some v \<and> i < length v \<and> v ! i = Some m \<and> region_ok m \<and> region_log m = logs s ! i"
proof -
  assume ok: "memdump_ok s" and i: "i < used_memdump s"
  then obtain v where v: "memdump s = Some v" "length v = num_memdump s" "None \<notin> set v"
    "used_memdump s \<le> num_memdump s" "\<forall>i < used_memdump s. region_ok (the (v ! i))"
    by (auto simp: memdump_ok_def split: option.splits)
  with i have "i < length v" by simp
  with v(3) have "v ! i \<noteq> None" by (metis nth_mem)
  then obtain m where "v ! i = Some m" by blast
  with v i show ?thesis by (auto simp: logs_def)
qed

lemma length_logs: "memdump_ok s \<Longrightarrow> length (logs s) = used_memdump s"
  by (auto simp: memdump_ok_def logs_def split: option.splits)

text \<open>Writing one region.\<close>

lemma memdump_ok_write:
  assumes "memdump_ok s" "memdump s = Some v" "i < used_memdump s" "region_ok m"
  shows "memdump_ok (s\<lparr>memdump := Some (v[i := Some m])\<rparr>)"
    and "logs (s\<lparr>memdump := Some (v[i := Some m])\<rparr>) = (logs s)[i := region_log m]"
proof -
  have v: "length v = num_memdump s" "used_memdump s \<le> num_memdump s" "None \<notin> set v"
    "\<forall>i < used_memdump s. region_ok (the (v ! i))"
    using assms by (auto simp: memdump_ok_def)
  have "\<forall>i < num_memdump s. used_memdump s \<le> i \<longrightarrow> the (v ! i) = empty_memorydump"
    using assms by (auto simp: memdump_ok_def)
  moreover have "None \<notin> set (v[i := Some m])" using v(3) by (rule no_NULL_update)
  ultimately show "memdump_ok (s\<lparr>memdump := Some (v[i := Some m])\<rparr>)"
    using v assms by (auto simp: memdump_ok_def nth_list_update)
  show "logs (s\<lparr>memdump := Some (v[i := Some m])\<rparr>) = (logs s)[i := region_log m]"
    using assms(2) by (simp add: logs_def take_update_swap map_update)
qed

section \<open>A configured region is appended\<close>

lemma plenty_zero_buffer:
  "unat n < 2 ^ 31 \<Longrightarrow> zero_buffer (Some p) n = Some (replicate (unat n) 0)"
  by (simp add: zero_buffer_def)

lemma take_snoc_update: "n = length xs \<Longrightarrow> (xs @ [x])[n := y] = xs @ [y]"
  by simp

text \<open>The slot the insertion fills: after growing, if the vector was full.\<close>

lemma insert_slot:
  assumes "plenty e" "memdump_ok s"
  shows "\<exists>s' v m. (if num_memdump s = used_memdump s then grow_memdump e s else Some (0, s)) = Some (0, s') \<and>
     memdump_only s s' \<and> memdump_ok s' \<and> logs s' = logs s \<and> used_memdump s' = used_memdump s \<and>
     memdump s' = Some v \<and> used_memdump s < length v \<and> v ! used_memdump s = Some m \<and>
     length v = num_memdump s' \<and> md_used_dumps m = 0"
proof -
  obtain v where v: "memdump s = Some v" "length v = num_memdump s" "None \<notin> set v"
    "used_memdump s \<le> num_memdump s" "\<forall>i < used_memdump s. region_ok (the (v ! i))"
    "\<forall>i < num_memdump s. used_memdump s \<le> i \<longrightarrow> the (v ! i) = empty_memorydump"
    using assms(2) by (auto simp: memdump_ok_def split: option.splits)
  show ?thesis
  proof (cases "num_memdump s = used_memdump s")
    case True
    let ?s' = "s\<lparr>mallocs := Suc (Suc (mallocs s)), memdump := Some (v @ [Some empty_memorydump]),
                num_memdump := Suc (num_memdump s)\<rparr>"
    have "memdump_only s (s\<lparr>mallocs := Suc (Suc (mallocs s)), memdump := Some (v @ [Some empty_memorydump]),
                num_memdump := Suc (num_memdump s), used_memdump := used_memdump s\<rparr>)"
      by (rule memdump_onlyI) simp
    moreover have "grow_memdump e s = Some (0, ?s')"
      using assms(1) v by (simp add: grow_memdump_def plenty_malloc)
    moreover have "memdump_ok ?s'"
      using v True by (auto simp: memdump_ok_def nth_append empty_memorydump_def)
    ultimately show ?thesis using True v
      by (intro exI [of _ ?s']) (auto simp: logs_def nth_append empty_memorydump_def)
  next
    case False
    with v have u: "used_memdump s < length v" by simp
    with v(3) have "v ! used_memdump s \<noteq> None" by (metis nth_mem)
    moreover have "the (v ! used_memdump s) = empty_memorydump" using v u by simp
    ultimately show ?thesis using v u False assms(2) by (auto simp: empty_memorydump_def)
  qed
qed

lemma insert_memorydump_config_logs:
  assumes "plenty e" "memdump_ok s" "unat len < 2 ^ 31"
  shows "\<exists>s'. insert_memorydump_config e base len s = Some (1, s') \<and> memdump_only s s' \<and>
             memdump_ok s' \<and> logs s' = logs s @ [(base, len, [])]"
proof -
  obtain t v m where t: "(if num_memdump s = used_memdump s then grow_memdump e s else Some (0, s)) = Some (0, t)"
    "memdump_only s t" "memdump_ok t" "logs t = logs s" "used_memdump t = used_memdump s"
    "memdump t = Some v" "used_memdump s < length v" "v ! used_memdump s = Some m"
    "length v = num_memdump t" "md_used_dumps m = 0"
    using insert_slot [OF assms(1,2)] by blast
  have some: "memdump s \<noteq> None" using assms(2) by (auto simp: memdump_ok_def split: option.splits)
  let ?m = "m\<lparr>md_address := base, md_len := len, md_num_dumps := 1,
              md_buf := Some [replicate (unat len) 0]\<rparr>"
  let ?s' = "t\<lparr>mallocs := Suc (Suc (mallocs t)), memdump := Some (v[used_memdump t := Some ?m]),
              used_memdump := Suc (used_memdump t)\<rparr>"
  have ins: "insert_memorydump_config e base len s = Some (1, ?s')"
    using some t(1,5-8) assms(1,3)
    by (simp add: insert_memorydump_config_def plenty_malloc plenty_zero_buffer Let_def)
  have "memdump_only t (t\<lparr>mallocs := Suc (Suc (mallocs t)),
      memdump := Some (v[used_memdump t := Some ?m]), num_memdump := num_memdump t,
      used_memdump := Suc (used_memdump t)\<rparr>)"
    by (rule memdump_onlyI) simp
  then have "memdump_only s ?s'" using memdump_only_trans [OF t(2)] by simp
  moreover have "memdump_ok ?s'"
  proof -
    have "region_ok ?m" using assms(3) t(10) by (simp add: region_ok_def)
    moreover have "None \<notin> set (v[used_memdump t := Some ?m])"
      using t(3,6) by (intro no_NULL_update) (simp add: memdump_ok_def)
    moreover have "\<forall>i < used_memdump t. region_ok (the (v ! i))"
      "\<forall>i < num_memdump t. used_memdump t \<le> i \<longrightarrow> the (v ! i) = empty_memorydump"
      using t(3,6) by (simp_all add: memdump_ok_def)
    moreover have u: "used_memdump t < length v" using t(5,7) by simp
    ultimately have "\<forall>i < Suc (used_memdump t). region_ok (the (v[used_memdump t := Some ?m] ! i))"
      and "\<forall>i < num_memdump t. Suc (used_memdump t) \<le> i \<longrightarrow>
             the (v[used_memdump t := Some ?m] ! i) = empty_memorydump"
      and "None \<notin> set (v[used_memdump t := Some ?m])"
      by (simp_all add: nth_list_update less_Suc_eq)
    then show ?thesis using u t(9) by (simp add: memdump_ok_def)
  qed
  moreover have "logs ?s' = logs s @ [(base, len, [])]"
  proof -
    have "logs ?s' = map (\<lambda>m. region_log (the m)) (take (Suc (used_memdump s)) (v[used_memdump s := Some ?m]))"
      using t(5) by (simp add: logs_def)
    also have "\<dots> = map (\<lambda>m. region_log (the m)) (take (used_memdump s) v) @ [(base, len, [])]"
      using t(7,10) by (simp add: take_Suc_conv_app_nth region_log_def)
    finally show ?thesis using t(4,5,6) by (simp add: logs_def)
  qed
  ultimately show ?thesis using ins by blast
qed

section \<open>A snapshot is added to its region\<close>

lemma region_ok_grow:
  assumes "plenty e" "region_ok m"
  shows "\<exists>s' m' b. (if md_num_dumps m = md_used_dumps m then grow_region e m s else Some (0, m, s)) =
             Some (0, m', s') \<and>
     memdump_only s s' \<and> memdump s' = memdump s \<and> num_memdump s' = num_memdump s \<and>
     used_memdump s' = used_memdump s \<and> region_ok m' \<and> region_log m' = region_log m \<and>
     md_buf m' = Some b \<and> md_used_dumps m' < length b \<and>
     md_address m' = md_address m \<and> md_len m' = md_len m"
proof -
  obtain b where b: "md_buf m = Some b" "length b = md_num_dumps m"
    "md_used_dumps m \<le> md_num_dumps m" "\<forall>x \<in> set b. length x = unat (md_len m)"
    "unat (md_len m) < 2 ^ 31"
    using assms(2) by (auto simp: region_ok_def split: option.splits)
  show ?thesis
  proof (cases "md_num_dumps m = md_used_dumps m")
    case True
    let ?m' = "m\<lparr>md_buf := Some (b @ [replicate (unat (md_len m)) 0]),
                 md_num_dumps := Suc (md_num_dumps m)\<rparr>"
    have "memdump_only s (s\<lparr>mallocs := Suc (Suc (mallocs s)), memdump := memdump s,
        num_memdump := num_memdump s, used_memdump := used_memdump s\<rparr>)"
      by (rule memdump_onlyI) simp
    then have "memdump_only s (s\<lparr>mallocs := Suc (Suc (mallocs s))\<rparr>)" by simp
    moreover have "grow_region e m s = Some (0, ?m', s\<lparr>mallocs := Suc (Suc (mallocs s))\<rparr>)"
      using assms(1) b by (simp add: grow_region_def plenty_malloc plenty_zero_buffer)
    moreover have "region_ok ?m'" "region_log ?m' = region_log m"
      using b True by (auto simp: region_ok_def region_log_def)
    ultimately show ?thesis using True b by (intro exI) auto
  next
    case False
    with b assms(2) show ?thesis by (intro exI) auto
  qed
qed

lemma memdump_ok_same:
  "memdump s' = memdump s \<Longrightarrow> num_memdump s' = num_memdump s \<Longrightarrow> used_memdump s' = used_memdump s \<Longrightarrow>
   (memdump_ok s' \<longleftrightarrow> memdump_ok s) \<and> logs s' = logs s"
  by (cases "memdump s") (simp_all add: memdump_ok_def logs_def)

lemma region_log_snapshot:
  assumes "region_ok m" "md_buf m = Some b" "md_used_dumps m < length b" "length bs = unat (md_len m)"
  defines "m' \<equiv> m\<lparr>md_buf := Some (b[md_used_dumps m := bs]), md_used_dumps := Suc (md_used_dumps m)\<rparr>"
  shows "region_ok m'" and "region_log m' = (md_address m, md_len m, snd (snd (region_log m)) @ [bs])"
proof -
  have "\<forall>x \<in> set (b[md_used_dumps m := bs]). length x = unat (md_len m)"
    using assms(1,2,4) set_update_subset_insert [of b "md_used_dumps m" bs]
    by (auto simp: region_ok_def)
  then show "region_ok m'" using assms(1-3) by (simp add: region_ok_def m'_def)
  show "region_log m' = (md_address m, md_len m, snd (snd (region_log m)) @ [bs])"
    using assms(2,3) by (simp add: region_log_def m'_def take_Suc_conv_app_nth)
qed

lemma read_memoryregion_logs:
  assumes "plenty e" "memdump_ok s" "i < used_memdump s" "logs s ! i = (a, l, ds)"
    and "ram e byte A" "block a (unat l) \<subseteq> A"
  shows "\<exists>s'. read_memoryregion e i s = Some (0, s') \<and> memdump_only s s' \<and> memdump_ok s' \<and>
     used_memdump s' = used_memdump s \<and>
     logs s' = (logs s)[i := (a, l, ds @ [get_bytes a (unat l) (byte (guest s))])]"
proof -
  obtain v m where v: "memdump s = Some v" "i < length v" "v ! i = Some m" "region_ok m"
    "region_log m = (a, l, ds)"
    using memdump_ok_get [OF assms(2,3)] assms(4) by auto
  obtain t m' b where t: "(if md_num_dumps m = md_used_dumps m then grow_region e m s else Some (0, m, s)) =
             Some (0, m', t)"
    "memdump_only s t" "memdump t = memdump s" "num_memdump t = num_memdump s"
    "used_memdump t = used_memdump s" "region_ok m'" "region_log m' = region_log m"
    "md_buf m' = Some b" "md_used_dumps m' < length b"
    "md_address m' = md_address m" "md_len m' = md_len m"
    using region_ok_grow [OF assms(1) v(4)] by blast
  have al: "md_address m' = a" "md_len m' = l" "snd (snd (region_log m')) = ds"
    using v(5) t(7,10,11) by (simp_all add: region_log_def)
  let ?bs = "get_bytes a (unat l) (byte (guest s))"
  let ?m' = "m'\<lparr>md_buf := Some (b[md_used_dumps m' := ?bs]), md_used_dumps := Suc (md_used_dumps m')\<rparr>"
  let ?s' = "t\<lparr>memdump := Some (v[i := Some ?m'])\<rparr>"
  have g: "guest t = guest s" using t(2) by (rule memdump_only_frame)
  have "read_memoryregion e i s = Some (0, t\<lparr>guest := guest t, memdump := Some (v[i := Some ?m'])\<rparr>)"
    using v(1-3) t(1,8,9) al(1,2) ram_read [OF assms(5,6), of "guest t"] g
    by (simp add: read_memoryregion_def)
  moreover have "t\<lparr>guest := guest t, memdump := Some (v[i := Some ?m'])\<rparr> = ?s'" by simp
  moreover have "memdump_only t (t\<lparr>mallocs := mallocs t, memdump := Some (v[i := Some ?m']),
      num_memdump := num_memdump t, used_memdump := used_memdump t\<rparr>)"
    by (rule memdump_onlyI) simp
  then have "memdump_only s ?s'" using memdump_only_trans [OF t(2)] by simp
  moreover have ok: "region_ok ?m'" "region_log ?m' = (a, l, ds @ [?bs])"
    using region_log_snapshot [OF t(6,8,9), of ?bs] al by simp_all
  have "memdump_ok t" "logs t = logs s" using assms(2) memdump_ok_same [OF t(3-5)] by simp_all
  then have "memdump_ok ?s'" "logs ?s' = (logs s)[i := (a, l, ds @ [?bs])]"
    using memdump_ok_write [of t v i ?m'] ok v(1) t(3,5) assms(3) by simp_all
  ultimately show ?thesis using t(5) by (intro exI [of _ ?s']) simp
qed


text \<open>A snapshot of a region: the bytes the guest's memory holds now, after the earlier ones.\<close>

fun snapshot :: "('g \<Rightarrow> u64 \<Rightarrow> u8) \<Rightarrow> 'g \<Rightarrow> region_log \<Rightarrow> region_log" where
  "snapshot byte g (a, l, ds) = (a, l, ds @ [get_bytes a (unat l) (byte g)])"

text \<open>All regions lie in \<open>A\<close>.\<close>

definition regions_in :: "u64 set \<Rightarrow> region_log list \<Rightarrow> bool" where
  "regions_in A ls \<longleftrightarrow> (\<forall>(a, l, ds) \<in> set ls. block a (unat l) \<subseteq> A)"

lemma regions_in_nth: "regions_in A ls \<Longrightarrow> i < length ls \<Longrightarrow> block (fst (ls ! i)) (unat (fst (snd (ls ! i)))) \<subseteq> A"
  unfolding regions_in_def by (drule bspec, erule nth_mem) (simp add: case_prod_unfold)

lemma regions_in_update:
  "regions_in A ls \<Longrightarrow> regions_in A (ls[i := snapshot byte g (ls ! i)])"
proof (cases "i < length ls")
  case True
  assume r: "regions_in A ls"
  obtain a l ds where i: "ls ! i = (a, l, ds)" by (cases "ls ! i")
  with r True have "block a (unat l) \<subseteq> A" using regions_in_nth [OF r True] by simp
  with r i show ?thesis
    unfolding regions_in_def
    by (intro ballI) (use set_update_subset_insert [of ls i] in \<open>fastforce\<close>)
qed (simp add: list_update_beyond)

lemma read_memoryregion_snapshot:
  assumes "plenty e" "memdump_ok s" "i < used_memdump s" "ram e byte A" "regions_in A (logs s)"
  shows "\<exists>s'. read_memoryregion e i s = Some (0, s') \<and> memdump_only s s' \<and> memdump_ok s' \<and>
     used_memdump s' = used_memdump s \<and> logs s' = (logs s)[i := snapshot byte (guest s) (logs s ! i)]"
proof -
  obtain a l ds where i: "logs s ! i = (a, l, ds)" by (cases "logs s ! i")
  have "i < length (logs s)" using assms(2,3) by (simp add: length_logs)
  then have "block a (unat l) \<subseteq> A" using regions_in_nth [OF assms(5)] i by fastforce
  then show ?thesis using read_memoryregion_logs [OF assms(1-3) i assms(4)] i by simp
qed

text \<open>The regions whose index is in the list get a snapshot, the others stay.\<close>

lemma read_all_from_logs:
  assumes "plenty e" "ram e byte A"
  shows "memdump_ok s \<Longrightarrow> regions_in A (logs s) \<Longrightarrow> set is \<subseteq> {..<used_memdump s} \<Longrightarrow> distinct is \<Longrightarrow>
    \<exists>s'. read_all_from e is s = Some (0, s') \<and> memdump_only s s' \<and> memdump_ok s' \<and>
      used_memdump s' = used_memdump s \<and>
      (\<forall>j < used_memdump s. logs s' ! j = (if j \<in> set is then snapshot byte (guest s) (logs s ! j) else logs s ! j))"
proof (induction "is" arbitrary: s)
  case Nil
  then show ?case by simp
next
  case (Cons i "is")
  then have i: "i < used_memdump s" by simp
  obtain t where t: "read_memoryregion e i s = Some (0, t)" "memdump_only s t" "memdump_ok t"
    "used_memdump t = used_memdump s" "logs t = (logs s)[i := snapshot byte (guest s) (logs s ! i)]"
    using read_memoryregion_snapshot [OF assms(1) Cons.prems(1) i assms(2) Cons.prems(2)] by blast
  have "regions_in A (logs t)" unfolding t(5) by (rule regions_in_update [OF Cons.prems(2)])
  then obtain u where u: "read_all_from e is t = Some (0, u)" "memdump_only t u" "memdump_ok u"
    "used_memdump u = used_memdump t"
    "\<forall>j < used_memdump t. logs u ! j = (if j \<in> set is then snapshot byte (guest t) (logs t ! j) else logs t ! j)"
    using Cons.IH [OF t(3)] Cons.prems(3,4) t(4) by auto
  have g: "guest t = guest s" by (rule memdump_only_frame [OF t(2)])
  have l: "length (logs s) = used_memdump s" using Cons.prems(1) by (rule length_logs)
  have "\<forall>j < used_memdump s. logs u ! j = (if j \<in> set (i # is) then snapshot byte (guest s) (logs s ! j) else logs s ! j)"
    using u(5) t(4,5) g l Cons.prems(4) i by (simp add: nth_list_update)
  moreover have "memdump_only s u" using t(2) u(2) by (rule memdump_only_trans)
  ultimately show ?case using t u by (intro exI [of _ u]) simp
qed

lemma read_all_memory_logs:
  assumes "plenty e" "ram e byte A" "memdump_ok s" "regions_in A (logs s)"
  shows "\<exists>s'. read_all_memory e s = Some (0, s') \<and> memdump_only s s' \<and> memdump_ok s' \<and>
    logs s' = map (snapshot byte (guest s)) (logs s)"
proof -
  obtain s' where s': "read_all_memory e s = Some (0, s')" "memdump_only s s'" "memdump_ok s'"
    "used_memdump s' = used_memdump s"
    "\<forall>j < used_memdump s. logs s' ! j = snapshot byte (guest s) (logs s ! j)"
    using read_all_from_logs [OF assms, of "[0..<used_memdump s]"]
    by (auto simp: read_all_memory_def lessThan_atLeast0)
  have "logs s' = map (snapshot byte (guest s)) (logs s)"
    by (rule nth_equalityI) (use s' assms(3) in \<open>simp_all add: length_logs\<close>)
  with s' show ?thesis by blast
qed

lemma fst_snapshot [simp]: "fst (snapshot byte g r) = fst r"
  by (cases r) simp

lemma read_specific_from_logs:
  assumes "plenty e" "ram e byte A"
  shows "memdump_ok s \<Longrightarrow> regions_in A (logs s) \<Longrightarrow> set is \<subseteq> {..<used_memdump s} \<Longrightarrow> distinct is \<Longrightarrow>
    \<exists>s'. read_specific_from e base is s = Some s' \<and> memdump_only s s' \<and> memdump_ok s' \<and>
      used_memdump s' = used_memdump s \<and>
      (\<forall>j < used_memdump s. logs s' ! j =
         (if j \<in> set is \<and> fst (logs s ! j) = base then snapshot byte (guest s) (logs s ! j) else logs s ! j))"
proof (induction "is" arbitrary: s)
  case Nil
  then show ?case by simp
next
  case (Cons i "is")
  then have i: "i < used_memdump s" by simp
  have l: "length (logs s) = used_memdump s" using Cons.prems(1) by (rule length_logs)
  obtain v m where v: "memdump s = Some v" "i < length v" "v ! i = Some m" "region_log m = logs s ! i"
    using memdump_ok_get [OF Cons.prems(1) i] by blast
  then have a: "md_address m = fst (logs s ! i)" by (metis fst_conv region_log_def)
  show ?case
  proof (cases "fst (logs s ! i) = base")
    case True
    obtain t where t: "read_memoryregion e i s = Some (0, t)" "memdump_only s t" "memdump_ok t"
      "used_memdump t = used_memdump s" "logs t = (logs s)[i := snapshot byte (guest s) (logs s ! i)]"
      using read_memoryregion_snapshot [OF assms(1) Cons.prems(1) i assms(2) Cons.prems(2)] by blast
    have "regions_in A (logs t)" unfolding t(5) by (rule regions_in_update [OF Cons.prems(2)])
    then obtain u where u: "read_specific_from e base is t = Some u" "memdump_only t u" "memdump_ok u"
      "used_memdump u = used_memdump t"
      "\<forall>j < used_memdump t. logs u ! j =
         (if j \<in> set is \<and> fst (logs t ! j) = base then snapshot byte (guest t) (logs t ! j) else logs t ! j)"
      using Cons.IH [OF t(3)] Cons.prems(3,4) t(4) by auto
    have g: "guest t = guest s" by (rule memdump_only_frame [OF t(2)])
    have "\<forall>j < used_memdump s. logs u ! j =
        (if j \<in> set (i # is) \<and> fst (logs s ! j) = base then snapshot byte (guest s) (logs s ! j) else logs s ! j)"
    proof (intro allI impI)
      fix j assume j: "j < used_memdump s"
      then have "logs t ! j = (if j = i then snapshot byte (guest s) (logs s ! i) else logs s ! j)"
        using t(5) l by (simp add: nth_list_update)
      then show "logs u ! j = (if j \<in> set (i # is) \<and> fst (logs s ! j) = base
          then snapshot byte (guest s) (logs s ! j) else logs s ! j)"
        using u(5) t(4) g j Cons.prems(4) True by auto
    qed
    moreover have "memdump_only s u" using t(2) u(2) by (rule memdump_only_trans)
    ultimately show ?thesis using t u v a True by (intro exI [of _ u]) simp
  next
    case False
    obtain u where u: "read_specific_from e base is s = Some u" "memdump_only s u" "memdump_ok u"
      "used_memdump u = used_memdump s"
      "\<forall>j < used_memdump s. logs u ! j =
         (if j \<in> set is \<and> fst (logs s ! j) = base then snapshot byte (guest s) (logs s ! j) else logs s ! j)"
      using Cons.IH [OF Cons.prems(1,2)] Cons.prems(3,4) by auto
    then show ?thesis using v a False by (intro exI [of _ u]) auto
  qed
qed

lemma read_specific_memoryregion_logs:
  assumes "plenty e" "ram e byte A" "memdump_ok s" "regions_in A (logs s)"
  shows "\<exists>s'. read_specific_memoryregion e base s = Some s' \<and> memdump_only s s' \<and> memdump_ok s' \<and>
    logs s' = map (\<lambda>r. if fst r = base then snapshot byte (guest s) r else r) (logs s)"
proof -
  obtain s' where s': "read_specific_memoryregion e base s = Some s'" "memdump_only s s'" "memdump_ok s'"
    "used_memdump s' = used_memdump s"
    "\<forall>j < used_memdump s. logs s' ! j =
       (if fst (logs s ! j) = base then snapshot byte (guest s) (logs s ! j) else logs s ! j)"
    using read_specific_from_logs [OF assms, of "[0..<used_memdump s]" base]
    by (auto simp: read_specific_memoryregion_def lessThan_atLeast0)
  have "logs s' = map (\<lambda>r. if fst r = base then snapshot byte (guest s) r else r) (logs s)"
    by (rule nth_equalityI) (use s' assms(3) in \<open>simp_all add: length_logs\<close>)
  with s' show ?thesis by blast
qed

section \<open>The readout sends the snapshots\<close>

fun dump_message :: "region_log \<Rightarrow> mem_dump_info_msg" where
  "dump_message (a, l, ds) = \<lparr>mdi_address = a, mdi_len = l, mdi_dumps = ds\<rparr>"

lemma alloc_all_plenty:
  "plenty e \<Longrightarrow> alloc_all e n s = (True, s\<lparr>mallocs := mallocs s + n\<rparr>)"
  by (induction n arbitrary: s) (simp_all add: plenty_malloc)

lemma readout_memorydump_message:
  assumes "plenty e" "memdump_ok s" "i < used_memdump s"
  shows "\<exists>k. mallocs s \<le> k \<and> readout_memorydump e i s =
           Some (Inr (dump_message (logs s ! i)), s\<lparr>mallocs := k\<rparr>)"
proof -
  obtain v m where v: "memdump s = Some v" "i < length v" "v ! i = Some m" "region_ok m"
    "region_log m = logs s ! i"
    using memdump_ok_get [OF assms(2,3)] by blast
  obtain b where b: "md_buf m = Some b" "length b = md_num_dumps m" "md_used_dumps m \<le> md_num_dumps m"
    "\<forall>x \<in> set b. length x = unat (md_len m)"
    using v(4) by (auto simp: region_ok_def split: option.splits)
  have "map (take (unat (md_len m))) (take (md_used_dumps m) b) = take (md_used_dumps m) b"
    using b(4) by (auto intro!: map_idI dest: in_set_takeD)
  moreover have "dump_message (logs s ! i) =
      \<lparr>mdi_address = md_address m, mdi_len = md_len m, mdi_dumps = take (md_used_dumps m) b\<rparr>"
    using v(5) b(1) by (simp add: region_log_def flip: v(5))
  ultimately have "readout_memorydump e i s =
      Some (Inr (dump_message (logs s ! i)), s\<lparr>mallocs := mallocs s + Suc (md_used_dumps m)\<rparr>)"
    using v(1-3) b(1-3) assms(1)
    by (simp add: readout_memorydump_def alloc_all_plenty del: alloc_all.simps)
  then show ?thesis by (intro exI [of _ "mallocs s + Suc (md_used_dumps m)"]) simp
qed

lemma memdump_ok_mallocs:
  "memdump_ok (s\<lparr>mallocs := k\<rparr>) \<longleftrightarrow> memdump_ok s" "logs (s\<lparr>mallocs := k\<rparr>) = logs s"
  using memdump_ok_same [of "s\<lparr>mallocs := k\<rparr>" s] by simp_all

lemma readout_all_from_messages:
  assumes "plenty e"
  shows "memdump_ok s \<Longrightarrow> set is \<subseteq> {..<used_memdump s} \<Longrightarrow>
    \<exists>k. mallocs s \<le> k \<and> readout_all_from e is infos s =
      Some (Inr (0, infos @ map (\<lambda>i. dump_message (logs s ! i)) is), s\<lparr>mallocs := k\<rparr>)"
proof (induction "is" arbitrary: infos s)
  case Nil
  then show ?case by (intro exI [of _ "mallocs s"]) simp
next
  case (Cons i "is")
  let ?t = "s\<lparr>mallocs := Suc (mallocs s)\<rparr>"
  have ok: "memdump_ok ?t" "logs ?t = logs s" using Cons.prems(1) by (simp_all add: memdump_ok_mallocs)
  then obtain k where k: "Suc (mallocs s) \<le> k"
    "readout_memorydump e i ?t = Some (Inr (dump_message (logs s ! i)), s\<lparr>mallocs := k\<rparr>)"
    using readout_memorydump_message [OF assms ok(1), of i] Cons.prems(2) by auto
  obtain k' where "k \<le> k'" "readout_all_from e is (infos @ [dump_message (logs s ! i)]) (s\<lparr>mallocs := k\<rparr>) =
      Some (Inr (0, (infos @ [dump_message (logs s ! i)]) @ map (\<lambda>i. dump_message (logs s ! i)) is),
            s\<lparr>mallocs := k'\<rparr>)"
    using Cons.IH [of "s\<lparr>mallocs := k\<rparr>" "infos @ [dump_message (logs s ! i)]"] Cons.prems
    by (auto simp: memdump_ok_mallocs)
  with k show ?case using assms by (intro exI [of _ k']) (simp add: plenty_malloc)
qed

lemma readout_all_memorydump_messages:
  assumes "plenty e" "memdump_ok s"
  shows "\<exists>k. mallocs s \<le> k \<and> readout_all_memorydump e msg s =
    Some (Inr (0, if used_memdump s = 0 then msg
                  else msg\<lparr>dm_mem_dump_infos := map dump_message (logs s)\<rparr>), s\<lparr>mallocs := k\<rparr>)"
proof (cases "used_memdump s = 0")
  case True
  then show ?thesis by (intro exI [of _ "mallocs s"]) (simp add: readout_all_memorydump_def)
next
  case False
  let ?t = "s\<lparr>mallocs := Suc (mallocs s)\<rparr>"
  have ok: "memdump_ok ?t" "logs ?t = logs s" using assms(2) by (simp_all add: memdump_ok_mallocs)
  obtain k where k: "Suc (mallocs s) \<le> k" "readout_all_from e [0..<used_memdump s] [] ?t =
      Some (Inr (0, map (\<lambda>i. dump_message (logs s ! i)) [0..<used_memdump s]), s\<lparr>mallocs := k\<rparr>)"
    using readout_all_from_messages [OF assms(1) ok(1), of "[0..<used_memdump s]" "[]"] ok(2)
    by (auto simp: lessThan_atLeast0)
  have "map (\<lambda>i. dump_message (logs s ! i)) [0..<used_memdump s] = map dump_message (logs s)"
    using length_logs [OF assms(2)] by (intro nth_equalityI) simp_all
  with k False show ?thesis using assms(1)
    by (intro exI [of _ k]) (simp add: readout_all_memorydump_def plenty_malloc)
qed


section \<open>Start and end\<close>

lemma init_memory_fill_slots:
  assumes "plenty e"
  shows "memdump s = Some (replicate i (Some empty_memorydump) @ replicate k None) \<Longrightarrow>
    init_memory_fill e i k s =
      Some (0, s\<lparr>mallocs := mallocs s + k, memdump := Some (replicate (i + k) (Some empty_memorydump))\<rparr>)"
proof (induction k arbitrary: i s)
  case 0
  then show ?case by simp
next
  case (Suc k)
  have "(replicate i (Some empty_memorydump) @ replicate (Suc k) None)[i := Some empty_memorydump] =
      replicate (Suc i) (Some empty_memorydump) @ replicate k None"
    by (simp add: list_update_append replicate_app_Cons_same)
  with Suc assms show ?case by (simp add: plenty_malloc)
qed

lemma init_memory_logs:
  assumes "plenty e"
  shows "\<exists>s'. init_memory e n s = Some (0, s') \<and> memdump_only s s' \<and> memdump_ok s' \<and> logs s' = []"
proof -
  let ?s' = "s\<lparr>mallocs := Suc (mallocs s) + n, memdump := Some (replicate n (Some empty_memorydump)),
              num_memdump := n, used_memdump := 0\<rparr>"
  have "init_memory e n s = Some (0, ?s')"
    using assms by (simp add: init_memory_def plenty_malloc init_memory_fill_slots)
  moreover have "memdump_only s ?s'" by (rule memdump_onlyI) simp
  ultimately show ?thesis
    by (intro exI [of _ ?s']) (simp add: memdump_ok_def logs_def empty_memorydump_def)
qed

lemma delete_memory_dump_ok:
  assumes "memdump_ok s"
  shows "delete_memory_dump s = Some (s\<lparr>memdump := None\<rparr>)"
proof -
  obtain v where v: "memdump s = Some v" "length v = num_memdump s" "None \<notin> set v"
    "\<forall>i < used_memdump s. region_ok (the (v ! i))"
    "\<forall>i < num_memdump s. used_memdump s \<le> i \<longrightarrow> the (v ! i) = empty_memorydump"
    using assms by (auto simp: memdump_ok_def split: option.splits)
  have "case m of None \<Rightarrow> True
      | Some m \<Rightarrow> (case md_buf m of None \<Rightarrow> True | Some b \<Rightarrow> md_num_dumps m \<le> length b)" if m: "m \<in> set v" for m
  proof -
    obtain i where i: "i < num_memdump s" "v ! i = m" using m v(2) by (auto simp: in_set_conv_nth)
    show ?thesis
    proof (cases "i < used_memdump s")
      case True
      then show ?thesis using v(4) i(2) by (fastforce simp: region_ok_def split: option.splits)
    next
      case False
      then have "the m = empty_memorydump" using v(5) i by auto
      then show ?thesis by (auto simp: empty_memorydump_def split: option.split)
    qed
  qed
  with v(1,2) show ?thesis by (simp add: delete_memory_dump_def)
qed

section \<open>The module against its specification\<close>

text \<open>
  What the clients of the module do, in any order: configure a region, dump all regions, dump the
  regions at an address, and let the guest run.
\<close>

datatype 'g memdump_op =
  Configure u64 u64 | Dump_all | Dump_specific u64 | Guest_runs 'g

fun run_memdump ::
  "'g env \<Rightarrow> 'g memdump_op list \<Rightarrow> ('g, 'z) memdump_state_scheme \<Rightarrow> ('g, 'z) memdump_state_scheme option"
where
  "run_memdump e [] s = Some s"
| "run_memdump e (Configure a l # ops) s = do {
     (status, s) \<leftarrow> insert_memorydump_config e a l s;
     run_memdump e ops s
   }"
| "run_memdump e (Dump_all # ops) s = do {
     (status, s) \<leftarrow> read_all_memory e s;
     run_memdump e ops s
   }"
| "run_memdump e (Dump_specific a # ops) s = do {
     s \<leftarrow> read_specific_memoryregion e a s;
     run_memdump e ops s
   }"
| "run_memdump e (Guest_runs g # ops) s = run_memdump e ops (s\<lparr>guest := g\<rparr>)"

text \<open>The same on the logs alone.\<close>

fun run_logs ::
  "('g \<Rightarrow> u64 \<Rightarrow> u8) \<Rightarrow> 'g memdump_op list \<Rightarrow> 'g \<Rightarrow> region_log list \<Rightarrow> region_log list" where
  "run_logs byte [] g ls = ls"
| "run_logs byte (Configure a l # ops) g ls = run_logs byte ops g (ls @ [(a, l, [])])"
| "run_logs byte (Dump_all # ops) g ls = run_logs byte ops g (map (snapshot byte g) ls)"
| "run_logs byte (Dump_specific a # ops) g ls =
     run_logs byte ops g (map (\<lambda>r. if fst r = a then snapshot byte g r else r) ls)"
| "run_logs byte (Guest_runs g' # ops) g ls = run_logs byte ops g' ls"

fun config_in :: "u64 set \<Rightarrow> 'g memdump_op \<Rightarrow> bool" where
  "config_in A (Configure a l) \<longleftrightarrow> block a (unat l) \<subseteq> A \<and> unat l < 2 ^ 31"
| "config_in A _ \<longleftrightarrow> True"

lemma regions_in_map:
  "regions_in A ls \<Longrightarrow> (\<And>r. fst (f r) = fst r \<and> fst (snd (f r)) = fst (snd r)) \<Longrightarrow> regions_in A (map f ls)"
  by (auto simp: regions_in_def case_prod_unfold)

lemma snapshot_len [simp]: "fst (snd (snapshot byte g r)) = fst (snd r)"
  by (cases r) simp

lemma run_memdump_logs:
  assumes "plenty e" "ram e byte A"
  shows "memdump_ok s \<Longrightarrow> regions_in A (logs s) \<Longrightarrow> list_all (config_in A) ops \<Longrightarrow>
    \<exists>s'. run_memdump e ops s = Some s' \<and> memdump_ok s' \<and>
      logs s' = run_logs byte ops (guest s) (logs s)"
proof (induction ops arbitrary: s)
  case Nil
  then show ?case by simp
next
  case (Cons op ops)
  note IH = Cons.IH and ok = Cons.prems(1,2)
  have ops: "list_all (config_in A) ops" using Cons.prems(3) by simp
  show ?case
  proof (cases op)
    case (Configure a l)
    then have al: "block a (unat l) \<subseteq> A" "unat l < 2 ^ 31" using Cons.prems(3) by simp_all
    obtain t where t: "insert_memorydump_config e a l s = Some (1, t)" "memdump_only s t"
      "memdump_ok t" "logs t = logs s @ [(a, l, [])]"
      using insert_memorydump_config_logs [OF assms(1) ok(1) al(2)] by blast
    moreover have "regions_in A (logs t)" using ok(2) al(1) t(4) by (auto simp: regions_in_def)
    ultimately show ?thesis using IH [OF t(3) _ ops] Configure by (simp add: memdump_only_frame)
  next
    case Dump_all
    obtain t where t: "read_all_memory e s = Some (0, t)" "memdump_only s t"
      "memdump_ok t" "logs t = map (snapshot byte (guest s)) (logs s)"
      using read_all_memory_logs [OF assms ok] by blast
    moreover have "regions_in A (logs t)" unfolding t(4) using ok(2) by (rule regions_in_map) simp
    ultimately show ?thesis using IH [OF t(3) _ ops] Dump_all by (simp add: memdump_only_frame)
  next
    case (Dump_specific a)
    obtain t where t: "read_specific_memoryregion e a s = Some t" "memdump_only s t"
      "memdump_ok t" "logs t = map (\<lambda>r. if fst r = a then snapshot byte (guest s) r else r) (logs s)"
      using read_specific_memoryregion_logs [OF assms ok] by blast
    moreover have "regions_in A (logs t)" unfolding t(4) using ok(2) by (rule regions_in_map) simp
    ultimately show ?thesis using IH [OF t(3) _ ops] Dump_specific by (simp add: memdump_only_frame)
  next
    case (Guest_runs g)
    have "memdump_ok (s\<lparr>guest := g\<rparr>) \<and> logs (s\<lparr>guest := g\<rparr>) = logs s"
      using memdump_ok_same [of "s\<lparr>guest := g\<rparr>" s] ok by simp
    with Guest_runs show ?thesis using IH [of "s\<lparr>guest := g\<rparr>"] ok ops by simp
  qed
qed

text \<open>
  C15. The memory-dump module does what its clients expect of it.  After it was initialised for any
  number of regions, every sequence of configurations, dumps and guest activity succeeds, and the
  readout then reports exactly the configured regions in the order they were configured, each with
  the bytes its memory held at every dump, oldest first.  The vectors and buffers that are
  reallocated on the way lose nothing.
\<close>

theorem memdump_reports_all_snapshots:
  assumes "plenty e" "ram e byte A" "list_all (config_in A) ops"
  shows "\<exists>s1 s2 k. init_memory e n s = Some (0, s1) \<and> run_memdump e ops s1 = Some s2 \<and>
    readout_all_memorydump e data_msg_init s2 =
      Some (Inr (0, data_msg_init\<lparr>dm_mem_dump_infos :=
        map dump_message (run_logs byte ops (guest s) [])\<rparr>), s2\<lparr>mallocs := k\<rparr>)"
proof -
  obtain s1 where s1: "init_memory e n s = Some (0, s1)" "memdump_only s s1" "memdump_ok s1" "logs s1 = []"
    using init_memory_logs [OF assms(1)] by blast
  have "regions_in A (logs s1)" by (simp add: s1(4) regions_in_def)
  then obtain s2 where s2: "run_memdump e ops s1 = Some s2" "memdump_ok s2"
    "logs s2 = run_logs byte ops (guest s) []"
    using run_memdump_logs [OF assms(1,2) s1(3) _ assms(3)] s1(4) memdump_only_frame(1) [OF s1(2)] by auto
  have "used_memdump s2 = 0 \<Longrightarrow> logs s2 = []" using length_logs [OF s2(2)] by simp
  then have "(if used_memdump s2 = 0 then data_msg_init
       else data_msg_init\<lparr>dm_mem_dump_infos := map dump_message (logs s2)\<rparr>) =
      data_msg_init\<lparr>dm_mem_dump_infos := map dump_message (logs s2)\<rparr>"
    by (simp add: data_msg_init_def)
  with readout_all_memorydump_messages [OF assms(1) s2(2), of data_msg_init] s1(1) s2 show ?thesis
    by auto
qed

definition flat_memdump :: "flat memdump_state" where
  "flat_memdump =
     \<lparr>guest = flat_guest, mallocs = 0, cbs = [], req_singlestep = 0, first_fault = None,
      fault_heap = Map.empty, memdump = None, num_memdump = 0, used_memdump = 0\<rparr>"

theorem memdump_reports_all_snapshots_witness:
  "\<exists>s1 s2 k. init_memory flat_env 1 flat_memdump = Some (0, s1) \<and>
     run_memdump flat_env [Configure 16 2, Dump_all, Configure 32 1,
       Guest_runs (flat_guest\<lparr>flat_mem := (\<lambda>_. 7)\<rparr>), Dump_specific 16] s1 = Some s2 \<and>
     readout_all_memorydump flat_env data_msg_init s2 =
      Some (Inr (0, data_msg_init\<lparr>dm_mem_dump_infos :=
        [\<lparr>mdi_address = 16, mdi_len = 2, mdi_dumps = [[0, 0], [7, 7]]\<rparr>,
         \<lparr>mdi_address = 32, mdi_len = 1, mdi_dumps = []\<rparr>]\<rparr>), s2\<lparr>mallocs := k\<rparr>)"
  using memdump_reports_all_snapshots [OF flat_plenty flat_ram,
      of "[Configure 16 2, Dump_all, Configure 32 1,
           Guest_runs (flat_guest\<lparr>flat_mem := (\<lambda>_. 7)\<rparr>), Dump_specific 16]" 1 flat_memdump]
  by (simp add: flat_memdump_def flat_guest_def get_bytes_def upt_rec)

end
