(* ===== verification/RegisterDump.thy ===== *)
theory RegisterDump
  imports MemDump
begin

text \<open>
  \<^verbatim>\<open>faultplugin/registerdump.c\<close>: snapshots of the guest's registers, one for every injected or
  reversed fault and one at the end, newest first.  The register block of a dump is the flexible
  array at the end of the struct; a fresh block holds whatever \<^verbatim>\<open>malloc\<close> returned (words 3 and up,
  after \<^verbatim>\<open>pc\<close>, \<^verbatim>\<open>tbcount\<close> and \<^verbatim>\<open>next\<close>).
\<close>

section \<open>Data\<close>

record registerdump =
  rd_pc :: u64
  rd_tbcount :: u64
  rd_next :: "ref option"
  rd_regs :: "u64 list"

record 'g register_state = "'g memdump_state" +
  first_registerdump :: "ref option"
  register_heap :: "ref \<rightharpoonup> registerdump"
  arch :: int

interpretation register_cell: linked_cell rd_next "\<lambda>p. rd_next_update (\<lambda>_. p)"
  by unfold_locales simp

definition ARM :: int where "ARM = 0"
definition RISCV :: int where "RISCV = 1"
definition ARM64 :: int where "ARM64 = 2"

definition N_ARM_REGISTERS :: nat where "N_ARM_REGISTERS = 16"
definition N_RISCV_REGISTERS :: nat where "N_RISCV_REGISTERS = 32"
definition N_ARM64_CORE_INT_REGISTERS :: nat where "N_ARM64_CORE_INT_REGISTERS = 31"
definition N_ARM64_REGISTERS :: nat where "N_ARM64_REGISTERS = N_ARM64_CORE_INT_REGISTERS + 1 + 1"

definition AARCH64_QEMU_GDB_ID__SP :: u64 where "AARCH64_QEMU_GDB_ID__SP = 31"
definition AARCH64_QEMU_GDB_ID__PC :: u64 where "AARCH64_QEMU_GDB_ID__PC = 32"
definition AARCH64_QEMU_GDB_ID__CPSR :: u64 where "AARCH64_QEMU_GDB_ID__CPSR = 33"

lemmas register_numbers =
  ARM_def RISCV_def ARM64_def N_ARM_REGISTERS_def N_RISCV_REGISTERS_def
  N_ARM64_CORE_INT_REGISTERS_def N_ARM64_REGISTERS_def
  AARCH64_QEMU_GDB_ID__SP_def AARCH64_QEMU_GDB_ID__PC_def AARCH64_QEMU_GDB_ID__CPSR_def

section \<open>Operations\<close>

definition init_register_module ::
  "int \<Rightarrow> ('g, 'z) register_state_scheme \<Rightarrow> ('g, 'z) register_state_scheme" where
  "init_register_module architecture s = s\<lparr>first_registerdump := None, arch := architecture\<rparr>"

definition delete_register_module ::
  "('g, 'z) register_state_scheme \<Rightarrow> ('g, 'z) register_state_scheme option" where
  "delete_register_module s = do {
     h \<leftarrow> free_chain rd_next (first_registerdump s) (register_heap s);
     Some (s\<lparr>register_heap := h, first_registerdump := None\<rparr>)
   }"

text \<open>The registers \<open>is\<close>, read one after the other into the block at the same index.\<close>

fun read_into :: "'g env \<Rightarrow> 'g \<Rightarrow> nat list \<Rightarrow> u64 list \<Rightarrow> u64 list option" where
  "read_into e g [] regs = Some regs"
| "read_into e g (i # is) regs = do {
     regs \<leftarrow> arr_set regs i 0;
     regs \<leftarrow> arr_set regs i (read_reg e (of_nat i) g);
     read_into e g is regs
   }"

definition readout_riscv_registers :: "'g env \<Rightarrow> 'g \<Rightarrow> u64 list \<Rightarrow> u64 list option" where
  "readout_riscv_registers e g regs = read_into e g [0..<N_RISCV_REGISTERS + 1] regs"

definition readout_arm_registers :: "'g env \<Rightarrow> 'g \<Rightarrow> u64 list \<Rightarrow> u64 list option" where
  "readout_arm_registers e g regs = do {
     regs \<leftarrow> read_into e g [0..<N_ARM_REGISTERS] regs;
     arr_set regs 16 (read_reg e 25 g)
   }"

definition readout_aarch64_registers :: "'g env \<Rightarrow> 'g \<Rightarrow> u64 list \<Rightarrow> u64 list option" where
  "readout_aarch64_registers e g regs = do {
     regs \<leftarrow> read_into e g [0..<N_ARM64_CORE_INT_REGISTERS] regs;
     regs \<leftarrow> arr_set regs N_ARM64_CORE_INT_REGISTERS (read_reg e AARCH64_QEMU_GDB_ID__SP g);
     arr_set regs (N_ARM64_CORE_INT_REGISTERS + 1) (read_reg e AARCH64_QEMU_GDB_ID__CPSR g)
   }"

definition fresh_regs :: "'g env \<Rightarrow> ref \<Rightarrow> nat \<Rightarrow> u64 list" where
  "fresh_regs e r n = map (\<lambda>i. malloc_junk e r (3 + i)) [0..<n]"

text \<open>
  The result is \<^verbatim>\<open>None\<close> for an architecture the code does not know: \<^verbatim>\<open>current\<close> is then still
  \<^verbatim>\<open>NULL\<close> when its fields are written.
\<close>

definition add_new_registerdump ::
  "'g env \<Rightarrow> u64 \<Rightarrow> ('g, 'z) register_state_scheme \<Rightarrow> (int \<times> ('g, 'z) register_state_scheme) option"
where
  "add_new_registerdump e tbcount s =
     (if arch s \<noteq> ARM \<and> arch s \<noteq> ARM64 \<and> arch s \<noteq> RISCV then None
      else
        (case malloc e s of
           (None, s) \<Rightarrow> Some (-1, s)
         | (Some r, s) \<Rightarrow> do {
             (regs, pc) \<leftarrow>
               (if arch s = ARM then do {
                  regs \<leftarrow> readout_arm_registers e (guest s) (fresh_regs e r (N_ARM_REGISTERS + 1));
                  pc \<leftarrow> arr_get regs 15;
                  Some (regs, pc)
                } else if arch s = ARM64 then do {
                  regs \<leftarrow> readout_aarch64_registers e (guest s) (fresh_regs e r (N_ARM64_REGISTERS + 1));
                  Some (regs, read_reg e AARCH64_QEMU_GDB_ID__PC (guest s))
                } else do {
                  regs \<leftarrow> readout_riscv_registers e (guest s) (fresh_regs e r (N_RISCV_REGISTERS + 1));
                  pc \<leftarrow> arr_get regs 32;
                  Some (regs, pc)
                });
             Some (0, s\<lparr>register_heap := (register_heap s)(r \<mapsto>
                          \<lparr>rd_pc = pc, rd_tbcount = tbcount, rd_next = first_registerdump s,
                           rd_regs = regs\<rparr>),
                        first_registerdump := Some r\<rparr>)
           }))"

definition get_register_dump_count :: "('g, 'z) register_state_scheme \<Rightarrow> nat option" where
  "get_register_dump_count s = walk rd_next (register_heap s) (\<lambda>r n. Suc) (first_registerdump s) 0"

text \<open>One round of the loop of \<^verbatim>\<open>read_registers\<close>: two allocations and a copy of \<open>n\<close> registers.\<close>

definition read_registers_step ::
  "'g env \<Rightarrow> nat \<Rightarrow> registerdump \<Rightarrow> ('g, 'z) register_state_scheme \<times> register_dump_msg list \<Rightarrow>
   (('g, 'z) register_state_scheme + ('g, 'z) register_state_scheme \<times> register_dump_msg list) option"
where
  "read_registers_step e n current = (\<lambda>(s, dumps).
     (case malloc e s of
        (None, s) \<Rightarrow> Some (Inl s)
      | (Some _, s) \<Rightarrow>
          (case malloc e s of
             (None, s) \<Rightarrow> Some (Inl s)
           | (Some _, s) \<Rightarrow>
               if n \<le> length (rd_regs current)
               then Some (Inr (s, dumps @ [\<lparr>rdm_register_values = take n (rd_regs current),
                                            rdm_pc = rd_pc current,
                                            rdm_tb_count = rd_tbcount current\<rparr>]))
               else None)))"

definition read_registers ::
  "'g env \<Rightarrow> register_info_msg \<Rightarrow> ('g, 'z) register_state_scheme \<Rightarrow>
   (int \<times> register_info_msg \<times> ('g, 'z) register_state_scheme) option" where
  "read_registers e reg_info s = do {
     n_register_dumps \<leftarrow> get_register_dump_count s;
     (case malloc e s of
        (None, s) \<Rightarrow> Some (-1, reg_info, s)
      | (Some _, s) \<Rightarrow>
          if arch s \<noteq> ARM \<and> arch s \<noteq> ARM64 \<and> arch s \<noteq> RISCV then Some (-1, reg_info, s)
          else do {
            let reg_info = reg_info\<lparr>ri_arch_type := word_of_int (arch s)\<rparr>;
            let n_registers = (if arch s = ARM then N_ARM_REGISTERS + 1
                               else if arch s = ARM64 then N_ARM64_REGISTERS + 1
                               else N_RISCV_REGISTERS + 1);
            res \<leftarrow> walk_until rd_next (register_heap s) (\<lambda>_. read_registers_step e n_registers)
                     (first_registerdump s) (s, []);
            (case res of
               Inl s \<Rightarrow> Some (-1, reg_info, s)
             | Inr (s, dumps) \<Rightarrow> Some (0, reg_info\<lparr>ri_register_dumps := dumps\<rparr>, s))
          })
   }"

definition register_info_init :: register_info_msg where
  "register_info_init = \<lparr>ri_register_dumps = [], ri_arch_type = 0\<rparr>"

definition read_register_module ::
  "'g env \<Rightarrow> data_msg \<Rightarrow> ('g, 'z) register_state_scheme \<Rightarrow>
   (int \<times> data_msg \<times> ('g, 'z) register_state_scheme) option" where
  "read_register_module e msg s =
     (case malloc e s of
        (None, s) \<Rightarrow> Some (-1, msg, s)
      | (Some _, s) \<Rightarrow> do {
          (status, reg, s) \<leftarrow> read_registers e register_info_init s;
          Some (if status \<noteq> 0 then (-1, msg, s)
                else (0, msg\<lparr>dm_register_info := Some reg\<rparr>, s))
        })"

section \<open>Frame\<close>

definition register_only ::
  "('g, 'z) register_state_scheme \<Rightarrow> ('g, 'z) register_state_scheme \<Rightarrow> bool" where
  "register_only s s' \<longleftrightarrow>
     (\<exists>k f h. mallocs s \<le> k \<and> s' = s\<lparr>mallocs := k, first_registerdump := f, register_heap := h\<rparr>)"

lemma register_onlyI [intro]:
  "mallocs s \<le> k \<Longrightarrow> register_only s (s\<lparr>mallocs := k, first_registerdump := f, register_heap := h\<rparr>)"
  by (auto simp: register_only_def)

lemma register_only_frame [frame_simps]:
  assumes "register_only s s'"
  shows "guest s' = guest s" "cbs s' = cbs s" "req_singlestep s' = req_singlestep s"
    "first_fault s' = first_fault s" "fault_heap s' = fault_heap s"
    "memdump s' = memdump s" "num_memdump s' = num_memdump s" "used_memdump s' = used_memdump s"
    "arch s' = arch s" "register_state.more s' = register_state.more s" "mallocs s \<le> mallocs s'"
  using assms by (auto simp: register_only_def)

section \<open>What a dump holds\<close>

definition arch_regs :: "'g env \<Rightarrow> int \<Rightarrow> 'g \<Rightarrow> u64 list" where
  "arch_regs e a g =
     (if a = ARM then map (\<lambda>i. read_reg e (of_nat i) g) [0..<16] @ [read_reg e 25 g]
      else if a = ARM64 then
        map (\<lambda>i. read_reg e (of_nat i) g) [0..<31] @ [read_reg e 31 g, read_reg e 33 g]
      else map (\<lambda>i. read_reg e (of_nat i) g) [0..<33])"

definition arch_pc :: "'g env \<Rightarrow> int \<Rightarrow> 'g \<Rightarrow> u64" where
  "arch_pc e a g = (if a = ARM then read_reg e 15 g else read_reg e 32 g)"

text \<open>The words of a dump that are never written.\<close>

definition arch_junk :: "'g env \<Rightarrow> int \<Rightarrow> ref \<Rightarrow> u64 list" where
  "arch_junk e a r = (if a = ARM64 then [malloc_junk e r 36] else [])"

definition known_arch :: "int \<Rightarrow> bool" where
  "known_arch a \<longleftrightarrow> a = ARM \<or> a = ARM64 \<or> a = RISCV"

lemma read_into_append:
  "read_into e g (is @ js) regs = Option.bind (read_into e g is regs) (read_into e g js)"
  by (induction "is" arbitrary: regs) (simp_all split: bind_split)

lemma read_into_prefix:
  "k \<le> length regs \<Longrightarrow>
   read_into e g [0..<k] regs = Some (map (\<lambda>i. read_reg e (of_nat i) g) [0..<k] @ drop k regs)"
proof (induction k)
  case 0
  then show ?case by simp
next
  case (Suc k)
  then have "drop k regs = regs ! k # drop (Suc k) regs" by (simp add: Cons_nth_drop_Suc)
  with Suc show ?case by (simp add: read_into_append list_update_append)
qed

lemma length_fresh_regs [simp]: "length (fresh_regs e r n) = n"
  by (simp add: fresh_regs_def)

lemma readout_registers:
  "readout_arm_registers e g (fresh_regs e r 17) = Some (arch_regs e ARM g)"
  "readout_aarch64_registers e g (fresh_regs e r 34) = Some (arch_regs e ARM64 g @ [malloc_junk e r 36])"
  "readout_riscv_registers e g (fresh_regs e r 33) = Some (arch_regs e RISCV g)"
proof -
  have "drop 16 (fresh_regs e r 17) = [malloc_junk e r 19]"
    "drop 31 (fresh_regs e r 34) = [malloc_junk e r 34, malloc_junk e r 35, malloc_junk e r 36]"
    by (simp_all add: fresh_regs_def drop_map upt_rec)
  then show "readout_arm_registers e g (fresh_regs e r 17) = Some (arch_regs e ARM g)"
    "readout_aarch64_registers e g (fresh_regs e r 34) = Some (arch_regs e ARM64 g @ [malloc_junk e r 36])"
    by (simp_all add: readout_arm_registers_def readout_aarch64_registers_def register_numbers
        read_into_prefix list_update_append arch_regs_def del: upt_rec_numeral)
  show "readout_riscv_registers e g (fresh_regs e r 33) = Some (arch_regs e RISCV g)"
    by (simp add: readout_riscv_registers_def register_numbers read_into_prefix arch_regs_def
        del: upt_rec_numeral)
qed

text \<open>The dump a call records.\<close>

definition new_dump :: "'g env \<Rightarrow> ref \<Rightarrow> ref option \<Rightarrow> int \<Rightarrow> 'g \<Rightarrow> u64 \<Rightarrow> registerdump" where
  "new_dump e r p a g tbcount =
     \<lparr>rd_pc = arch_pc e a g, rd_tbcount = tbcount, rd_next = p,
      rd_regs = arch_regs e a g @ arch_junk e a r\<rparr>"

lemma add_new_registerdump_known:
  assumes "plenty e" "known_arch (arch s)"
  shows "add_new_registerdump e tbcount s =
    Some (0, s\<lparr>mallocs := Suc (mallocs s),
      register_heap := (register_heap s)(mallocs s \<mapsto>
        new_dump e (mallocs s) (first_registerdump s) (arch s) (guest s) tbcount),
      first_registerdump := Some (mallocs s)\<rparr>)"
proof -
  have "arch_regs e ARM g ! 15 = read_reg e 15 g" "length (arch_regs e ARM g) = 17"
    "arch_regs e RISCV g ! 32 = read_reg e 32 g" "length (arch_regs e RISCV g) = 33" for g
    by (simp_all add: arch_regs_def nth_append register_numbers del: upt_rec_numeral)
  moreover have "ARM \<noteq> ARM64" "RISCV \<noteq> ARM" "RISCV \<noteq> ARM64" by (simp_all add: register_numbers)
  ultimately show ?thesis
    using assms readout_registers [of e _ "mallocs s"]
    by (auto simp: add_new_registerdump_def plenty_malloc known_arch_def new_dump_def arch_pc_def
        arch_junk_def N_ARM_REGISTERS_def N_RISCV_REGISTERS_def N_ARM64_REGISTERS_def
        N_ARM64_CORE_INT_REGISTERS_def AARCH64_QEMU_GDB_ID__PC_def)
qed

section \<open>The list of dumps\<close>

definition register_refs :: "('g, 'z) register_state_scheme \<Rightarrow> ref list \<Rightarrow> bool" where
  "register_refs s rs \<longleftrightarrow>
     chain rd_next (register_heap s) (first_registerdump s) rs \<and> below (register_heap s) (mallocs s)"

lemma register_refs_mono:
  "register_refs s rs \<Longrightarrow> register_heap s' = register_heap s \<Longrightarrow>
   first_registerdump s' = first_registerdump s \<Longrightarrow> mallocs s \<le> mallocs s' \<Longrightarrow> register_refs s' rs"
  by (auto simp: register_refs_def elim: below_mono)

definition dump_length :: "int \<Rightarrow> nat" where
  "dump_length a = (if a = ARM then 17 else if a = ARM64 then 34 else 33)"

lemma length_arch_regs: "length (arch_regs e a g @ arch_junk e a r) = dump_length a"
  by (simp add: arch_regs_def arch_junk_def dump_length_def register_numbers del: upt_rec_numeral)

definition dump_ok :: "int \<Rightarrow> registerdump \<Rightarrow> bool" where
  "dump_ok a d \<longleftrightarrow> length (rd_regs d) = dump_length a"

definition register_msg :: "registerdump \<Rightarrow> register_dump_msg" where
  "register_msg d = \<lparr>rdm_register_values = rd_regs d, rdm_pc = rd_pc d, rdm_tb_count = rd_tbcount d\<rparr>"

text \<open>The messages of the dumps in the list, newest first, all of full length.\<close>

definition register_log ::
  "('g, 'z) register_state_scheme \<Rightarrow> register_dump_msg list \<Rightarrow> bool" where
  "register_log s ms \<longleftrightarrow>
     (\<exists>rs. register_refs s rs \<and> (\<forall>r \<in> set rs. dump_ok (arch s) (the (register_heap s r))) \<and>
           ms = map (\<lambda>r. register_msg (the (register_heap s r))) rs)"

lemma register_log_init:
  "register_heap s = Map.empty \<Longrightarrow> register_log (init_register_module a s) []"
  by (simp add: register_log_def init_register_module_def register_refs_def)

lemma register_log_cong:
  "register_log s ms \<Longrightarrow> register_heap s' = register_heap s \<Longrightarrow> arch s' = arch s \<Longrightarrow>
   first_registerdump s' = first_registerdump s \<Longrightarrow> mallocs s \<le> mallocs s' \<Longrightarrow> register_log s' ms"
  unfolding register_log_def using register_refs_mono by fastforce

lemma add_new_registerdump_log:
  assumes "plenty e" "known_arch (arch s)" "register_log s ms"
  shows "\<exists>s'. add_new_registerdump e tbcount s = Some (0, s') \<and> register_only s s' \<and>
    register_log s' (register_msg (new_dump e (mallocs s) (first_registerdump s) (arch s) (guest s) tbcount) # ms)"
proof -
  let ?d = "new_dump e (mallocs s) (first_registerdump s) (arch s) (guest s) tbcount"
  let ?s' = "s\<lparr>mallocs := Suc (mallocs s), first_registerdump := Some (mallocs s),
              register_heap := (register_heap s)(mallocs s \<mapsto> ?d)\<rparr>"
  obtain rs where rs: "register_refs s rs" "\<forall>r \<in> set rs. dump_ok (arch s) (the (register_heap s r))"
    "ms = map (\<lambda>r. register_msg (the (register_heap s r))) rs"
    using assms(3) by (auto simp: register_log_def)
  then have r: "mallocs s \<notin> set rs" "mallocs s \<notin> dom (register_heap s)"
    by (auto simp: register_refs_def below_fresh domIff dest: chain_below)
  have "register_refs ?s' (mallocs s # rs)"
    using rs(1) r by (simp add: register_refs_def below_new chain_frame new_dump_def)
  moreover have "dump_ok (arch s) ?d"
    by (simp only: dump_ok_def new_dump_def registerdump.simps length_arch_regs)
  ultimately have "register_log ?s' (register_msg ?d # ms)"
    unfolding register_log_def using rs r by (intro exI [of _ "mallocs s # rs"]) auto
  moreover have "register_only s ?s'" by (rule register_onlyI) simp
  moreover have "add_new_registerdump e tbcount s = Some (0, ?s')"
    using add_new_registerdump_known [OF assms(1,2)] by simp
  ultimately show ?thesis by blast
qed

section \<open>The readout\<close>

lemma read_registers_step_emits:
  assumes "plenty e" "dump_ok a d"
  shows "read_registers_step e (dump_length a) d (s, ms) =
    Some (Inr (s\<lparr>mallocs := mallocs s + 2\<rparr>, ms @ [register_msg d]))"
  using assms by (simp add: read_registers_step_def plenty_malloc dump_ok_def register_msg_def)

lemma read_register_module_messages:
  assumes "plenty e" "known_arch (arch s)" "register_log s ms"
  shows "\<exists>k. mallocs s \<le> k \<and> read_register_module e msg s =
    Some (0, msg\<lparr>dm_register_info :=
      Some \<lparr>ri_register_dumps = ms, ri_arch_type = word_of_int (arch s)\<rparr>\<rparr>, s\<lparr>mallocs := k\<rparr>)"
proof -
  obtain rs where rs: "register_refs s rs" "\<forall>r \<in> set rs. dump_ok (arch s) (the (register_heap s r))"
    "ms = map (\<lambda>r. register_msg (the (register_heap s r))) rs"
    using assms(3) by (auto simp: register_log_def)
  then have ch: "chain rd_next (register_heap s) (first_registerdump s) rs"
    by (simp add: register_refs_def)
  let ?s = "s\<lparr>mallocs := Suc (Suc (mallocs s))\<rparr>"
  let ?h = "register_heap s"
  have "walk_until rd_next ?h (\<lambda>_. read_registers_step e (dump_length (arch s)))
      (first_registerdump s) (?s, []) =
    Some (Inr (fold (\<lambda>r (s, ms). (s\<lparr>mallocs := mallocs s + 2\<rparr>, ms @ [register_msg (the (?h r))]))
      rs (?s, [])))"
  proof (rule walk_until_chain [OF ch])
    fix r n and a :: "('a, 'b) register_state_scheme \<times> register_dump_msg list"
    assume "r \<in> set rs" "?h r = Some n"
    then have "dump_ok (arch s) n" using rs(2) by fastforce
    then show "read_registers_step e (dump_length (arch s)) n a =
        Some (Inr ((\<lambda>(s, ms). (s\<lparr>mallocs := mallocs s + 2\<rparr>, ms @ [register_msg (the (?h r))])) a))"
      using assms(1) \<open>?h r = Some n\<close> by (cases a) (simp add: read_registers_step_emits)
  qed
  then have w: "walk_until rd_next ?h (\<lambda>_. read_registers_step e (dump_length (arch s)))
      (first_registerdump s) (?s, []) =
    Some (Inr (s\<lparr>mallocs := Suc (Suc (mallocs s)) + 2 * length rs\<rparr>, ms))"
    by (simp only: fold_emit) (simp add: rs(3))
  have n: "Suc N_ARM_REGISTERS = dump_length ARM" "Suc N_ARM64_REGISTERS = dump_length ARM64"
    "Suc N_RISCV_REGISTERS = dump_length RISCV" "ARM \<noteq> ARM64" "RISCV \<noteq> ARM" "RISCV \<noteq> ARM64"
    by (simp_all add: dump_length_def register_numbers)
  have "read_register_module e msg s =
    Some (0, msg\<lparr>dm_register_info :=
      Some \<lparr>ri_register_dumps = ms, ri_arch_type = word_of_int (arch s)\<rparr>\<rparr>,
      s\<lparr>mallocs := Suc (Suc (mallocs s)) + 2 * length rs\<rparr>)"
    using assms(1,2) w walk_count [OF ch] n
    unfolding known_arch_def
    by (elim disjE) (simp_all add: read_register_module_def read_registers_def plenty_malloc
        get_register_dump_count_def register_info_init_def)
  then show ?thesis by (intro exI [of _ "Suc (Suc (mallocs s)) + 2 * length rs"]) simp
qed

section \<open>The module against its specification\<close>

text \<open>Dumps taken at guest states \<open>g\<close> with counters \<open>n\<close>.\<close>

fun run_dumps ::
  "'g env \<Rightarrow> ('g \<times> u64) list \<Rightarrow> ('g, 'z) register_state_scheme \<Rightarrow> ('g, 'z) register_state_scheme option"
where
  "run_dumps e [] s = Some s"
| "run_dumps e ((g, n) # ds) s = do {
     (status, s) \<leftarrow> add_new_registerdump e n (s\<lparr>guest := g\<rparr>);
     run_dumps e ds s
   }"

text \<open>
  The message of a dump: program counter, counter and register values, in the order of the front
  end.  An ARM64 dump has one more value, of which nothing is promised.
\<close>

fun reports :: "'g env \<Rightarrow> int \<Rightarrow> 'g \<times> u64 \<Rightarrow> register_dump_msg \<Rightarrow> bool" where
  "reports e a (g, n) m \<longleftrightarrow>
     rdm_pc m = arch_pc e a g \<and> rdm_tb_count m = n \<and>
     (if a = ARM64 then take 33 (rdm_register_values m) = arch_regs e a g \<and>
                        length (rdm_register_values m) = 34
      else rdm_register_values m = arch_regs e a g)"

lemma new_dump_reports: "reports e a (g, n) (register_msg (new_dump e r p a g n))"
  by (simp add: register_msg_def new_dump_def arch_junk_def arch_regs_def register_numbers
      del: upt_rec_numeral)

lemma run_dumps_log:
  assumes "plenty e"
  shows "known_arch (arch s) \<Longrightarrow> register_log s ms \<Longrightarrow>
    \<exists>s' ms'. run_dumps e ds s = Some s' \<and> arch s' = arch s \<and> register_log s' (ms' @ ms) \<and>
      list_all2 (reports e (arch s)) (rev ds) ms'"
proof (induction ds arbitrary: s ms)
  case Nil
  then show ?case by simp
next
  case (Cons d ds)
  obtain g n where d: "d = (g, n)" by (cases d)
  have "register_log (s\<lparr>guest := g\<rparr>) ms" using Cons.prems(2) by (rule register_log_cong) simp_all
  then obtain t m where t: "add_new_registerdump e n (s\<lparr>guest := g\<rparr>) = Some (0, t)"
    "register_only (s\<lparr>guest := g\<rparr>) t" "register_log t (m # ms)" "reports e (arch s) (g, n) m"
    using add_new_registerdump_log [OF assms, of "s\<lparr>guest := g\<rparr>" ms n] Cons.prems(1)
    by (auto intro: new_dump_reports simp del: reports.simps)
  have a: "arch t = arch s" using register_only_frame(9) [OF t(2)] by simp
  obtain s' ms' where "run_dumps e ds t = Some s'" "arch s' = arch t"
    "register_log s' (ms' @ m # ms)" "list_all2 (reports e (arch t)) (rev ds) ms'"
    using Cons.IH [OF _ t(3)] Cons.prems(1) a by auto
  with t(1,4) a d show ?case
    by (intro exI [of _ s'] exI [of _ "ms' @ [m]"]) (simp add: list_all2_appendI)
qed

text \<open>
  C23. Register dumps: after initialisation for a supported architecture, any sequence of dumps
  taken at arbitrary guest states succeeds, and the readout sends one message per dump, newest
  first, with the counter given, the program counter and the registers of the guest at the time of
  the dump in the order the front end expects.
\<close>

theorem registerdumps_report_guest_registers:
  assumes "plenty e" "known_arch a" "register_heap s = Map.empty"
  shows "\<exists>s' k ms. run_dumps e ds (init_register_module a s) = Some s' \<and>
    read_register_module e data_msg_init s' =
      Some (0, data_msg_init\<lparr>dm_register_info :=
        Some \<lparr>ri_register_dumps = ms, ri_arch_type = word_of_int a\<rparr>\<rparr>, s'\<lparr>mallocs := k\<rparr>) \<and>
    list_all2 (reports e a) (rev ds) ms"
proof -
  have a: "arch (init_register_module a s) = a" by (simp add: init_register_module_def)
  obtain s' ms where s': "run_dumps e ds (init_register_module a s) = Some s'" "arch s' = a"
    "register_log s' ms" "list_all2 (reports e a) (rev ds) ms"
    using run_dumps_log [OF assms(1) _ register_log_init [OF assms(3), of a], of ds] assms(2) a
    by auto
  then show ?thesis
    using read_register_module_messages [OF assms(1) _ s'(3), of data_msg_init] assms(2) by auto
qed

definition flat_registers :: "flat register_state" where
  "flat_registers =
     \<lparr>guest = flat_guest, mallocs = 0, cbs = [], req_singlestep = 0, first_fault = None,
      fault_heap = Map.empty, memdump = None, num_memdump = 0, used_memdump = 0,
      first_registerdump = None, register_heap = Map.empty, arch = ARM\<rparr>"

theorem registerdumps_report_guest_registers_witness:
  "\<exists>s' k m1 m2.
    run_dumps flat_env [(flat_guest\<lparr>flat_regs := (\<lambda>r. r + 1)\<rparr>, 5), (flat_guest, 9)]
      (init_register_module RISCV flat_registers) = Some s' \<and>
    read_register_module flat_env data_msg_init s' =
      Some (0, data_msg_init\<lparr>dm_register_info :=
        Some \<lparr>ri_register_dumps = [m1, m2], ri_arch_type = 1\<rparr>\<rparr>, s'\<lparr>mallocs := k\<rparr>) \<and>
    rdm_register_values m2 = map (\<lambda>i. of_nat i + 1) [0..<33] \<and> rdm_pc m2 = 33 \<and> rdm_tb_count m2 = 5"
proof -
  have "known_arch RISCV" "register_heap flat_registers = Map.empty"
    by (simp_all add: known_arch_def flat_registers_def)
  from registerdumps_report_guest_registers [OF flat_plenty this,
      of "[(flat_guest\<lparr>flat_regs := (\<lambda>r. r + 1)\<rparr>, 5), (flat_guest, 9)]"]
  show ?thesis
    by (auto simp: list_all2_Cons1 arch_regs_def arch_pc_def register_numbers flat_env_def
        simp del: upt_rec_numeral)
qed

text \<open>
  C38. An ARM64 dump announces 34 values but only 33 registers are read: the last value sent is
  whatever the allocated block happened to hold.
\<close>

theorem arm64_dump_sends_uninitialised_word:
  assumes "plenty e" "register_heap s = Map.empty"
  shows "\<exists>s' k m. run_dumps e [(g, n)] (init_register_module ARM64 s) = Some s' \<and>
    read_register_module e data_msg_init s' =
      Some (0, data_msg_init\<lparr>dm_register_info :=
        Some \<lparr>ri_register_dumps = [m], ri_arch_type = 2\<rparr>\<rparr>, s'\<lparr>mallocs := k\<rparr>) \<and>
    length (rdm_register_values m) = 34 \<and>
    rdm_register_values m ! 33 = malloc_junk e (mallocs s) 36"
proof -
  let ?s = "init_register_module ARM64 s\<lparr>guest := g\<rparr>"
  have s: "arch ?s = ARM64" "register_heap ?s = Map.empty" "mallocs ?s = mallocs s"
    "first_registerdump ?s = None" "known_arch (arch ?s)"
    using assms(2) by (simp_all add: init_register_module_def known_arch_def)
  have log: "register_log ?s []" using s by (simp add: register_log_def register_refs_def)
  let ?m = "register_msg (new_dump e (mallocs s) None ARM64 g n)"
  obtain s' where s': "add_new_registerdump e n ?s = Some (0, s')" "register_only ?s s'"
    "register_log s' [?m]"
    using add_new_registerdump_log [OF assms(1) s(5) log, of n] s by auto
  have "length (rdm_register_values ?m) = 34" "rdm_register_values ?m ! 33 = malloc_junk e (mallocs s) 36"
    by (simp_all add: register_msg_def new_dump_def arch_regs_def arch_junk_def nth_append
        register_numbers del: upt_rec_numeral)
  moreover have "arch s' = ARM64" using register_only_frame(9) [OF s'(2)] s(1) by simp
  ultimately show ?thesis
    using read_register_module_messages [OF assms(1) _ s'(3), of data_msg_init] s'(1)
    by (auto simp: ARM64_def known_arch_def)
qed

theorem arm64_dump_sends_uninitialised_word_witness:
  "\<exists>s' k m. run_dumps (flat_env\<lparr>malloc_junk := (\<lambda>_ _. 0xdead)\<rparr>) [(flat_guest, 1)]
      (init_register_module ARM64 flat_registers) = Some s' \<and>
    read_register_module (flat_env\<lparr>malloc_junk := (\<lambda>_ _. 0xdead)\<rparr>) data_msg_init s' =
      Some (0, data_msg_init\<lparr>dm_register_info :=
        Some \<lparr>ri_register_dumps = [m], ri_arch_type = 2\<rparr>\<rparr>, s'\<lparr>mallocs := k\<rparr>) \<and>
    rdm_register_values m ! 33 = 0xdead"
proof -
  have "plenty (flat_env\<lparr>malloc_junk := (\<lambda>_ _. 0xdead)\<rparr>)" by (simp add: plenty_def flat_env_def)
  moreover have "register_heap flat_registers = Map.empty" by (simp add: flat_registers_def)
  ultimately show ?thesis
    using arm64_dump_sends_uninitialised_word
      [of "flat_env\<lparr>malloc_junk := (\<lambda>_ _. 0xdead)\<rparr>" flat_registers flat_guest 1] by auto
qed

end
