(* ===== verification/TbInfo.thy ===== *)
theory TbInfo
  imports AvlCorrect RegisterDump "HOL-Library.Char_ord"
begin

text \<open>
  \<^verbatim>\<open>faultplugin/tb_info_data_collection.c\<close>: what is known of every translated block.  The records
  are linked in a list (newest first, for the readout and for freeing) and indexed by an AVL tree
  on their base address.  The tree stores pointers to the records, and its comparison function
  reads the address through them.
\<close>

section \<open>Data\<close>

record tb_info =
  tbi_base_address :: u64
  tbi_size :: u64
  tbi_instruction_count :: u64
  tbi_assembler :: string
  tbi_num_of_exec :: u64
  tbi_next :: "ref option"

record 'g tb_info_state = "'g register_state" +
  tb_info_list :: "ref option"
  tb_info_heap :: "ref \<rightharpoonup> tb_info"
  tb_avl_root :: "(u64, ref) avl_table option"

interpretation tb_info_cell: linked_cell tbi_next "\<lambda>p. tbi_next_update (\<lambda>_. p)"
  by unfold_locales simp

section \<open>Operations\<close>

text \<open>
  Both records are read at \<^verbatim>\<open>base_address\<close> only; the function is given the two addresses, and
  \<open>tb_key\<close> is the read through the pointer that the tree holds.
\<close>

definition tb_comparison_func :: "u64 \<Rightarrow> u64 \<Rightarrow> int" where
  "tb_comparison_func tb_a tb_b = (if tb_a < tb_b then -1 else if tb_a > tb_b then 1 else 0)"

definition tb_key :: "('g, 'z) tb_info_state_scheme \<Rightarrow> ref \<Rightarrow> u64 option" where
  "tb_key s r = map_option tbi_base_address (tb_info_heap s r)"

definition tb_info_init ::
  "('g, 'z) tb_info_state_scheme \<Rightarrow> ('g, 'z) tb_info_state_scheme" where
  "tb_info_init s = s\<lparr>tb_info_list := None, tb_avl_root := None\<rparr>"

definition tb_info_avl_init ::
  "'g env \<Rightarrow> ('g, 'z) tb_info_state_scheme \<Rightarrow> int \<times> ('g, 'z) tb_info_state_scheme" where
  "tb_info_avl_init e s =
     (case avl_create e tb_comparison_func s of
        (None, s) \<Rightarrow> (-1, s\<lparr>tb_avl_root := None\<rparr>)
      | (Some t, s) \<Rightarrow> (0, s\<lparr>tb_avl_root := Some t\<rparr>))"

text \<open>Destroying the tree does not touch the records, which are already freed.\<close>

definition tb_info_free ::
  "('g, 'z) tb_info_state_scheme \<Rightarrow> ('g, 'z) tb_info_state_scheme option" where
  "tb_info_free s = do {
     h \<leftarrow> free_chain tbi_next (tb_info_list s) (tb_info_heap s);
     let s = s\<lparr>tb_info_heap := h, tb_info_list := None\<rparr>;
     Some (if tb_avl_root s \<noteq> None then s\<lparr>tb_avl_root := None\<rparr> else s)
   }"

definition get_tb_info_list_size :: "('g, 'z) tb_info_state_scheme \<Rightarrow> nat option" where
  "get_tb_info_list_size s = walk tbi_next (tb_info_heap s) (\<lambda>r n. Suc) (tb_info_list s) 0"

definition tb_info_msg :: "tb_info \<Rightarrow> tb_information_msg" where
  "tb_info_msg item =
     \<lparr>ti_base_address = tbi_base_address item, ti_size = tbi_size item,
      ti_instruction_count = tbi_instruction_count item, ti_num_of_exec = tbi_num_of_exec item,
      ti_assembler = tbi_assembler item\<rparr>"

definition plugin_dump_tb_information ::
  "'g env \<Rightarrow> data_msg \<Rightarrow> ('g, 'z) tb_info_state_scheme \<Rightarrow>
   (int \<times> data_msg \<times> ('g, 'z) tb_info_state_scheme) option" where
  "plugin_dump_tb_information e msg s = do {
     size \<leftarrow> get_tb_info_list_size s;
     if size = 0 then Some (0, msg, s)
     else
       (case malloc e s of
          (None, s) \<Rightarrow> Some (-1, msg, s)
        | (Some _, s) \<Rightarrow> do {
            res \<leftarrow> walk_until tbi_next (tb_info_heap s)
              (\<lambda>r item (s, infos).
                 (case malloc e s of
                    (None, s) \<Rightarrow> Some (Inl s)
                  | (Some _, s) \<Rightarrow> Some (Inr (s, infos @ [tb_info_msg item]))))
              (tb_info_list s) (s, []);
            Some (case res of
                    Inl s \<Rightarrow> (-1, msg, s)
                  | Inr (s, infos) \<Rightarrow> (0, msg\<lparr>dm_tb_informations := infos\<rparr>, s))
          })
   }"

subsection \<open>Assembler and size of a block\<close>

fun hex_digits :: "nat \<Rightarrow> string" where
  "hex_digits n =
     (if n < 16 then [''0123456789abcdef'' ! n]
      else hex_digits (n div 16) @ [''0123456789abcdef'' ! (n mod 16)])"

declare hex_digits.simps [simp del]

text \<open>\<^verbatim>\<open>%8lx\<close>: lower-case hexadecimal, padded with blanks on the left to eight characters.\<close>

definition hex8 :: "u64 \<Rightarrow> string" where
  "hex8 w = (let ds = hex_digits (unat w) in replicate (8 - length ds) (CHR '' '') @ ds)"

definition decode_assembler :: "tb \<Rightarrow> string" where
  "decode_assembler tb =
     concat (map (\<lambda>insn. ''[ '' @ hex8 (insn_vaddr insn) @ '' ]: '' @ insn_disas insn @ '' !!'')
                 (tb_insns tb))"

text \<open>
  For a block without instructions \<^verbatim>\<open>qemu_plugin_tb_get_insn\<close> returns no instruction to be read:
  the result is \<open>None\<close>.
\<close>

definition calculate_bytesize_instructions :: "tb \<Rightarrow> u64 option" where
  "calculate_bytesize_instructions tb = do {
     insn_first \<leftarrow> arr_get (tb_insns tb) 0;
     let last_insn = length (tb_insns tb) - 1;
     insn_last \<leftarrow> arr_get (tb_insns tb) last_insn;
     Some (insn_vaddr insn_last - insn_vaddr insn_first + insn_size insn_last)
   }"

definition add_tb_info ::
  "'g env \<Rightarrow> tb \<Rightarrow> ('g, 'z) tb_info_state_scheme \<Rightarrow>
   (ref option \<times> ('g, 'z) tb_info_state_scheme) option" where
  "add_tb_info e tb s = do {
     root \<leftarrow> tb_avl_root s;
     found \<leftarrow> avl_find (tb_key s) root (tb_vaddr tb);
     (case found of
        Some r \<Rightarrow> Some (Some r, s)
      | None \<Rightarrow>
          (case malloc e s of
             (None, s) \<Rightarrow> Some (None, s)
           | (Some r, s) \<Rightarrow> do {
               size \<leftarrow> calculate_bytesize_instructions tb;
               let s = s\<lparr>tb_info_heap := (tb_info_heap s)(r \<mapsto>
                          \<lparr>tbi_base_address = tb_vaddr tb, tbi_size = size,
                           tbi_instruction_count = of_nat (length (tb_insns tb)),
                           tbi_assembler = decode_assembler tb, tbi_num_of_exec = 0,
                           tbi_next = tb_info_list s\<rparr>),
                         tb_info_list := Some r\<rparr>;
               (duplicate, root, s) \<leftarrow> avl_insert e (tb_key s) root r s;
               let s = s\<lparr>tb_avl_root := Some root\<rparr>;
               if duplicate \<noteq> None then Some (None, s)
               else do {
                 again \<leftarrow> avl_find (tb_key s) root (tb_vaddr tb);
                 Some (if again \<noteq> Some r then None else Some r, s)
               }
             }))
   }"

section \<open>The index\<close>

interpretation tb_order: avl_order tb_comparison_func UNIV
  by unfold_locales (auto simp: tb_comparison_func_def split: if_splits)

lemma tb_comparison_eq [simp]: "tb_comparison_func a b = 0 \<longleftrightarrow> a = b"
  by (auto simp: tb_comparison_func_def)

text \<open>
  The records \<open>rs\<close> form the list; the tree indexes exactly them.
\<close>

definition tb_refs :: "('g, 'z) tb_info_state_scheme \<Rightarrow> ref list \<Rightarrow> bool" where
  "tb_refs s rs \<longleftrightarrow>
     chain tbi_next (tb_info_heap s) (tb_info_list s) rs \<and> below (tb_info_heap s) (mallocs s) \<and>
     (\<exists>t. tb_avl_root s = Some t \<and> avl_wf tb_comparison_func (tb_key s) t \<and>
          set (avl_items t) = set rs)"

text \<open>The record kept for an address: what the tree finds.\<close>

definition tb_lookup :: "('g, 'z) tb_info_state_scheme \<Rightarrow> u64 \<Rightarrow> ref option" where
  "tb_lookup s a = (case tb_avl_root s of None \<Rightarrow> None | Some t \<Rightarrow> avl_lookup (tb_key s) t a)"

definition tb_table :: "('g, 'z) tb_info_state_scheme \<Rightarrow> u64 \<rightharpoonup> tb_information_msg" where
  "tb_table s a = (case tb_lookup s a of None \<Rightarrow> None | Some r \<Rightarrow> map_option tb_info_msg (tb_info_heap s r))"

lemma tb_lookup_iff:
  assumes "tb_refs s rs"
  shows "tb_lookup s a = Some r \<longleftrightarrow> r \<in> set rs \<and> tb_key s r = Some a"
proof -
  obtain t where t: "tb_avl_root s = Some t" "avl_wf tb_comparison_func (tb_key s) t"
    "set (avl_items t) = set rs"
    using assms by (auto simp: tb_refs_def)
  have cmp: "avl_compare t = tb_comparison_func" using t(2) by (simp add: avl_wf_def)
  show ?thesis
  proof
    assume "tb_lookup s a = Some r"
    then have "List.find (\<lambda>d. tb_comparison_func a (the (tb_key s d)) = 0) (avl_items t) = Some r"
      using t(1) cmp by (simp add: tb_lookup_def avl_lookup_def)
    then have "r \<in> set (avl_items t)" "the (tb_key s r) = a"
      by (auto simp: find_Some_iff)
    then show "r \<in> set rs \<and> tb_key s r = Some a" using t by (auto simp: avl_wf_def)
  next
    assume "r \<in> set rs \<and> tb_key s r = Some a"
    then show "tb_lookup s a = Some r"
      using tb_order.lookup_member [OF t(2), of r a] t(1,3) by (simp add: tb_lookup_def)
  qed
qed

lemma tb_lookup_None:
  "tb_refs s rs \<Longrightarrow> tb_lookup s a = None \<longleftrightarrow> (\<forall>r \<in> set rs. tb_key s r \<noteq> Some a)"
  using tb_lookup_iff by (metis not_Some_eq)

lemma tb_find:
  assumes "tb_refs s rs" "tb_avl_root s = Some t"
  shows "avl_find (tb_key s) t a = Some (tb_lookup s a)"
  using tb_order.find_correct [of "tb_key s" t a] assms by (auto simp: tb_refs_def tb_lookup_def)

lemma tb_refs_live:
  "tb_refs s rs \<Longrightarrow> r \<in> set rs \<Longrightarrow> \<exists>n. tb_info_heap s r = Some n \<and> tb_key s r = Some (tbi_base_address n)"
  by (auto simp: tb_refs_def tb_key_def dest: chain_liveD)

lemma tb_table_iff:
  assumes "tb_refs s rs"
  shows "tb_table s a = Some m \<longleftrightarrow>
    (\<exists>r \<in> set rs. \<exists>n. tb_info_heap s r = Some n \<and> tbi_base_address n = a \<and> m = tb_info_msg n)"
proof -
  have "tb_table s a = Some m \<longleftrightarrow> (\<exists>r n. tb_lookup s a = Some r \<and> tb_info_heap s r = Some n \<and> m = tb_info_msg n)"
    by (auto simp: tb_table_def split: option.splits)
  also have "\<dots> \<longleftrightarrow> (\<exists>r \<in> set rs. \<exists>n. tb_info_heap s r = Some n \<and> tbi_base_address n = a \<and> m = tb_info_msg n)"
    using tb_lookup_iff [OF assms] by (fastforce simp: tb_key_def)
  finally show ?thesis .
qed

text \<open>Records whose addresses are unchanged keep the index.\<close>

lemma tb_refs_same_keys:
  assumes "tb_refs s rs" "tb_info_list s' = tb_info_list s" "tb_avl_root s' = tb_avl_root s"
    and "tb_key s' = tb_key s" "mallocs s \<le> mallocs s'"
    and "\<And>r. map_option tbi_next (tb_info_heap s' r) = map_option tbi_next (tb_info_heap s r)"
  shows "tb_refs s' rs"
proof -
  have "tb_info_heap s' r = None \<longleftrightarrow> tb_info_heap s r = None" for r
    using assms(6) [of r] by (metis option.map_disc_iff)
  moreover have "below (tb_info_heap s) (mallocs s)" using assms(1) by (simp add: tb_refs_def)
  ultimately have "below (tb_info_heap s') (mallocs s')"
    using assms(5) unfolding below_def by (metis not_None_eq order_less_le_trans)
  moreover have "chain tbi_next (tb_info_heap s') (tb_info_list s') rs"
    using assms(1,2,6) chain_agree [of tbi_next "tb_info_heap s" _ rs "tb_info_heap s'"]
    by (simp add: tb_refs_def)
  ultimately show ?thesis using assms(1,3,4) by (simp add: tb_refs_def)
qed

section \<open>Frame\<close>

definition tb_info_only ::
  "('g, 'z) tb_info_state_scheme \<Rightarrow> ('g, 'z) tb_info_state_scheme \<Rightarrow> bool" where
  "tb_info_only s s' \<longleftrightarrow>
     (\<exists>k l h t. mallocs s \<le> k \<and>
        s' = s\<lparr>mallocs := k, tb_info_list := l, tb_info_heap := h, tb_avl_root := t\<rparr>)"

lemma tb_info_only_iff:
  "tb_info_only s s' \<longleftrightarrow>
     mallocs s \<le> mallocs s' \<and> guest s' = guest s \<and> cbs s' = cbs s \<and>
     req_singlestep s' = req_singlestep s \<and>
     first_fault s' = first_fault s \<and> fault_heap s' = fault_heap s \<and>
     memdump s' = memdump s \<and> num_memdump s' = num_memdump s \<and> used_memdump s' = used_memdump s \<and>
     first_registerdump s' = first_registerdump s \<and> register_heap s' = register_heap s \<and>
     arch s' = arch s \<and> tb_info_state.more s' = tb_info_state.more s" (is "?l \<longleftrightarrow> ?r")
proof
  assume ?l
  then show ?r by (auto simp: tb_info_only_def)
next
  assume r: ?r
  then have "s' = s\<lparr>mallocs := mallocs s', tb_info_list := tb_info_list s',
      tb_info_heap := tb_info_heap s', tb_avl_root := tb_avl_root s'\<rparr>"
    by (intro tb_info_state.equality) simp_all
  with r show ?l unfolding tb_info_only_def by blast
qed

lemma tb_info_only_refl [simp]: "tb_info_only s s"
  by (simp add: tb_info_only_iff)

lemma tb_info_only_frame [frame_simps]:
  assumes "tb_info_only s s'"
  shows "guest s' = guest s" "cbs s' = cbs s" "req_singlestep s' = req_singlestep s"
    "first_fault s' = first_fault s" "fault_heap s' = fault_heap s"
    "memdump s' = memdump s" "num_memdump s' = num_memdump s" "used_memdump s' = used_memdump s"
    "first_registerdump s' = first_registerdump s" "register_heap s' = register_heap s"
    "arch s' = arch s" "tb_info_state.more s' = tb_info_state.more s" "mallocs s \<le> mallocs s'"
  using assms by (auto simp: tb_info_only_def)

section \<open>Recording a block\<close>

lemma bytesize_Some:
  "tb_insns tb \<noteq> [] \<Longrightarrow> calculate_bytesize_instructions tb =
     Some (insn_vaddr (last (tb_insns tb)) - insn_vaddr (hd (tb_insns tb)) + insn_size (last (tb_insns tb)))"
  by (simp add: calculate_bytesize_instructions_def last_conv_nth hd_conv_nth Suc_le_eq)

lemma bytesize_None: "tb_insns tb = [] \<Longrightarrow> calculate_bytesize_instructions tb = None"
  by (simp add: calculate_bytesize_instructions_def arr_get_def)

text \<open>The record of a block that was just translated.\<close>

definition block_msg :: "tb \<Rightarrow> tb_information_msg" where
  "block_msg tb =
     \<lparr>ti_base_address = tb_vaddr tb, ti_size = the (calculate_bytesize_instructions tb),
      ti_instruction_count = of_nat (length (tb_insns tb)), ti_num_of_exec = 0,
      ti_assembler = decode_assembler tb\<rparr>"

lemma add_tb_info_known:
  assumes "tb_refs s rs" "tb_lookup s (tb_vaddr tb) = Some r"
  shows "add_tb_info e tb s = Some (Some r, s)"
proof -
  obtain t where t: "tb_avl_root s = Some t" using assms(1) by (auto simp: tb_refs_def)
  with tb_find [OF assms(1) t] assms(2) show ?thesis by (simp add: add_tb_info_def)
qed

lemma add_tb_info_new:
  assumes "plenty e" "tb_refs s rs" "tb_lookup s (tb_vaddr tb) = None" "tb_insns tb \<noteq> []"
  shows "\<exists>s'. add_tb_info e tb s = Some (Some (mallocs s), s') \<and> tb_info_only s s' \<and>
    tb_refs s' (mallocs s # rs) \<and> (\<exists>n. tb_info_heap s' = (tb_info_heap s)(mallocs s \<mapsto> n) \<and>
      tb_info_msg n = block_msg tb \<and> tbi_base_address n = tb_vaddr tb)"
proof -
  let ?r = "mallocs s"
  obtain size where size: "calculate_bytesize_instructions tb = Some size"
    using bytesize_Some [OF assms(4)] by blast
  let ?n = "\<lparr>tbi_base_address = tb_vaddr tb, tbi_size = size,
      tbi_instruction_count = of_nat (length (tb_insns tb)),
      tbi_assembler = decode_assembler tb, tbi_num_of_exec = 0, tbi_next = tb_info_list s\<rparr>"
  let ?t = "s\<lparr>mallocs := Suc ?r, tb_info_heap := (tb_info_heap s)(?r \<mapsto> ?n), tb_info_list := Some ?r\<rparr>"
  obtain t where t: "tb_avl_root s = Some t" "avl_wf tb_comparison_func (tb_key s) t"
    "set (avl_items t) = set rs"
    using assms(2) by (auto simp: tb_refs_def)
  have ch: "chain tbi_next (tb_info_heap s) (tb_info_list s) rs" "below (tb_info_heap s) ?r"
    using assms(2) by (simp_all add: tb_refs_def)
  have r: "?r \<notin> set rs" "?r \<notin> dom (tb_info_heap s)"
    using ch by (auto simp: below_fresh domIff dest: chain_below)
  have keys: "d \<in> set (avl_items t) \<Longrightarrow> tb_key ?t d = tb_key s d" for d
    using r(1) t(3) by (auto simp: tb_key_def)
  have wf: "avl_wf tb_comparison_func (tb_key ?t) t" by (rule avl_wf_cong [OF t(2)]) (rule keys)
  have absent: "avl_lookup (tb_key ?t) t (tb_vaddr tb) = None"
    using assms(3) t(1) by (subst avl_lookup_cong [OF keys]) (simp_all add: tb_lookup_def)
  have key: "tb_key ?t ?r = Some (tb_vaddr tb)" by (simp add: tb_key_def)
  have m: "malloc e ?t = (Some (Suc ?r), ?t\<lparr>mallocs := Suc (Suc ?r)\<rparr>)"
    using assms(1) by (simp add: plenty_malloc)
  obtain t' where t': "avl_insert e (tb_key ?t) t ?r ?t = Some (None, t', ?t\<lparr>mallocs := Suc (Suc ?r)\<rparr>)"
    "avl_wf tb_comparison_func (tb_key ?t) t'" "set (avl_items t') = insert ?r (set rs)"
    using tb_order.insert_absent [OF wf _ _ key absent m] t(3) by auto
  let ?u = "?t\<lparr>mallocs := Suc (Suc ?r), tb_avl_root := Some t'\<rparr>"
  have ku: "tb_key ?u = tb_key ?t" by (simp add: tb_key_def fun_eq_iff)
  have refs: "tb_refs ?u (?r # rs)"
    unfolding tb_refs_def ku using ch r t'(2,3) by (auto simp: chain_frame intro: below_mono below_new)
  have "tb_lookup ?u (tb_vaddr tb) = Some ?r" unfolding tb_lookup_iff [OF refs] ku by (simp add: key)
  then have again: "avl_find (tb_key ?u) t' (tb_vaddr tb) = Some (Some ?r)"
    using tb_find [OF refs, of t'] by simp
  have "add_tb_info e tb s = Some (Some ?r, ?u)"
    using t(1) tb_find [OF assms(2) t(1), of "tb_vaddr tb"] assms(1,3) size t'(1) again
    by (simp add: add_tb_info_def plenty_malloc Let_def)
  moreover have "tb_info_only s ?u" by (simp add: tb_info_only_iff)
  moreover have "tb_info_msg ?n = block_msg tb" by (simp add: tb_info_msg_def block_msg_def size)
  ultimately show ?thesis using refs by (intro exI [of _ ?u]) auto
qed

text \<open>Both cases on the table: a block is entered the first time it is seen.\<close>

lemma add_tb_info_table:
  assumes "plenty e" "tb_refs s rs" "tb_insns tb \<noteq> []"
  shows "\<exists>r s' rs'. add_tb_info e tb s = Some (Some r, s') \<and> tb_info_only s s' \<and> tb_refs s' rs' \<and>
    tb_lookup s' (tb_vaddr tb) = Some r \<and>
    tb_table s' = (if tb_table s (tb_vaddr tb) = None then (tb_table s)(tb_vaddr tb \<mapsto> block_msg tb)
                   else tb_table s) \<and>
    (\<forall>a q. tb_lookup s a = Some q \<longrightarrow> tb_lookup s' a = Some q) \<and>
    (\<forall>q a. tb_key s q = Some a \<longrightarrow> tb_key s' q = Some a)"
proof (cases "tb_lookup s (tb_vaddr tb)")
  case (Some r)
  then have "tb_key s r = Some (tb_vaddr tb)" unfolding tb_lookup_iff [OF assms(2)] by simp
  with Some have "tb_table s (tb_vaddr tb) \<noteq> None" by (auto simp: tb_table_def tb_key_def)
  with add_tb_info_known [OF assms(2) Some] assms(2) Some show ?thesis by auto
next
  case None
  obtain s' n where s': "add_tb_info e tb s = Some (Some (mallocs s), s')" "tb_info_only s s'"
    "tb_refs s' (mallocs s # rs)" "tb_info_heap s' = (tb_info_heap s)(mallocs s \<mapsto> n)"
    "tb_info_msg n = block_msg tb" "tbi_base_address n = tb_vaddr tb"
    using add_tb_info_new [OF assms(1,2) None assms(3)] by blast
  have r: "mallocs s \<notin> set rs" using assms(2) by (auto simp: tb_refs_def dest: chain_below)
  have none: "tb_table s (tb_vaddr tb) = None" using None by (simp add: tb_table_def)
  have key: "tb_key s' q = (if q = mallocs s then Some (tb_vaddr tb) else tb_key s q)" for q
    by (simp add: tb_key_def s')
  have "tb_table s' a = ((tb_table s)(tb_vaddr tb \<mapsto> block_msg tb)) a" for a
  proof (cases "a = tb_vaddr tb")
    case True
    then have "tb_table s' a = Some (block_msg tb)"
      unfolding tb_table_iff [OF s'(3)] using s'(4-6) by auto
    then show ?thesis using True by simp
  next
    case False
    have "tb_table s' a = Some m \<longleftrightarrow> tb_table s a = Some m" for m
      unfolding tb_table_iff [OF s'(3)] tb_table_iff [OF assms(2)] using s'(4,6) r False by (auto, metis)
    then have "tb_table s' a = tb_table s a" by (metis not_None_eq)
    with False show ?thesis by simp
  qed
  then have "tb_table s' = (tb_table s)(tb_vaddr tb \<mapsto> block_msg tb)" by blast
  moreover have "tb_lookup s' (tb_vaddr tb) = Some (mallocs s)"
    unfolding tb_lookup_iff [OF s'(3)] by (simp add: key)
  moreover have "\<forall>a q. tb_lookup s a = Some q \<longrightarrow> tb_lookup s' a = Some q"
    unfolding tb_lookup_iff [OF s'(3)] tb_lookup_iff [OF assms(2)] using r by (auto simp: key)
  moreover have "tb_key s (mallocs s) = None"
    using assms(2) by (simp add: tb_refs_def tb_key_def below_fresh)
  then have "\<forall>q a. tb_key s q = Some a \<longrightarrow> tb_key s' q = Some a" by (auto simp: key)
  ultimately show ?thesis using s'(1-3) none by auto
qed

section \<open>The readout\<close>

lemma tb_refs_distinct_keys:
  assumes "tb_refs s rs"
  shows "distinct (map (\<lambda>r. tbi_base_address (the (tb_info_heap s r))) rs)"
proof -
  have "distinct rs" using assms by (auto simp: tb_refs_def dest: chain_distinct)
  moreover have "inj_on (\<lambda>r. tbi_base_address (the (tb_info_heap s r))) (set rs)"
  proof (rule inj_onI)
    fix q r assume "q \<in> set rs" "r \<in> set rs"
      "tbi_base_address (the (tb_info_heap s q)) = tbi_base_address (the (tb_info_heap s r))"
    then show "q = r"
      using tb_refs_live [OF assms] tb_lookup_iff [OF assms] by (metis option.sel option.inject)
  qed
  ultimately show ?thesis by (simp add: distinct_map)
qed

text \<open>The messages are exactly the entries of the table, one for each address.\<close>

lemma plugin_dump_tb_information_table:
  assumes "plenty e" "tb_refs s rs"
  shows "\<exists>k infos. mallocs s \<le> k \<and>
    plugin_dump_tb_information e msg s =
      Some (0, if rs = [] then msg else msg\<lparr>dm_tb_informations := infos\<rparr>, s\<lparr>mallocs := k\<rparr>) \<and>
    length infos = length rs \<and> distinct (map ti_base_address infos) \<and>
    tb_table s = map_of (map (\<lambda>m. (ti_base_address m, m)) infos)"
proof -
  let ?h = "tb_info_heap s"
  let ?m = "\<lambda>r. tb_info_msg (the (?h r))"
  let ?infos = "map ?m rs"
  have ch: "chain tbi_next ?h (tb_info_list s) rs" using assms(2) by (simp add: tb_refs_def)
  have dist: "distinct (map ti_base_address ?infos)"
    using tb_refs_distinct_keys [OF assms(2)] by (simp add: tb_info_msg_def comp_def)
  have "tb_table s a = Some m \<longleftrightarrow> map_of (map (\<lambda>m. (ti_base_address m, m)) ?infos) a = Some m" for a m
  proof -
    have "map_of (map (\<lambda>m. (ti_base_address m, m)) ?infos) a = Some m \<longleftrightarrow>
        (a, m) \<in> set (map (\<lambda>m. (ti_base_address m, m)) ?infos)"
      using dist by (intro map_of_eq_Some_iff) (simp add: comp_def)
    also have "\<dots> \<longleftrightarrow> tb_table s a = Some m"
    proof
      assume "(a, m) \<in> set (map (\<lambda>m. (ti_base_address m, m)) ?infos)"
      then obtain r where "r \<in> set rs" "m = ?m r" "a = ti_base_address (?m r)" by auto
      moreover obtain n where "?h r = Some n" using tb_refs_live [OF assms(2) \<open>r \<in> set rs\<close>] by blast
      ultimately show "tb_table s a = Some m"
        unfolding tb_table_iff [OF assms(2)] by (auto simp: tb_info_msg_def)
    next
      assume "tb_table s a = Some m"
      then obtain r n where "r \<in> set rs" "?h r = Some n" "tbi_base_address n = a" "m = tb_info_msg n"
        unfolding tb_table_iff [OF assms(2)] by blast
      then show "(a, m) \<in> set (map (\<lambda>m. (ti_base_address m, m)) ?infos)"
        by (auto simp: tb_info_msg_def intro!: image_eqI [of _ _ r])
    qed
    finally show ?thesis by simp
  qed
  then have table: "tb_table s = map_of (map (\<lambda>m. (ti_base_address m, m)) ?infos)"
    by (metis (no_types, lifting) ext not_None_eq)
  show ?thesis
  proof (cases rs)
    case Nil
    then have "plugin_dump_tb_information e msg s = Some (0, msg, s\<lparr>mallocs := mallocs s\<rparr>)"
      using walk_count [OF ch] by (simp add: plugin_dump_tb_information_def get_tb_info_list_size_def)
    with Nil table dist show ?thesis by (intro exI [of _ "mallocs s"] exI [of _ ?infos]) simp
  next
    case (Cons r ts)
    let ?s = "s\<lparr>mallocs := Suc (mallocs s)\<rparr>"
    have "walk_until tbi_next ?h
        (\<lambda>r item (s, infos). case malloc e s of (None, s) \<Rightarrow> Some (Inl s)
           | (Some _, s) \<Rightarrow> Some (Inr (s, infos @ [tb_info_msg item]))) (tb_info_list s) (?s, []) =
      Some (Inr (fold (\<lambda>r (s, ms). (s\<lparr>mallocs := mallocs s + 1\<rparr>, ms @ [?m r])) rs (?s, [])))"
      using assms(1) by (intro walk_until_chain [OF ch]) (auto simp: plenty_malloc)
    then have "plugin_dump_tb_information e msg s =
        Some (0, msg\<lparr>dm_tb_informations := ?infos\<rparr>, s\<lparr>mallocs := Suc (mallocs s) + length rs\<rparr>)"
      using walk_count [OF ch] assms(1) Cons unfolding fold_emit
      by (simp add: plugin_dump_tb_information_def get_tb_info_list_size_def plenty_malloc)
    with Cons table dist show ?thesis
      by (intro exI [of _ "Suc (mallocs s) + length rs"] exI [of _ ?infos]) simp
  qed
qed

text \<open>The tree is empty after its creation.\<close>

lemma tb_info_avl_init_refs:
  assumes "plenty e" "tb_info_list s = None" "below (tb_info_heap s) (mallocs s)"
  shows "\<exists>s'. tb_info_avl_init e s = (0, s') \<and> tb_info_only s s' \<and> tb_refs s' [] \<and> tb_table s' = Map.empty"
proof -
  let ?t = "\<lparr>avl_root = Leaf, avl_compare = tb_comparison_func, avl_count = 0, avl_generation = 0\<rparr>"
  let ?s' = "s\<lparr>mallocs := Suc (mallocs s), tb_avl_root := Some ?t\<rparr>"
  have "tb_refs ?s' []"
    using assms(2,3) by (auto simp: tb_refs_def avl_wf_def intro: below_mono)
  moreover have "tb_table ?s' = Map.empty"
    by (simp add: tb_table_def tb_lookup_def avl_lookup_def fun_eq_iff)
  moreover have "tb_info_only s ?s'" by (simp add: tb_info_only_iff)
  moreover have "tb_info_avl_init e s = (0, ?s')"
    using assms(1) by (simp add: tb_info_avl_init_def avl_create_def plenty_malloc)
  ultimately show ?thesis by auto
qed

lemma tb_info_free_refs:
  assumes "tb_refs s rs"
  shows "tb_info_free s = Some (s\<lparr>tb_info_heap := tb_info_heap s |` (- set rs), tb_info_list := None,
    tb_avl_root := None\<rparr>)"
  using assms by (auto simp: tb_info_free_def tb_refs_def free_chain_frees)

section \<open>Reading the addresses of the assembler text back\<close>

fun digit_value :: "char \<Rightarrow> nat" where
  "digit_value c =
     (if CHR ''0'' \<le> c \<and> c \<le> CHR ''9'' then of_char c - of_char (CHR ''0'')
      else of_char c - of_char (CHR ''a'') + 10)"

definition parse_hex :: "string \<Rightarrow> nat" where
  "parse_hex cs = foldl (\<lambda>n c. 16 * n + digit_value c) 0 (dropWhile (\<lambda>c. c = CHR '' '') cs)"

lemma digit_value_hex:
  "d < 16 \<Longrightarrow> digit_value (''0123456789abcdef'' ! d) = d \<and> CHR '' '' \<noteq> ''0123456789abcdef'' ! d"
proof -
  assume "d < 16"
  then have "d \<in> set [0..<16]" by simp
  moreover have "\<forall>d \<in> set [0..<16]. digit_value (''0123456789abcdef'' ! d) = d \<and>
      CHR '' '' \<noteq> ''0123456789abcdef'' ! d"
    by code_simp
  ultimately show ?thesis by blast
qed

lemma hex_digits_value:
  "foldl (\<lambda>n c. 16 * n + digit_value c) 0 (hex_digits n) = n \<and> CHR '' '' \<notin> set (hex_digits n) \<and> hex_digits n \<noteq> []"
proof (induction n rule: hex_digits.induct)
  case (1 n)
  show ?case
  proof (cases "n < 16")
    case True
    with digit_value_hex [OF True] show ?thesis
      by (subst (1 2 3) hex_digits.simps) (simp del: digit_value.simps)
  next
    case False
    have d: "n mod 16 < 16" by simp
    show ?thesis
      using 1 [OF False] digit_value_hex [OF d] False
      by (subst (1 2 3) hex_digits.simps) (simp del: digit_value.simps)
  qed
qed


end
