(* ===== verification/TbExec.thy ===== *)
theory TbExec
  imports TbInfo
begin

text \<open>
  \<^verbatim>\<open>faultplugin/tb_exec_data_collection.c\<close>: the order in which translated blocks are executed, kept
  either completely in a doubly linked list or, for the last hundred blocks, in a ring buffer.
\<close>

section \<open>Data\<close>

record tb_exec_order =
  teo_tb_info :: "ref option"
  teo_prev :: "ref option"
  teo_next :: "ref option"

record tb_exec_rb_element =
  rb_tb_info :: "ref option"
  rb_pos :: u64

text \<open>
  An element of the ring buffer that was not written yet is \<open>None\<close>.  The index runs from 0 to 99.
\<close>

record 'g tb_exec_state = "'g tb_info_state" +
  tb_exec_order_ring_buffer :: int
  tb_exec_order_list :: "ref option"
  tb_exec_heap :: "ref \<rightharpoonup> tb_exec_order"
  num_exec_order :: u64
  tb_exec_rb_list :: "tb_exec_rb_element option list option"
  tb_exec_rb_list_index :: nat

interpretation tb_exec_cell: linked_cell teo_prev "\<lambda>p. teo_prev_update (\<lambda>_. p)"
  by unfold_locales simp

definition TB_EXEC_RB_SIZE :: nat where "TB_EXEC_RB_SIZE = 100"

section \<open>Operations\<close>

definition tb_exec_order_init ::
  "'g env \<Rightarrow> ('g, 'z) tb_exec_state_scheme \<Rightarrow> int \<times> ('g, 'z) tb_exec_state_scheme" where
  "tb_exec_order_init e s =
     (let s = s\<lparr>tb_exec_order_list := None, num_exec_order := 0\<rparr> in
      if tb_exec_order_ring_buffer s \<noteq> 0 then
        (case malloc e (s\<lparr>tb_exec_rb_list_index := 0\<rparr>) of
           (None, s) \<Rightarrow> (-1, s\<lparr>tb_exec_rb_list := None\<rparr>)
         | (Some _, s) \<Rightarrow> (0, s\<lparr>tb_exec_rb_list := Some (replicate TB_EXEC_RB_SIZE None)\<rparr>))
      else (0, s))"

text \<open>The freed ring buffer is not used any more; the pointer is recorded as gone.\<close>

definition tb_exec_order_free ::
  "('g, 'z) tb_exec_state_scheme \<Rightarrow> ('g, 'z) tb_exec_state_scheme option" where
  "tb_exec_order_free s = do {
     h \<leftarrow> free_chain teo_prev (tb_exec_order_list s) (tb_exec_heap s);
     let s = s\<lparr>tb_exec_heap := h, tb_exec_order_list := None\<rparr>;
     Some (if tb_exec_order_ring_buffer s \<noteq> 0 \<and> tb_exec_rb_list s \<noteq> None
           then s\<lparr>tb_exec_rb_list := None\<rparr> else s)
   }"

text \<open>The address reported for an entry: 0 without a record.\<close>

definition exec_address :: "('g, 'z) tb_info_state_scheme \<Rightarrow> ref option \<Rightarrow> u64 option" where
  "exec_address s p = (case p of None \<Rightarrow> Some 0 | Some r \<Rightarrow> tb_key s r)"

text \<open>The loop over the ring buffer, with the number of rounds that are left.\<close>

fun dump_ring ::
  "'g env \<Rightarrow> tb_exec_rb_element option list \<Rightarrow> nat \<Rightarrow> nat \<Rightarrow> tb_exec_order_msg list \<Rightarrow>
   ('g, 'z) tb_exec_state_scheme \<Rightarrow>
   (('g, 'z) tb_exec_state_scheme + ('g, 'z) tb_exec_state_scheme \<times> tb_exec_order_msg list) option" where
  "dump_ring e v 0 i orders s = Some (Inr (s, orders))"
| "dump_ring e v (Suc k) i orders s =
     (case malloc e s of
        (None, s) \<Rightarrow> Some (Inl s)
      | (Some _, s) \<Rightarrow> do {
          slot \<leftarrow> arr_get v i;
          element \<leftarrow> slot;
          a \<leftarrow> exec_address s (rb_tb_info element);
          dump_ring e v k (if i + 1 = TB_EXEC_RB_SIZE then 0 else i + 1)
            (orders @ [\<lparr>teo_tb_base_address = a, teo_pos = rb_pos element\<rparr>]) s
        })"

definition dump_list_step ::
  "'g env \<Rightarrow> nat \<Rightarrow> tb_exec_order \<Rightarrow> ('g, 'z) tb_exec_state_scheme \<times> tb_exec_order_msg list \<Rightarrow>
   (('g, 'z) tb_exec_state_scheme + ('g, 'z) tb_exec_state_scheme \<times> tb_exec_order_msg list) option" where
  "dump_list_step e n item = (\<lambda>(s, orders).
     if length orders < n then
       (case malloc e s of
          (None, s) \<Rightarrow> Some (Inl s)
        | (Some _, s) \<Rightarrow> do {
            a \<leftarrow> exec_address s (teo_tb_info item);
            Some (Inr (s, orders @ [\<lparr>teo_tb_base_address = a, teo_pos = of_nat (length orders)\<rparr>]))
          })
     else None)"

text \<open>
  The list is followed through \<^verbatim>\<open>prev\<close> to its oldest entry and then read through \<^verbatim>\<open>next\<close> into an array of
  \<^verbatim>\<open>num_exec_order\<close> elements (writing past it is \<open>None\<close>).
\<close>

definition plugin_dump_tb_exec_order ::
  "'g env \<Rightarrow> data_msg \<Rightarrow> ('g, 'z) tb_exec_state_scheme \<Rightarrow>
   (int \<times> data_msg \<times> ('g, 'z) tb_exec_state_scheme) option" where
  "plugin_dump_tb_exec_order e msg s =
     (if num_exec_order s = 0 then Some (0, msg\<lparr>dm_tb_exec_orders := []\<rparr>, s)
      else
        (case malloc e s of
           (None, s) \<Rightarrow> Some (-1, msg, s)
         | (Some _, s) \<Rightarrow> do {
             res \<leftarrow>
               (if tb_exec_order_ring_buffer s \<noteq> 0 then do {
                  v \<leftarrow> tb_exec_rb_list s;
                  let n = unat (num_exec_order s);
                  (if TB_EXEC_RB_SIZE \<le> n
                   then dump_ring e v TB_EXEC_RB_SIZE (tb_exec_rb_list_index s) [] s
                   else dump_ring e v n 0 [] s)
                } else do {
                  item \<leftarrow> seek teo_prev (tb_exec_heap s) (\<lambda>n. teo_prev n = None) (tb_exec_order_list s);
                  first \<leftarrow> item;
                  walk_until teo_next (tb_exec_heap s)
                    (\<lambda>_. dump_list_step e (unat (num_exec_order s))) (Some first) (s, [])
                });
             Some (case res of
                     Inl s \<Rightarrow> (-1, msg, s)
                   | Inr (s, orders) \<Rightarrow> (0, msg\<lparr>dm_tb_exec_orders := orders\<rparr>, s))
           }))"

text \<open>
  The entry for an execution.  The \<^verbatim>\<open>malloc\<close> of a list entry is not checked.
\<close>

definition log_execution ::
  "'g env \<Rightarrow> ref option \<Rightarrow> ('g, 'z) tb_exec_state_scheme \<Rightarrow> ('g, 'z) tb_exec_state_scheme option" where
  "log_execution e tb_info s = do {
     s \<leftarrow> (if tb_exec_order_ring_buffer s \<noteq> 0 then do {
             v \<leftarrow> tb_exec_rb_list s;
             v \<leftarrow> arr_set v (tb_exec_rb_list_index s)
                    (Some \<lparr>rb_tb_info = tb_info, rb_pos = num_exec_order s\<rparr>);
             let i = tb_exec_rb_list_index s + 1;
             Some (s\<lparr>tb_exec_rb_list := Some v,
                     tb_exec_rb_list_index := (if i = TB_EXEC_RB_SIZE then 0 else i)\<rparr>)
           } else
             (case malloc e s of
                (None, s) \<Rightarrow> None
              | (Some new, s) \<Rightarrow> do {
                  h \<leftarrow> (case tb_exec_order_list s of
                          None \<Rightarrow> Some (tb_exec_heap s)
                        | Some q \<Rightarrow> do {
                            m \<leftarrow> tb_exec_heap s q;
                            Some ((tb_exec_heap s)(q \<mapsto> m\<lparr>teo_next := Some new\<rparr>))
                          });
                  Some (s\<lparr>tb_exec_heap := h(new \<mapsto>
                            \<lparr>teo_tb_info = tb_info, teo_prev = tb_exec_order_list s, teo_next = None\<rparr>),
                          tb_exec_order_list := Some new\<rparr>)
                }));
     Some (s\<lparr>num_exec_order := num_exec_order s + 1\<rparr>)
   }"

text \<open>The callback run before a block is executed.\<close>

definition tb_exec_data_event ::
  "'g env \<Rightarrow> ref option \<Rightarrow> ('g, 'z) tb_exec_state_scheme \<Rightarrow> ('g, 'z) tb_exec_state_scheme option" where
  "tb_exec_data_event e vcurrent s = do {
     s \<leftarrow> (case vcurrent of
             None \<Rightarrow> Some s
           | Some r \<Rightarrow> do {
               n \<leftarrow> tb_info_heap s r;
               Some (s\<lparr>tb_info_heap := (tb_info_heap s)(r \<mapsto> n\<lparr>tbi_num_of_exec := tbi_num_of_exec n + 1\<rparr>)\<rparr>)
             });
     log_execution e vcurrent s
   }"

section \<open>Frame\<close>

text \<open>The collection of execution data leaves the other components alone.\<close>

definition exec_only :: "('g, 'z) tb_exec_state_scheme \<Rightarrow> ('g, 'z) tb_exec_state_scheme \<Rightarrow> bool" where
  "exec_only s s' \<longleftrightarrow>
     mallocs s \<le> mallocs s' \<and> guest s' = guest s \<and> cbs s' = cbs s \<and>
     req_singlestep s' = req_singlestep s \<and>
     first_fault s' = first_fault s \<and> fault_heap s' = fault_heap s \<and>
     memdump s' = memdump s \<and> num_memdump s' = num_memdump s \<and> used_memdump s' = used_memdump s \<and>
     first_registerdump s' = first_registerdump s \<and> register_heap s' = register_heap s \<and>
     arch s' = arch s \<and> tb_exec_order_ring_buffer s' = tb_exec_order_ring_buffer s \<and>
     tb_exec_state.more s' = tb_exec_state.more s"

lemma exec_only_trans: "exec_only s t \<Longrightarrow> exec_only t u \<Longrightarrow> exec_only s u"
  by (simp add: exec_only_def)

section \<open>Counting executions\<close>

lemma tb_key_count:
  "tb_info_heap s r = Some n \<Longrightarrow> tb_info_heap s' = (tb_info_heap s)(r \<mapsto> n\<lparr>tbi_num_of_exec := c\<rparr>) \<Longrightarrow>
   tb_key s' = tb_key s"
  by (auto simp: tb_key_def fun_eq_iff)

lemma tb_refs_count:
  assumes "tb_refs s rs" "tb_info_heap s r = Some n"
    and "tb_info_heap s' = (tb_info_heap s)(r \<mapsto> n\<lparr>tbi_num_of_exec := c\<rparr>)"
    and "tb_info_list s' = tb_info_list s" "tb_avl_root s' = tb_avl_root s" "mallocs s \<le> mallocs s'"
  shows "tb_refs s' rs"
  using assms by (intro tb_refs_same_keys [OF assms(1)] tb_key_count) (auto simp: tb_key_count)

lemma tb_table_count:
  assumes "tb_refs s rs" "tb_lookup s a = Some r" "tb_info_heap s r = Some n"
    and "tb_info_heap s' = (tb_info_heap s)(r \<mapsto> n\<lparr>tbi_num_of_exec := c\<rparr>)" "tb_avl_root s' = tb_avl_root s"
  shows "tb_table s' = (tb_table s)(a \<mapsto> (tb_info_msg n)\<lparr>ti_num_of_exec := c\<rparr>)"
    and "tb_table s a = Some (tb_info_msg n)" and "tb_lookup s' = tb_lookup s"
proof -
  have lk: "tb_lookup s' = tb_lookup s"
    using tb_key_count [OF assms(3,4)] assms(5) unfolding tb_lookup_def
    by (intro ext) (simp split: option.split)
  show "tb_table s a = Some (tb_info_msg n)" using assms(2,3) by (simp add: tb_table_def)
  show "tb_lookup s' = tb_lookup s" by (rule lk)
  have "b \<noteq> a \<Longrightarrow> tb_lookup s b \<noteq> Some r" for b
    using assms(2) unfolding tb_lookup_iff [OF assms(1)] by auto
  then show "tb_table s' = (tb_table s)(a \<mapsto> (tb_info_msg n)\<lparr>ti_num_of_exec := c\<rparr>)"
    using assms(2-4) lk
    by (auto simp: tb_table_def fun_eq_iff tb_info_msg_def split: option.splits)
qed

section \<open>The doubly linked list\<close>

text \<open>Entries \<open>rs\<close>, oldest first.\<close>

definition exec_refs :: "('g, 'z) tb_exec_state_scheme \<Rightarrow> ref list \<Rightarrow> bool" where
  "exec_refs s rs \<longleftrightarrow>
     chain teo_prev (tb_exec_heap s) (tb_exec_order_list s) (rev rs) \<and>
     chain teo_next (tb_exec_heap s) (case rs of [] \<Rightarrow> None | r # _ \<Rightarrow> Some r) rs \<and>
     below (tb_exec_heap s) (mallocs s)"

lemma exec_refs_empty:
  "tb_exec_order_list s = None \<Longrightarrow> below (tb_exec_heap s) (mallocs s) \<Longrightarrow> exec_refs s []"
  by (simp add: exec_refs_def)

lemma exec_refs_mono:
  "exec_refs s rs \<Longrightarrow> tb_exec_heap s' = tb_exec_heap s \<Longrightarrow>
   tb_exec_order_list s' = tb_exec_order_list s \<Longrightarrow> mallocs s \<le> mallocs s' \<Longrightarrow> exec_refs s' rs"
  by (auto simp: exec_refs_def elim: below_mono)

text \<open>Appending an entry behind the newest one.\<close>

lemma exec_refs_append:
  assumes "exec_refs s rs" "r = mallocs s"
    and "case tb_exec_order_list s of None \<Rightarrow> h = tb_exec_heap s
         | Some q \<Rightarrow> \<exists>m. tb_exec_heap s q = Some m \<and> h = (tb_exec_heap s)(q \<mapsto> m\<lparr>teo_next := Some r\<rparr>)"
    and "tb_exec_heap s' = h(r \<mapsto> \<lparr>teo_tb_info = p, teo_prev = tb_exec_order_list s, teo_next = None\<rparr>)"
    and "tb_exec_order_list s' = Some r" "mallocs s' = Suc (mallocs s)"
  shows "exec_refs s' (rs @ [r]) \<and> r \<notin> set rs \<and>
    (\<forall>q \<in> set rs. map_option teo_tb_info (tb_exec_heap s' q) = map_option teo_tb_info (tb_exec_heap s q))"
proof -
  have ch: "chain teo_prev (tb_exec_heap s) (tb_exec_order_list s) (rev rs)"
    "chain teo_next (tb_exec_heap s) (case rs of [] \<Rightarrow> None | r # _ \<Rightarrow> Some r) rs"
    "below (tb_exec_heap s) (mallocs s)"
    using assms(1) by (simp_all add: exec_refs_def)
  have r: "r \<notin> set rs" "r \<notin> dom (tb_exec_heap s)"
    using ch assms(2) by (auto simp: below_fresh domIff dest: chain_below)
  show ?thesis
  proof (cases "tb_exec_order_list s")
    case None
    then have "rs = []" using ch(1) by (cases "rev rs") auto
    with None assms(2-6) ch(3) show ?thesis by (auto simp: exec_refs_def below_new)
  next
    case (Some q)
    then obtain xs where rs: "rs = xs @ [q]" using ch(1) by (cases rs rule: rev_cases) auto
    obtain m where m: "tb_exec_heap s q = Some m" "h = (tb_exec_heap s)(q \<mapsto> m\<lparr>teo_next := Some r\<rparr>)"
      using assms(3) Some by auto
    let ?h = "(tb_exec_heap s)(q \<mapsto> m\<lparr>teo_next := Some r\<rparr>,
        r \<mapsto> \<lparr>teo_tb_info = p, teo_prev = tb_exec_order_list s, teo_next = None\<rparr>)"
    have h: "tb_exec_heap s' = ?h" using assms(4) m by simp
    have "chain teo_prev ((tb_exec_heap s)(q \<mapsto> m\<lparr>teo_next := Some r\<rparr>)) (Some q) (rev rs)"
      using ch(1) Some m(1) by (simp add: chain_same_next)
    then have "chain teo_prev ?h (Some r) (r # rev rs)"
      using r Some m(1) by (intro chain_grow) auto
    moreover have "chain teo_next ?h (case rs of [] \<Rightarrow> None | r # _ \<Rightarrow> Some r) (xs @ [q, r])"
      using ch(2) r m(1) rs by (intro chain_snoc [where n = m]) simp_all
    moreover have "below ?h (Suc (mallocs s))"
      unfolding assms(2) by (rule below_new [OF below_write [OF ch(3) m(1)]])
    moreover have "(case rs of [] \<Rightarrow> None | r # _ \<Rightarrow> Some r) =
        (case rs @ [r] of [] \<Rightarrow> None | r # _ \<Rightarrow> Some r)"
      unfolding rs by (cases xs) simp_all
    ultimately show ?thesis
      using r m(1) rs by (auto simp: exec_refs_def h assms(5,6))
  qed
qed

text \<open>Seeking through \<^verbatim>\<open>prev\<close> from the newest entry finds the oldest.\<close>

lemma seek_oldest:
  assumes "exec_refs s (r # rs)"
  shows "seek teo_prev (tb_exec_heap s) (\<lambda>n. teo_prev n = None) (tb_exec_order_list s) = Some (Some r)"
proof -
  have ends: "chain nx h p (xs @ [r]) \<Longrightarrow> (\<forall>x \<in> set xs. nx (the (h x)) \<noteq> None) \<and> nx (the (h r)) = None"
    for nx :: "tb_exec_order \<Rightarrow> ref option" and h p xs r
  proof (induction xs arbitrary: p)
    case Nil
    then show ?case by (auto split: option.splits)
  next
    case (Cons x xs)
    then obtain n where n: "h x = Some n" "chain nx h (nx n) (xs @ [r])" by (auto split: option.splits)
    then have "nx n \<noteq> None" by (cases xs) auto
    with Cons.IH [OF n(2)] n(1) show ?case by simp
  qed
  have ch: "chain teo_prev (tb_exec_heap s) (tb_exec_order_list s) (rev rs @ [r])"
    using assms by (simp add: exec_refs_def)
  have "List.find (\<lambda>r. teo_prev (the (tb_exec_heap s r)) = None) (rev rs) = None"
    using ends [OF ch] by (simp add: find_None_iff)
  with ends [OF ch] show ?thesis by (simp add: seek_chain [OF ch] find_append)
qed

section \<open>The execution log\<close>

text \<open>
  The log holds the addresses of the executed blocks, oldest first (0 for a block without record).
  \<open>exec_log s as\<close>: the state represents the log \<open>as\<close>, completely in the list or its last hundred
  entries in the ring buffer, at the positions after the index.
\<close>

definition list_log :: "('g, 'z) tb_exec_state_scheme \<Rightarrow> u64 list \<Rightarrow> bool" where
  "list_log s as \<longleftrightarrow>
     (\<exists>rs. exec_refs s rs \<and>
        list_all2 (\<lambda>r a. exec_address s (teo_tb_info (the (tb_exec_heap s r))) = Some a) rs as)"

definition ring_log :: "('g, 'z) tb_exec_state_scheme \<Rightarrow> u64 list \<Rightarrow> bool" where
  "ring_log s as \<longleftrightarrow>
     (\<exists>v. tb_exec_rb_list s = Some v \<and> length v = 100 \<and>
        tb_exec_rb_list_index s = length as mod 100 \<and>
        (\<forall>i < length as. length as \<le> i + 100 \<longrightarrow>
           (\<exists>p. v ! (i mod 100) = Some \<lparr>rb_tb_info = p, rb_pos = of_nat i\<rparr> \<and>
                exec_address s p = Some (as ! i))))"

definition exec_log :: "('g, 'z) tb_exec_state_scheme \<Rightarrow> u64 list \<Rightarrow> bool" where
  "exec_log s as \<longleftrightarrow>
     num_exec_order s = of_nat (length as) \<and>
     (if tb_exec_order_ring_buffer s \<noteq> 0 then ring_log s as else list_log s as)"

lemma tb_exec_order_init_log:
  assumes "plenty e" "below (tb_exec_heap s) (mallocs s)"
  shows "\<exists>s'. tb_exec_order_init e s = (0, s') \<and> exec_only s s' \<and> exec_log s' [] \<and>
    tb_info_list s' = tb_info_list s \<and> tb_info_heap s' = tb_info_heap s \<and> tb_avl_root s' = tb_avl_root s"
proof (cases "tb_exec_order_ring_buffer s = 0")
  case True
  let ?s' = "s\<lparr>tb_exec_order_list := None, num_exec_order := 0\<rparr>"
  have "exec_log ?s' []"
    using True assms(2) exec_refs_empty [of ?s'] by (auto simp: exec_log_def list_log_def)
  with True show ?thesis by (intro exI [of _ ?s']) (simp add: tb_exec_order_init_def exec_only_def)
next
  case False
  let ?s' = "s\<lparr>tb_exec_order_list := None, num_exec_order := 0, tb_exec_rb_list_index := 0,
              mallocs := Suc (mallocs s), tb_exec_rb_list := Some (replicate 100 None)\<rparr>"
  have "exec_log ?s' []" using False by (simp add: exec_log_def ring_log_def)
  with False assms(1) show ?thesis
    by (intro exI [of _ ?s']) (simp add: tb_exec_order_init_def exec_only_def plenty_malloc TB_EXEC_RB_SIZE_def)
qed

lemma exec_address_cong: "tb_info_heap s' = tb_info_heap s \<Longrightarrow> exec_address s' = exec_address s"
  by (simp add: exec_address_def tb_key_def fun_eq_iff split: option.split)

lemma exec_address_frame [simp]:
  "exec_address (s\<lparr>mallocs := k\<rparr>) = exec_address s"
  "exec_address (t\<lparr>tb_exec_heap := h\<rparr>) = exec_address t"
  "exec_address (t\<lparr>tb_exec_order_list := l\<rparr>) = exec_address t"
  "exec_address (t\<lparr>num_exec_order := n\<rparr>) = exec_address t"
  "exec_address (t\<lparr>tb_exec_rb_list := v\<rparr>) = exec_address t"
  "exec_address (t\<lparr>tb_exec_rb_list_index := i\<rparr>) = exec_address t"
  by (rule exec_address_cong, simp)+

text \<open>Recording new blocks keeps the log.\<close>

lemma exec_address_mono:
  "exec_address s p = Some a \<Longrightarrow> (\<And>r b. tb_key s r = Some b \<Longrightarrow> tb_key s' r = Some b) \<Longrightarrow>
   exec_address s' p = Some a"
  by (auto simp: exec_address_def split: option.splits)

lemma exec_log_mono:
  assumes "exec_log s as" "\<And>r b. tb_key s r = Some b \<Longrightarrow> tb_key s' r = Some b"
    and "tb_info_only s s'"
  shows "exec_log s' as"
proof -
  have f: "tb_exec_heap s' = tb_exec_heap s" "tb_exec_order_list s' = tb_exec_order_list s"
    "num_exec_order s' = num_exec_order s" "tb_exec_rb_list s' = tb_exec_rb_list s"
    "tb_exec_rb_list_index s' = tb_exec_rb_list_index s"
    "tb_exec_order_ring_buffer s' = tb_exec_order_ring_buffer s" "mallocs s \<le> mallocs s'"
    using assms(3) by (auto simp: tb_info_only_def)
  show ?thesis
  proof (cases "tb_exec_order_ring_buffer s = 0")
    case True
    then obtain rs where rs: "exec_refs s rs"
      "list_all2 (\<lambda>r a. exec_address s (teo_tb_info (the (tb_exec_heap s r))) = Some a) rs as"
      using assms(1) by (auto simp: exec_log_def list_log_def)
    have "exec_refs s' rs" using rs(1) f by (rule_tac exec_refs_mono) simp_all
    moreover have "list_all2 (\<lambda>r a. exec_address s' (teo_tb_info (the (tb_exec_heap s' r))) = Some a) rs as"
      unfolding f by (rule list_all2_mono [OF rs(2)]) (rule exec_address_mono [OF _ assms(2)])
    ultimately show ?thesis using assms(1) True f by (auto simp: exec_log_def list_log_def)
  next
    case False
    with assms(1) f show ?thesis
      unfolding exec_log_def ring_log_def by (fastforce intro: exec_address_mono [OF _ assms(2)])
  qed
qed

lemma of_nat_u64_Suc: "(of_nat n :: u64) + 1 = of_nat (Suc n)"
  by simp

text \<open>One execution appends to the log.\<close>

lemma list_log_append:
  assumes "list_log s as"
    and "exec_address s' p = Some a"
    and "\<And>q b. exec_address s q = Some b \<Longrightarrow> exec_address s' q = Some b"
    and "case tb_exec_order_list s of None \<Rightarrow> h = tb_exec_heap s
         | Some q \<Rightarrow> \<exists>m. tb_exec_heap s q = Some m \<and> h = (tb_exec_heap s)(q \<mapsto> m\<lparr>teo_next := Some (mallocs s)\<rparr>)"
    and "tb_exec_heap s' = h(mallocs s \<mapsto> \<lparr>teo_tb_info = p, teo_prev = tb_exec_order_list s, teo_next = None\<rparr>)"
    and "tb_exec_order_list s' = Some (mallocs s)" "mallocs s' = Suc (mallocs s)"
  shows "list_log s' (as @ [a])"
proof -
  obtain rs where rs: "exec_refs s rs"
    "list_all2 (\<lambda>r a. exec_address s (teo_tb_info (the (tb_exec_heap s r))) = Some a) rs as"
    using assms(1) by (auto simp: list_log_def)
  have new: "exec_refs s' (rs @ [mallocs s])"
    "\<forall>q \<in> set rs. map_option teo_tb_info (tb_exec_heap s' q) = map_option teo_tb_info (tb_exec_heap s q)"
    using exec_refs_append [OF rs(1) refl assms(4-7)] by blast+
  have live: "r \<in> set rs \<Longrightarrow> \<exists>n. tb_exec_heap s r = Some n" for r
    using rs(1) unfolding exec_refs_def by (elim conjE) (rule chain_liveD [of teo_next])
  have "teo_tb_info (the (tb_exec_heap s' r)) = teo_tb_info (the (tb_exec_heap s r))" if "r \<in> set rs" for r
    using new(2) live [OF that] that by (metis (no_types, lifting) map_option_eq_Some option.sel)
  then have "list_all2 (\<lambda>r a. exec_address s' (teo_tb_info (the (tb_exec_heap s' r))) = Some a) rs as"
    using list.rel_mono_strong [OF rs(2)] assms(3) by fastforce
  moreover have "exec_address s' (teo_tb_info (the (tb_exec_heap s' (mallocs s)))) = Some a"
    using assms(2,5) by simp
  ultimately have "list_all2 (\<lambda>r a. exec_address s' (teo_tb_info (the (tb_exec_heap s' r))) = Some a)
      (rs @ [mallocs s]) (as @ [a])"
    by (simp add: list_all2_appendI)
  with new(1) show ?thesis unfolding list_log_def by blast
qed

lemma ring_log_append:
  assumes "ring_log s as" "exec_address s' p = Some a"
    and "\<And>q b. exec_address s q = Some b \<Longrightarrow> exec_address s' q = Some b"
    and "tb_exec_rb_list s = Some v"
    and "tb_exec_rb_list s' = Some (v[tb_exec_rb_list_index s :=
           Some \<lparr>rb_tb_info = p, rb_pos = of_nat (length as)\<rparr>])"
    and "tb_exec_rb_list_index s' =
           (if tb_exec_rb_list_index s + 1 = 100 then 0 else tb_exec_rb_list_index s + 1)"
  shows "ring_log s' (as @ [a])"
proof -
  have v: "length v = 100" "tb_exec_rb_list_index s = length as mod 100"
    "\<And>i. i < length as \<Longrightarrow> length as \<le> i + 100 \<Longrightarrow>
       \<exists>p. v ! (i mod 100) = Some \<lparr>rb_tb_info = p, rb_pos = of_nat i\<rparr> \<and> exec_address s p = Some (as ! i)"
    using assms(1,4) by (auto simp: ring_log_def)
  let ?v = "v[length as mod 100 := Some \<lparr>rb_tb_info = p, rb_pos = of_nat (length as)\<rparr>]"
  have "\<exists>p. ?v ! (i mod 100) = Some \<lparr>rb_tb_info = p, rb_pos = of_nat i\<rparr> \<and>
      exec_address s' p = Some ((as @ [a]) ! i)"
    if i: "i < Suc (length as)" "Suc (length as) \<le> i + 100" for i
  proof (cases "i = length as")
    case True
    then show ?thesis using v(1) assms(2) by simp
  next
    case False
    then have "i < length as" "length as \<le> i + 100" using i by simp_all
    moreover have "i mod 100 \<noteq> length as mod 100"
    proof
      assume "i mod 100 = length as mod 100"
      then have "(length as - i) mod 100 = 0"
        using \<open>i < length as\<close> by (metis less_or_eq_imp_le mod_eq_dvd_iff_nat dvd_imp_mod_0)
      with i False show False by auto
    qed
    ultimately show ?thesis using v(3) [of i] assms(3) by (auto simp: nth_append)
  qed
  moreover have "tb_exec_rb_list_index s' = Suc (length as) mod 100"
    using assms(6) v(2) by (simp add: mod_Suc)
  ultimately show ?thesis using assms(5) v(1,2) by (simp add: ring_log_def)
qed

lemma log_execution_log:
  assumes "plenty e" "exec_log s as" "exec_address s p = Some a"
  shows "\<exists>s'. log_execution e p s = Some s' \<and> exec_only s s' \<and> exec_log s' (as @ [a]) \<and>
    tb_info_list s' = tb_info_list s \<and> tb_info_heap s' = tb_info_heap s \<and> tb_avl_root s' = tb_avl_root s"
proof (cases "tb_exec_order_ring_buffer s = 0")
  case True
  let ?r = "mallocs s"
  have log: "list_log s as" "num_exec_order s = of_nat (length as)"
    using assms(2) True by (simp_all add: exec_log_def)
  then obtain rs where rs: "exec_refs s rs" by (auto simp: list_log_def)
  have "\<exists>h. (case tb_exec_order_list s of None \<Rightarrow> Some (tb_exec_heap s)
        | Some q \<Rightarrow> do { m \<leftarrow> tb_exec_heap s q; Some ((tb_exec_heap s)(q \<mapsto> m\<lparr>teo_next := Some ?r\<rparr>)) }) = Some h \<and>
      (case tb_exec_order_list s of None \<Rightarrow> h = tb_exec_heap s
         | Some q \<Rightarrow> \<exists>m. tb_exec_heap s q = Some m \<and> h = (tb_exec_heap s)(q \<mapsto> m\<lparr>teo_next := Some ?r\<rparr>))"
  proof (cases "tb_exec_order_list s")
    case (Some q)
    with rs obtain m where "tb_exec_heap s q = Some m"
      by (cases "rev rs") (auto simp: exec_refs_def split: option.splits)
    with Some show ?thesis by simp
  qed simp
  then obtain h where h: "(case tb_exec_order_list s of None \<Rightarrow> Some (tb_exec_heap s)
        | Some q \<Rightarrow> do { m \<leftarrow> tb_exec_heap s q; Some ((tb_exec_heap s)(q \<mapsto> m\<lparr>teo_next := Some ?r\<rparr>)) }) = Some h"
    "case tb_exec_order_list s of None \<Rightarrow> h = tb_exec_heap s
       | Some q \<Rightarrow> \<exists>m. tb_exec_heap s q = Some m \<and> h = (tb_exec_heap s)(q \<mapsto> m\<lparr>teo_next := Some ?r\<rparr>)"
    by blast
  let ?s' = "s\<lparr>mallocs := Suc ?r, tb_exec_heap := h(?r \<mapsto>
      \<lparr>teo_tb_info = p, teo_prev = tb_exec_order_list s, teo_next = None\<rparr>),
      tb_exec_order_list := Some ?r, num_exec_order := num_exec_order s + 1\<rparr>"
  have "list_log ?s' (as @ [a])"
    by (rule list_log_append [OF log(1) _ _ h(2), where p = p]) (simp_all add: assms(3))
  then have "exec_log ?s' (as @ [a])" using True log(2) by (simp add: exec_log_def)
  moreover have "log_execution e p s = Some ?s'"
    using True assms(1) h(1)
    by (cases "tb_exec_order_list s") (auto simp: log_execution_def plenty_malloc split: bind_splits)
  ultimately show ?thesis by (intro exI [of _ ?s']) (simp add: exec_only_def)
next
  case False
  have log: "ring_log s as" "num_exec_order s = of_nat (length as)"
    using assms(2) False by (simp_all add: exec_log_def)
  then obtain v where v: "tb_exec_rb_list s = Some v" "length v = 100"
    "tb_exec_rb_list_index s = length as mod 100"
    by (auto simp: ring_log_def)
  let ?i = "tb_exec_rb_list_index s + 1"
  let ?s' = "s\<lparr>tb_exec_rb_list := Some (v[tb_exec_rb_list_index s :=
        Some \<lparr>rb_tb_info = p, rb_pos = num_exec_order s\<rparr>]),
      tb_exec_rb_list_index := (if ?i = TB_EXEC_RB_SIZE then 0 else ?i),
      num_exec_order := num_exec_order s + 1\<rparr>"
  have "ring_log ?s' (as @ [a])"
    by (rule ring_log_append [OF log(1) _ _ v(1), where p = p])
      (simp_all add: assms(3) log(2) TB_EXEC_RB_SIZE_def)
  then have "exec_log ?s' (as @ [a])" using False log(2) by (simp add: exec_log_def)
  moreover have "log_execution e p s = Some ?s'"
    using False v by (simp add: log_execution_def Let_def)
  ultimately show ?thesis by (intro exI [of _ ?s']) (simp add: exec_only_def)
qed

text \<open>The table entry of an executed block.\<close>

definition count_execution ::
  "u64 option \<Rightarrow> (u64 \<rightharpoonup> tb_information_msg) \<Rightarrow> (u64 \<rightharpoonup> tb_information_msg)" where
  "count_execution ao tab =
     (case ao of
        None \<Rightarrow> tab
      | Some a \<Rightarrow> tab(a := map_option (\<lambda>m. m\<lparr>ti_num_of_exec := ti_num_of_exec m + 1\<rparr>) (tab a)))"

definition known_block :: "('g, 'z) tb_info_state_scheme \<Rightarrow> u64 option \<Rightarrow> bool" where
  "known_block s ao \<longleftrightarrow> (case ao of None \<Rightarrow> True | Some a \<Rightarrow> tb_lookup s a \<noteq> None)"

lemma tb_exec_data_event_log:
  assumes "plenty e" "tb_refs s rs" "exec_log s as" "known_block s ao"
  shows "\<exists>s'. tb_exec_data_event e (Option.bind ao (tb_lookup s)) s = Some s' \<and> exec_only s s' \<and>
    tb_refs s' rs \<and> tb_lookup s' = tb_lookup s \<and> tb_table s' = count_execution ao (tb_table s) \<and>
    exec_log s' (as @ [case ao of None \<Rightarrow> 0 | Some a \<Rightarrow> a])"
proof (cases ao)
  case None
  obtain s' where s': "log_execution e None s = Some s'" "exec_only s s'" "exec_log s' (as @ [0])"
    "tb_info_list s' = tb_info_list s" "tb_info_heap s' = tb_info_heap s" "tb_avl_root s' = tb_avl_root s"
    using log_execution_log [OF assms(1,3), of None 0] by (auto simp: exec_address_def)
  have key: "tb_key s' = tb_key s" by (simp add: tb_key_def fun_eq_iff s'(5))
  have "tb_refs s' rs"
    using s' key by (intro tb_refs_same_keys [OF assms(2)]) (simp_all add: exec_only_def)
  moreover have lk: "tb_lookup s' = tb_lookup s"
    using key s'(6) unfolding tb_lookup_def by (intro ext) (simp split: option.split)
  moreover have "tb_table s' = tb_table s" unfolding tb_table_def lk s'(5) ..
  ultimately show ?thesis using None s'(1-3) by (simp add: tb_exec_data_event_def count_execution_def)
next
  case (Some a)
  then obtain r where r: "tb_lookup s a = Some r" using assms(4) by (auto simp: known_block_def)
  then have key_r: "r \<in> set rs" "tb_key s r = Some a" unfolding tb_lookup_iff [OF assms(2)] by simp_all
  then obtain n where n: "tb_info_heap s r = Some n" using tb_refs_live [OF assms(2)] by blast
  let ?t = "s\<lparr>tb_info_heap := (tb_info_heap s)(r \<mapsto> n\<lparr>tbi_num_of_exec := tbi_num_of_exec n + 1\<rparr>)\<rparr>"
  have key: "tb_key ?t = tb_key s" by (rule tb_key_count [OF n]) simp
  have t: "tb_refs ?t rs" by (rule tb_refs_count [OF assms(2) n]) simp_all
  have tab: "tb_table ?t = (tb_table s)(a \<mapsto> (tb_info_msg n)\<lparr>ti_num_of_exec := tbi_num_of_exec n + 1\<rparr>)"
    "tb_table s a = Some (tb_info_msg n)" "tb_lookup ?t = tb_lookup s"
    using tb_table_count [OF assms(2) r n, of ?t] by simp_all
  have "exec_log ?t as"
    by (rule exec_log_mono [OF assms(3)]) (simp_all add: key tb_info_only_iff)
  moreover have "exec_address ?t (Some r) = Some a" by (simp add: exec_address_def key key_r(2))
  ultimately obtain s' where s': "log_execution e (Some r) ?t = Some s'" "exec_only ?t s'"
    "exec_log s' (as @ [a])" "tb_info_list s' = tb_info_list ?t" "tb_info_heap s' = tb_info_heap ?t"
    "tb_avl_root s' = tb_avl_root ?t"
    using log_execution_log [OF assms(1)] by blast
  have key': "tb_key s' = tb_key ?t" by (simp add: tb_key_def fun_eq_iff s'(5))
  have "tb_refs s' rs"
    using s' key' by (intro tb_refs_same_keys [OF t]) (simp_all add: exec_only_def)
  moreover have lk: "tb_lookup s' = tb_lookup ?t"
    using key' s'(6) unfolding tb_lookup_def by (intro ext) (simp split: option.split)
  moreover have "tb_table s' = tb_table ?t"
    unfolding tb_table_def lk s'(5) ..
  moreover have "tb_table ?t = count_execution ao (tb_table s)"
    using tab(1,2) Some by (simp add: count_execution_def tb_info_msg_def)
  moreover have "exec_only s s'" using s'(2) by (simp add: exec_only_def)
  ultimately show ?thesis using Some r n s'(1,3) tab(3) by (simp add: tb_exec_data_event_def)
qed

section \<open>The readout\<close>

text \<open>The messages for a log whose first entry has position \<open>k\<close>.\<close>

fun entries :: "nat \<Rightarrow> u64 list \<Rightarrow> tb_exec_order_msg list" where
  "entries k [] = []"
| "entries k (a # as) = \<lparr>teo_tb_base_address = a, teo_pos = of_nat k\<rparr> # entries (Suc k) as"

lemma dump_list_step_emits:
  "plenty e \<Longrightarrow> exec_address s (teo_tb_info item) = Some a \<Longrightarrow> length orders < n \<Longrightarrow>
   dump_list_step e n item (s, orders) =
     Some (Inr (s\<lparr>mallocs := Suc (mallocs s)\<rparr>,
       orders @ [\<lparr>teo_tb_base_address = a, teo_pos = of_nat (length orders)\<rparr>]))"
  by (simp add: dump_list_step_def plenty_malloc)

lemma dump_list_entries:
  assumes "plenty e"
  shows "chain teo_next h p rs \<Longrightarrow>
    list_all2 (\<lambda>r a. exec_address s (teo_tb_info (the (h r))) = Some a) rs as \<Longrightarrow>
    length orders + length rs \<le> n \<Longrightarrow>
    walk_until teo_next h (\<lambda>_. dump_list_step e n) p (s, orders) =
      Some (Inr (s\<lparr>mallocs := mallocs s + length rs\<rparr>, orders @ entries (length orders) as))"
proof (induction rs arbitrary: p as s orders)
  case Nil
  then show ?case by simp
next
  case (Cons r rs)
  obtain a bs where as: "as = a # bs" "exec_address s (teo_tb_info (the (h r))) = Some a"
    "list_all2 (\<lambda>r a. exec_address s (teo_tb_info (the (h r))) = Some a) rs bs"
    using Cons.prems(2) by (auto simp: list_all2_Cons1)
  obtain m where m: "h r = Some m" "chain teo_next h (teo_next m) rs" "p = Some r"
    using Cons.prems(1) by (auto split: option.splits)
  let ?orders = "orders @ [\<lparr>teo_tb_base_address = a, teo_pos = of_nat (length orders)\<rparr>]"
  have "walk_until teo_next h (\<lambda>_. dump_list_step e n) (teo_next m) (s\<lparr>mallocs := Suc (mallocs s)\<rparr>, ?orders) =
      Some (Inr (s\<lparr>mallocs := mallocs s + length (r # rs)\<rparr>, ?orders @ entries (length ?orders) bs))"
    using Cons.IH [OF m(2), of "s\<lparr>mallocs := Suc (mallocs s)\<rparr>" bs ?orders] as(3) Cons.prems(3) by simp
  then show ?case
    using m(1,3) as(1,2) assms Cons.prems(3) by (simp add: dump_list_step_emits)
qed

lemma dump_ring_entries:
  assumes "plenty e" "length v = 100"
  shows "i + m = length as \<Longrightarrow> m \<le> 100 \<Longrightarrow>
    (\<And>j. i \<le> j \<Longrightarrow> j < length as \<Longrightarrow>
       \<exists>p. v ! (j mod 100) = Some \<lparr>rb_tb_info = p, rb_pos = of_nat j\<rparr> \<and> exec_address s p = Some (as ! j)) \<Longrightarrow>
    dump_ring e v m (i mod 100) orders s =
      Some (Inr (s\<lparr>mallocs := mallocs s + m\<rparr>, orders @ entries i (drop i as)))"
proof (induction m arbitrary: i orders s)
  case 0
  then show ?case by simp
next
  case (Suc m)
  let ?s = "s\<lparr>mallocs := Suc (mallocs s)\<rparr>"
  obtain p where p: "v ! (i mod 100) = Some \<lparr>rb_tb_info = p, rb_pos = of_nat i\<rparr>"
    "exec_address s p = Some (as ! i)"
    using Suc.prems(3) [of i] Suc.prems(1) by auto
  have "(if i mod 100 + 1 = TB_EXEC_RB_SIZE then 0 else i mod 100 + 1) = Suc i mod 100"
    by (simp add: mod_Suc TB_EXEC_RB_SIZE_def)
  moreover have "drop i as = as ! i # drop (Suc i) as"
    using Suc.prems(1) by (simp add: Cons_nth_drop_Suc)
  moreover have "dump_ring e v m (Suc i mod 100) os ?s =
      Some (Inr (?s\<lparr>mallocs := mallocs ?s + m\<rparr>, os @ entries (Suc i) (drop (Suc i) as)))" for os
    by (rule Suc.IH) (use Suc.prems in \<open>auto\<close>)
  ultimately show ?case using assms p by (simp add: plenty_malloc)
qed

definition kept :: "int \<Rightarrow> u64 list \<Rightarrow> tb_exec_order_msg list" where
  "kept ring as = (let k = (if ring \<noteq> 0 then length as - 100 else 0) in entries k (drop k as))"

lemma plugin_dump_tb_exec_order_log:
  assumes "plenty e" "exec_log s as" "length as < 2 ^ 64"
  shows "\<exists>k. mallocs s \<le> k \<and> plugin_dump_tb_exec_order e msg s =
    Some (0, msg\<lparr>dm_tb_exec_orders := kept (tb_exec_order_ring_buffer s) as\<rparr>, s\<lparr>mallocs := k\<rparr>)"
proof -
  have n: "num_exec_order s = of_nat (length as)" "unat (num_exec_order s) = length as"
    using assms(2,3) by (simp_all add: exec_log_def unat_of_nat take_bit_nat_eq_self)
  let ?s = "s\<lparr>mallocs := Suc (mallocs s)\<rparr>"
  consider "as = []" | "as \<noteq> []" "tb_exec_order_ring_buffer s = 0"
    | "as \<noteq> []" "tb_exec_order_ring_buffer s \<noteq> 0" by blast
  then show ?thesis
  proof cases
    case 1
    then have "plugin_dump_tb_exec_order e msg s = Some (0, msg\<lparr>dm_tb_exec_orders := []\<rparr>, s)"
      using n by (simp add: plugin_dump_tb_exec_order_def)
    with 1 show ?thesis by (intro exI [of _ "mallocs s"]) (simp add: kept_def Let_def)
  next
    case 2
    then obtain rs where rs: "exec_refs s rs"
      "list_all2 (\<lambda>r a. exec_address s (teo_tb_info (the (tb_exec_heap s r))) = Some a) rs as"
      using assms(2) by (auto simp: exec_log_def list_log_def)
    then obtain r ts where r: "rs = r # ts" using 2(1) by (cases rs) auto
    have len: "length rs = length as" using rs(2) by (rule list_all2_lengthD)
    have ch: "chain teo_next (tb_exec_heap s) (Some r) rs" using rs(1) r by (simp add: exec_refs_def)
    have "walk_until teo_next (tb_exec_heap s) (\<lambda>_. dump_list_step e (length as)) (Some r) (?s, []) =
        Some (Inr (s\<lparr>mallocs := Suc (mallocs s) + length rs\<rparr>, entries 0 as))"
      using dump_list_entries [OF assms(1) ch, of ?s as "[]" "length as"] rs(2) len by simp
    moreover have "seek teo_prev (tb_exec_heap s) (\<lambda>n. teo_prev n = None) (tb_exec_order_list s) = Some (Some r)"
      using rs(1) unfolding r by (rule seek_oldest)
    moreover have "num_exec_order s \<noteq> 0" using n(2) 2(1) by (metis unat_0 length_0_conv)
    ultimately have "plugin_dump_tb_exec_order e msg s =
        Some (0, msg\<lparr>dm_tb_exec_orders := entries 0 as\<rparr>, s\<lparr>mallocs := Suc (mallocs s) + length rs\<rparr>)"
      using 2(2) assms(1) n(2) by (simp add: plugin_dump_tb_exec_order_def plenty_malloc del: walk_until_ref)
    with 2(2) show ?thesis by (intro exI [of _ "Suc (mallocs s) + length rs"]) (simp add: kept_def)
  next
    case 3
    then obtain v where v: "tb_exec_rb_list s = Some v" "length v = 100"
      "tb_exec_rb_list_index s = length as mod 100"
      "\<And>i. i < length as \<Longrightarrow> length as \<le> i + 100 \<Longrightarrow>
         \<exists>p. v ! (i mod 100) = Some \<lparr>rb_tb_info = p, rb_pos = of_nat i\<rparr> \<and> exec_address s p = Some (as ! i)"
      using assms(2) by (auto simp: exec_log_def ring_log_def)
    let ?m = "min 100 (length as)" and ?k = "length as - 100"
    have "dump_ring e v ?m (?k mod 100) [] ?s =
        Some (Inr (?s\<lparr>mallocs := mallocs ?s + ?m\<rparr>, [] @ entries ?k (drop ?k as)))"
      by (rule dump_ring_entries [OF assms(1) v(2)]) (use v(4) in \<open>auto\<close>)
    moreover have "100 \<le> length as \<Longrightarrow> ?k mod 100 = length as mod 100"
      by (metis le_mod_geq)
    moreover have "num_exec_order s \<noteq> 0" using n(2) 3(1) by (metis unat_0 length_0_conv)
    ultimately have "plugin_dump_tb_exec_order e msg s =
        Some (0, msg\<lparr>dm_tb_exec_orders := entries ?k (drop ?k as)\<rparr>, s\<lparr>mallocs := Suc (mallocs s) + ?m\<rparr>)"
      using 3(2) assms(1) n(2) v(1,3)
      by (auto simp: plugin_dump_tb_exec_order_def plenty_malloc TB_EXEC_RB_SIZE_def min_def Let_def)
    with 3(2) show ?thesis by (intro exI [of _ "Suc (mallocs s) + ?m"]) (simp add: kept_def Let_def)
  qed
qed

section \<open>The collections against their specification\<close>

text \<open>What happens to the collections while the guest runs, and the same on a table and a log.\<close>

datatype exec_op = Translated tb | Executed "u64 option"

fun run_exec ::
  "'g env \<Rightarrow> exec_op list \<Rightarrow> ('g, 'z) tb_exec_state_scheme \<Rightarrow> ('g, 'z) tb_exec_state_scheme option" where
  "run_exec e [] s = Some s"
| "run_exec e (Translated tb # ops) s = do {
     (_, s) \<leftarrow> add_tb_info e tb s;
     run_exec e ops s
   }"
| "run_exec e (Executed ao # ops) s = do {
     s \<leftarrow> tb_exec_data_event e (Option.bind ao (tb_lookup s)) s;
     run_exec e ops s
   }"

fun spec_exec ::
  "exec_op list \<Rightarrow> (u64 \<rightharpoonup> tb_information_msg) \<times> u64 list \<Rightarrow> (u64 \<rightharpoonup> tb_information_msg) \<times> u64 list" where
  "spec_exec [] x = x"
| "spec_exec (Translated tb # ops) (tab, as) =
     spec_exec ops (if tab (tb_vaddr tb) = None then tab(tb_vaddr tb \<mapsto> block_msg tb) else tab, as)"
| "spec_exec (Executed ao # ops) (tab, as) =
     spec_exec ops (count_execution ao tab, as @ [case ao of None \<Rightarrow> 0 | Some a \<Rightarrow> a])"

text \<open>Blocks have instructions, and only translated blocks are executed.\<close>

fun plausible :: "exec_op list \<Rightarrow> u64 set \<Rightarrow> bool" where
  "plausible [] A \<longleftrightarrow> True"
| "plausible (Translated tb # ops) A \<longleftrightarrow> tb_insns tb \<noteq> [] \<and> plausible ops (insert (tb_vaddr tb) A)"
| "plausible (Executed ao # ops) A \<longleftrightarrow>
     (case ao of None \<Rightarrow> True | Some a \<Rightarrow> a \<in> A) \<and> plausible ops A"

lemma run_exec_spec:
  assumes "plenty e"
  shows "tb_refs s rs \<Longrightarrow> exec_log s as \<Longrightarrow> plausible ops A \<Longrightarrow> (\<forall>a \<in> A. tb_lookup s a \<noteq> None) \<Longrightarrow>
    \<exists>s' rs' as'. run_exec e ops s = Some s' \<and> tb_refs s' rs' \<and> exec_log s' as' \<and>
      spec_exec ops (tb_table s, as) = (tb_table s', as') \<and> length as' \<le> length as + length ops \<and>
      tb_exec_order_ring_buffer s' = tb_exec_order_ring_buffer s"
proof (induction ops arbitrary: s rs as A)
  case Nil
  then show ?case by auto
next
  case (Cons op ops)
  note refs = Cons.prems(1) and log = Cons.prems(2)
  show ?case
  proof (cases op)
    case (Translated tb)
    then have insns: "tb_insns tb \<noteq> []" and ops: "plausible ops (insert (tb_vaddr tb) A)"
      using Cons.prems(3) by simp_all
    obtain r t rs' where t: "add_tb_info e tb s = Some (Some r, t)" "tb_info_only s t" "tb_refs t rs'"
      "tb_lookup t (tb_vaddr tb) = Some r"
      "tb_table t = (if tb_table s (tb_vaddr tb) = None then (tb_table s)(tb_vaddr tb \<mapsto> block_msg tb)
                     else tb_table s)"
      "\<forall>a q. tb_lookup s a = Some q \<longrightarrow> tb_lookup t a = Some q"
      "\<forall>q a. tb_key s q = Some a \<longrightarrow> tb_key t q = Some a"
      using add_tb_info_table [OF assms refs insns] by blast
    have "exec_log t as"
      using t(7) by (intro exec_log_mono [OF log _ t(2)]) blast
    moreover have "\<forall>a \<in> insert (tb_vaddr tb) A. tb_lookup t a \<noteq> None"
      using t(4,6) Cons.prems(4) by fastforce
    moreover have "tb_exec_order_ring_buffer t = tb_exec_order_ring_buffer s"
      using t(2) by (auto simp: tb_info_only_def)
    ultimately show ?thesis using Cons.IH [OF t(3) _ ops] Translated t(1,5) by fastforce
  next
    case (Executed ao)
    then have ao: "known_block s ao" and ops: "plausible ops A"
      using Cons.prems(3,4) by (auto simp: known_block_def split: option.splits)
    obtain t where t: "tb_exec_data_event e (Option.bind ao (tb_lookup s)) s = Some t" "exec_only s t"
      "tb_refs t rs" "tb_lookup t = tb_lookup s" "tb_table t = count_execution ao (tb_table s)"
      "exec_log t (as @ [case ao of None \<Rightarrow> 0 | Some a \<Rightarrow> a])"
      using tb_exec_data_event_log [OF assms refs log ao] by blast
    have "\<forall>a \<in> A. tb_lookup t a \<noteq> None" using Cons.prems(4) t(4) by simp
    moreover have "tb_exec_order_ring_buffer t = tb_exec_order_ring_buffer s"
      using t(2) by (simp add: exec_only_def)
    ultimately show ?thesis using Cons.IH [OF t(3) t(6) ops] Executed t(1,5) by fastforce
  qed
qed

lemma start_collections:
  assumes "plenty e" "tb_info_list s = None" "tb_info_heap s = Map.empty" "tb_exec_heap s = Map.empty"
  shows "\<exists>s1 s2. tb_info_avl_init e s = (0, s1) \<and> tb_exec_order_init e s1 = (0, s2) \<and>
    tb_refs s2 [] \<and> tb_table s2 = Map.empty \<and> exec_log s2 [] \<and>
    tb_exec_order_ring_buffer s2 = tb_exec_order_ring_buffer s"
proof -
  obtain s1 where s1: "tb_info_avl_init e s = (0, s1)" "tb_info_only s s1" "tb_refs s1 []"
    "tb_table s1 = Map.empty"
    using tb_info_avl_init_refs [OF assms(1,2)] assms(3) by auto
  have more: "tb_exec_heap s1 = Map.empty" "tb_exec_order_ring_buffer s1 = tb_exec_order_ring_buffer s"
    using s1(2) assms(4) by (auto simp: tb_info_only_def)
  then obtain s2 where s2: "tb_exec_order_init e s1 = (0, s2)" "exec_only s1 s2" "exec_log s2 []"
    "tb_info_list s2 = tb_info_list s1" "tb_info_heap s2 = tb_info_heap s1" "tb_avl_root s2 = tb_avl_root s1"
    using tb_exec_order_init_log [OF assms(1), of s1] by auto
  have key: "tb_key s2 = tb_key s1" by (simp add: tb_key_def fun_eq_iff s2(5))
  have "tb_refs s2 []"
    using s2(2) by (intro tb_refs_same_keys [OF s1(3) s2(4,6) key]) (simp_all add: exec_only_def s2(5))
  moreover have "tb_table s2 = Map.empty"
    using s1(4) unfolding tb_table_def tb_lookup_def key s2(5,6) .
  ultimately show ?thesis using s1(1) s2(1-3) more(2) by (auto simp: exec_only_def)
qed

lemma collections_run:
  assumes "plenty e" "tb_info_list s = None" "tb_info_heap s = Map.empty" "tb_exec_heap s = Map.empty"
    and "plausible ops {}" "length ops < 2 ^ 64" "spec_exec ops (Map.empty, []) = (tab, as)"
  shows "\<exists>s1 s2 s3 rs. tb_info_avl_init e s = (0, s1) \<and> tb_exec_order_init e s1 = (0, s2) \<and>
    run_exec e ops s2 = Some s3 \<and> tb_refs s3 rs \<and> tb_table s3 = tab \<and> exec_log s3 as \<and>
    length as < 2 ^ 64 \<and> tb_exec_order_ring_buffer s3 = tb_exec_order_ring_buffer s"
proof -
  obtain s1 s2 where init: "tb_info_avl_init e s = (0, s1)" "tb_exec_order_init e s1 = (0, s2)"
    "tb_refs s2 []" "tb_table s2 = Map.empty" "exec_log s2 []"
    "tb_exec_order_ring_buffer s2 = tb_exec_order_ring_buffer s"
    using start_collections [OF assms(1-4)] by blast
  obtain s3 rs where "run_exec e ops s2 = Some s3" "tb_refs s3 rs" "exec_log s3 as"
    "tb_table s3 = tab" "length as \<le> length ops"
    "tb_exec_order_ring_buffer s3 = tb_exec_order_ring_buffer s2"
    using run_exec_spec [OF assms(1) init(3,5) assms(5)] init(4) assms(7) by auto
  with init(1,2,6) assms(6) show ?thesis by auto
qed

text \<open>
  C16. Collecting translation blocks and their execution order: from initialisation, every run in
  which only translated blocks are executed is recorded without failure.  The readout of the block
  information then has exactly one message for every block address, with the data of its first
  translation and the number of its executions; the readout of the execution order has the executed
  addresses with their positions, all of them in list mode and the last hundred in ring-buffer mode.
\<close>

theorem collections_match_specification:
  assumes "plenty e" "tb_info_list s = None" "tb_info_heap s = Map.empty" "tb_exec_heap s = Map.empty"
    and "plausible ops {}" "length ops < 2 ^ 64" "spec_exec ops (Map.empty, []) = (tab, as)"
  shows "\<exists>s1 s2 s3 infos k k'.
    tb_info_avl_init e s = (0, s1) \<and> tb_exec_order_init e s1 = (0, s2) \<and> run_exec e ops s2 = Some s3 \<and>
    plugin_dump_tb_information e data_msg_init s3 =
      Some (0, data_msg_init\<lparr>dm_tb_informations := infos\<rparr>, s3\<lparr>mallocs := k\<rparr>) \<and>
    distinct (map ti_base_address infos) \<and> map_of (map (\<lambda>m. (ti_base_address m, m)) infos) = tab \<and>
    plugin_dump_tb_exec_order e data_msg_init s3 =
      Some (0, data_msg_init\<lparr>dm_tb_exec_orders := kept (tb_exec_order_ring_buffer s) as\<rparr>,
            s3\<lparr>mallocs := k'\<rparr>)"
proof -
  obtain s1 s2 s3 rs where run: "tb_info_avl_init e s = (0, s1)" "tb_exec_order_init e s1 = (0, s2)"
    "run_exec e ops s2 = Some s3" "tb_refs s3 rs" "tb_table s3 = tab" "exec_log s3 as"
    "length as < 2 ^ 64" "tb_exec_order_ring_buffer s3 = tb_exec_order_ring_buffer s"
    using collections_run [OF assms] by blast
  obtain k infos where infos: "plugin_dump_tb_information e data_msg_init s3 =
      Some (0, if rs = [] then data_msg_init else data_msg_init\<lparr>dm_tb_informations := infos\<rparr>, s3\<lparr>mallocs := k\<rparr>)"
    "length infos = length rs" "distinct (map ti_base_address infos)"
    "tab = map_of (map (\<lambda>m. (ti_base_address m, m)) infos)"
    using plugin_dump_tb_information_table [OF assms(1) run(4)] run(5) by blast
  have "(if rs = [] then data_msg_init else data_msg_init\<lparr>dm_tb_informations := infos\<rparr>) =
      data_msg_init\<lparr>dm_tb_informations := infos\<rparr>"
    using infos(2) by (auto simp: data_msg_init_def)
  then show ?thesis
    using run(1-3,8) infos plugin_dump_tb_exec_order_log [OF assms(1) run(6,7), of data_msg_init] by auto
qed

definition flat_exec :: "int \<Rightarrow> flat tb_exec_state" where
  "flat_exec ring =
     \<lparr>guest = flat_guest, mallocs = 0, cbs = [], req_singlestep = 0, first_fault = None,
      fault_heap = Map.empty, memdump = None, num_memdump = 0, used_memdump = 0,
      first_registerdump = None, register_heap = Map.empty, arch = ARM,
      tb_info_list = None, tb_info_heap = Map.empty, tb_avl_root = None,
      tb_exec_order_ring_buffer = ring, tb_exec_order_list = None, tb_exec_heap = Map.empty,
      num_exec_order = 0, tb_exec_rb_list = None, tb_exec_rb_list_index = 0\<rparr>"

definition example_tb :: "u64 \<Rightarrow> tb" where
  "example_tb a = \<lparr>tb_vaddr = a, tb_insns = [\<lparr>insn_vaddr = a, insn_size = 4, insn_disas = ''nop''\<rparr>]\<rparr>"

theorem collections_match_specification_witness:
  "\<exists>s1 s2 s3 infos k k'.
    tb_info_avl_init flat_env (flat_exec 0) = (0, s1) \<and> tb_exec_order_init flat_env s1 = (0, s2) \<and>
    run_exec flat_env [Translated (example_tb 4), Executed (Some 4), Executed None,
      Translated (example_tb 8), Executed (Some 8), Executed (Some 4)] s2 = Some s3 \<and>
    plugin_dump_tb_information flat_env data_msg_init s3 =
      Some (0, data_msg_init\<lparr>dm_tb_informations := infos\<rparr>, s3\<lparr>mallocs := k\<rparr>) \<and>
    map_of (map (\<lambda>m. (ti_base_address m, m)) infos) 4 =
      Some \<lparr>ti_base_address = 4, ti_size = 4, ti_instruction_count = 1, ti_num_of_exec = 2,
            ti_assembler = ''[        4 ]: nop !!''\<rparr> \<and>
    plugin_dump_tb_exec_order flat_env data_msg_init s3 =
      Some (0, data_msg_init\<lparr>dm_tb_exec_orders :=
        [\<lparr>teo_tb_base_address = 4, teo_pos = 0\<rparr>, \<lparr>teo_tb_base_address = 0, teo_pos = 1\<rparr>,
         \<lparr>teo_tb_base_address = 8, teo_pos = 2\<rparr>, \<lparr>teo_tb_base_address = 4, teo_pos = 3\<rparr>]\<rparr>,
            s3\<lparr>mallocs := k'\<rparr>)"
proof -
  let ?ops = "[Translated (example_tb 4), Executed (Some 4), Executed None,
      Translated (example_tb 8), Executed (Some 8), Executed (Some 4)]"
  have p: "plausible ?ops {}" "length ?ops < 2 ^ 64" by (simp_all add: example_tb_def)
  have s: "tb_info_list (flat_exec 0) = None" "tb_info_heap (flat_exec 0) = Map.empty"
    "tb_exec_heap (flat_exec 0) = Map.empty" "tb_exec_order_ring_buffer (flat_exec 0) = 0"
    by (simp_all add: flat_exec_def)
  let ?x = "spec_exec ?ops (Map.empty, [])"
  have spec: "?x = (fst ?x, snd ?x)" by (rule prod.collapse [symmetric])
  have a: "decode_assembler (example_tb 4) = ''[        4 ]: nop !!''"
    by code_simp
  have tab: "fst ?x 4 = Some \<lparr>ti_base_address = 4, ti_size = 4, ti_instruction_count = 1,
      ti_num_of_exec = 2, ti_assembler = decode_assembler (example_tb 4)\<rparr>"
    by (simp add: example_tb_def block_msg_def count_execution_def calculate_bytesize_instructions_def)
  have orders: "kept 0 (snd ?x) =
      [\<lparr>teo_tb_base_address = 4, teo_pos = 0\<rparr>, \<lparr>teo_tb_base_address = 0, teo_pos = 1\<rparr>,
       \<lparr>teo_tb_base_address = 8, teo_pos = 2\<rparr>, \<lparr>teo_tb_base_address = 4, teo_pos = 3\<rparr>]"
    by (simp add: example_tb_def kept_def)
  show ?thesis
    using collections_match_specification [OF flat_plenty s(1-3) p spec] tab
    unfolding s(4) orders a by (elim exE conjE) (intro exI conjI, assumption+, simp, assumption)
qed

lemma entries_drop: "drop j (entries k as) = entries (k + j) (drop j as)"
proof (induction as arbitrary: j k)
  case Nil
  then show ?case by simp
next
  case (Cons a as)
  then show ?case by (cases j) simp_all
qed

lemma length_entries [simp]: "length (entries k as) = length as"
  by (induction as arbitrary: k) simp_all

text \<open>
  C26. The ring buffer is a faithful substitute for the list: after the same run, the execution order
  read from the ring buffer is the end of the one read from the list, its last hundred entries.
\<close>

theorem ring_buffer_keeps_last_hundred:
  assumes "plenty e"
    and "tb_info_list s = None" "tb_info_heap s = Map.empty" "tb_exec_heap s = Map.empty"
    and "tb_info_list t = None" "tb_info_heap t = Map.empty" "tb_exec_heap t = Map.empty"
    and "tb_exec_order_ring_buffer s = 0" "tb_exec_order_ring_buffer t = 1"
    and "plausible ops {}" "length ops < 2 ^ 64"
  shows "\<exists>s1 s2 s3 s4 t1 t2 t3 t4 orders.
    tb_info_avl_init e s = (0, s1) \<and> tb_exec_order_init e s1 = (0, s2) \<and> run_exec e ops s2 = Some s3 \<and>
    plugin_dump_tb_exec_order e data_msg_init s3 =
      Some (0, data_msg_init\<lparr>dm_tb_exec_orders := orders\<rparr>, s4) \<and>
    tb_info_avl_init e t = (0, t1) \<and> tb_exec_order_init e t1 = (0, t2) \<and> run_exec e ops t2 = Some t3 \<and>
    plugin_dump_tb_exec_order e data_msg_init t3 =
      Some (0, data_msg_init\<lparr>dm_tb_exec_orders := drop (length orders - 100) orders\<rparr>, t4)"
proof -
  obtain tab as where spec: "spec_exec ops (Map.empty, []) = (tab, as)"
    by (cases "spec_exec ops (Map.empty, [])")
  obtain s1 s2 s3 rs where s: "tb_info_avl_init e s = (0, s1)" "tb_exec_order_init e s1 = (0, s2)"
    "run_exec e ops s2 = Some s3" "exec_log s3 as" "length as < 2 ^ 64" "tb_exec_order_ring_buffer s3 = 0"
    using collections_run [OF assms(1-4,10,11) spec] assms(8) by auto
  obtain t1 t2 t3 ts where t: "tb_info_avl_init e t = (0, t1)" "tb_exec_order_init e t1 = (0, t2)"
    "run_exec e ops t2 = Some t3" "exec_log t3 as" "tb_exec_order_ring_buffer t3 = 1"
    using collections_run [OF assms(1,5-7,10,11) spec] assms(9) by auto
  have "kept 0 as = entries 0 as"
    "kept 1 as = drop (length (entries 0 as) - 100) (entries 0 as)"
    by (simp_all add: kept_def Let_def entries_drop)
  moreover obtain k where "plugin_dump_tb_exec_order e data_msg_init s3 =
      Some (0, data_msg_init\<lparr>dm_tb_exec_orders := kept 0 as\<rparr>, s3\<lparr>mallocs := k\<rparr>)"
    using plugin_dump_tb_exec_order_log [OF assms(1) s(4,5), of data_msg_init] s(6) by auto
  moreover obtain k' where "plugin_dump_tb_exec_order e data_msg_init t3 =
      Some (0, data_msg_init\<lparr>dm_tb_exec_orders := kept 1 as\<rparr>, t3\<lparr>mallocs := k'\<rparr>)"
    using plugin_dump_tb_exec_order_log [OF assms(1) t(4) s(5), of data_msg_init] t(5) by auto
  ultimately show ?thesis using s(1-3) t(1-3) by (intro exI [of _ "entries 0 as"] exI conjI) simp_all
qed

theorem ring_buffer_keeps_last_hundred_witness:
  "\<exists>s1 s2 s3 s4 t1 t2 t3 t4 orders.
    tb_info_avl_init flat_env (flat_exec 0) = (0, s1) \<and> tb_exec_order_init flat_env s1 = (0, s2) \<and>
    run_exec flat_env (Translated (example_tb 4) # replicate 150 (Executed (Some 4))) s2 = Some s3 \<and>
    plugin_dump_tb_exec_order flat_env data_msg_init s3 =
      Some (0, data_msg_init\<lparr>dm_tb_exec_orders := orders\<rparr>, s4) \<and>
    tb_info_avl_init flat_env (flat_exec 1) = (0, t1) \<and> tb_exec_order_init flat_env t1 = (0, t2) \<and>
    run_exec flat_env (Translated (example_tb 4) # replicate 150 (Executed (Some 4))) t2 = Some t3 \<and>
    plugin_dump_tb_exec_order flat_env data_msg_init t3 =
      Some (0, data_msg_init\<lparr>dm_tb_exec_orders := drop (length orders - 100) orders\<rparr>, t4)"
proof -
  have "plausible (replicate n (Executed (Some a))) A \<longleftrightarrow> n = 0 \<or> a \<in> A" for n a A
    by (induction n) auto
  then have p: "plausible (Translated (example_tb 4) # replicate 150 (Executed (Some 4))) {}"
    by (simp add: example_tb_def)
  show ?thesis
    by (rule ring_buffer_keeps_last_hundred [OF flat_plenty _ _ _ _ _ _ _ _ p])
      (simp_all add: flat_exec_def)
qed

end
