(* ===== verification/TbFaulted.thy ===== *)
theory TbFaulted
  imports TbExec
begin

text \<open>
  \<^verbatim>\<open>faultplugin/tb_faulted_collection.c\<close>: for every instruction fault the assembler text of the
  block in which the fault shows.  An injected fault is registered; the next translated block that
  contains its address supplies the text.  Until then the plugin stays in single-step mode, so that
  blocks are short.
\<close>

section \<open>Data\<close>

record tb_faulted =
  tf_trigger_address :: u64
  tf_assembler :: "string option"
  tf_next :: "ref option"

record 'g tb_faulted_state = "'g tb_exec_state" +
  tb_faulted_list :: "ref option"
  tb_faulted_heap :: "ref \<rightharpoonup> tb_faulted"
  active_triggers :: "u64 list option"
  max_triggers :: int
  current_triggers :: nat
  done_triggers :: nat

interpretation tb_faulted_cell: linked_cell tf_next "\<lambda>p. tf_next_update (\<lambda>_. p)"
  by unfold_locales simp

text \<open>The value of an active trigger that was served.\<close>

definition trigger_done :: u64 where "trigger_done = 0xdeadbeaf"

section \<open>Operations\<close>

text \<open>The result of \<^verbatim>\<open>malloc\<close> is not checked; the loop writes to it if there is a fault at all.\<close>

definition tb_faulted_init ::
  "'g env \<Rightarrow> int \<Rightarrow> ('g, 'z) tb_faulted_state_scheme \<Rightarrow> ('g, 'z) tb_faulted_state_scheme option" where
  "tb_faulted_init e number_faults s =
     (case malloc e (s\<lparr>tb_faulted_list := None\<rparr>) of
        (p, s) \<Rightarrow>
          if p = None \<and> 0 < number_faults then None
          else Some (s\<lparr>active_triggers :=
                         (if p = None then None else Some (replicate (nat number_faults) 0xdeadbeef)),
                       max_triggers := number_faults, current_triggers := 0, done_triggers := 0\<rparr>))"

definition tb_faulted_free ::
  "('g, 'z) tb_faulted_state_scheme \<Rightarrow> ('g, 'z) tb_faulted_state_scheme option" where
  "tb_faulted_free s = do {
     h \<leftarrow> free_chain tf_next (tb_faulted_list s) (tb_faulted_heap s);
     Some (s\<lparr>tb_faulted_heap := h, tb_faulted_list := None, active_triggers := None,
             max_triggers := 0, current_triggers := 0, done_triggers := 0\<rparr>)
   }"

definition insert_faulted_assembly ::
  "'g env \<Rightarrow> tb \<Rightarrow> u64 \<Rightarrow> ('g, 'z) tb_faulted_state_scheme \<Rightarrow> ('g, 'z) tb_faulted_state_scheme option"
where
  "insert_faulted_assembly e tb trigger_address s = do {
     item \<leftarrow> seek tf_next (tb_faulted_heap s) (\<lambda>n. tf_trigger_address n = trigger_address)
               (tb_faulted_list s);
     (case item of
        None \<Rightarrow> Some s
      | Some r \<Rightarrow> do {
          n \<leftarrow> tb_faulted_heap s r;
          let s = rem_singlestep_req e s;
          Some (s\<lparr>tb_faulted_heap := (tb_faulted_heap s)(r \<mapsto>
                    n\<lparr>tf_assembler := Some (decode_assembler tb)\<rparr>)\<rparr>)
        })
   }"

text \<open>Again \<^verbatim>\<open>malloc\<close> is not checked.\<close>

definition tb_faulted_register ::
  "'g env \<Rightarrow> u64 \<Rightarrow> ('g, 'z) tb_faulted_state_scheme \<Rightarrow> ('g, 'z) tb_faulted_state_scheme option" where
  "tb_faulted_register e fault_address s =
     (if max_triggers s = int (current_triggers s) then Some s
      else
        (case malloc e (add_singlestep_req e s) of
           (None, s) \<Rightarrow> None
         | (Some r, s) \<Rightarrow> do {
             v \<leftarrow> active_triggers s;
             v \<leftarrow> arr_set v (current_triggers s) fault_address;
             Some (s\<lparr>tb_faulted_heap := (tb_faulted_heap s)(r \<mapsto>
                       \<lparr>tf_trigger_address = fault_address, tf_assembler = None,
                        tf_next = tb_faulted_list s\<rparr>),
                     tb_faulted_list := Some r, active_triggers := Some v,
                     current_triggers := Suc (current_triggers s)\<rparr>)
           }))"

text \<open>The test whether a block belongs to a fault; its upper bound is inclusive in the code.\<close>

definition tb_covers :: "tb \<Rightarrow> u64 \<Rightarrow> u64 \<Rightarrow> bool" where
  "tb_covers tb tb_size a \<longleftrightarrow> a \<ge> tb_vaddr tb \<and> a \<le> tb_vaddr tb + tb_size"

fun check_triggers ::
  "'g env \<Rightarrow> tb \<Rightarrow> u64 \<Rightarrow> nat list \<Rightarrow> ('g, 'z) tb_faulted_state_scheme \<Rightarrow>
   ('g, 'z) tb_faulted_state_scheme option" where
  "check_triggers e tb tb_size [] s = Some s"
| "check_triggers e tb tb_size (i # is) s = do {
     v \<leftarrow> active_triggers s;
     a \<leftarrow> arr_get v i;
     (if tb_covers tb tb_size a
      then do {
        s \<leftarrow> insert_faulted_assembly e tb a s;
        v \<leftarrow> active_triggers s;
        v \<leftarrow> arr_set v i trigger_done;
        check_triggers e tb tb_size is
          (s\<lparr>active_triggers := Some v, done_triggers := Suc (done_triggers s)\<rparr>)
      }
      else check_triggers e tb tb_size is s)
   }"

definition check_tb_faulted ::
  "'g env \<Rightarrow> tb \<Rightarrow> ('g, 'z) tb_faulted_state_scheme \<Rightarrow> ('g, 'z) tb_faulted_state_scheme option" where
  "check_tb_faulted e tb s =
     (if done_triggers s = current_triggers s then Some s
      else do {
        tb_size \<leftarrow> calculate_bytesize_instructions tb;
        check_triggers e tb tb_size [0..<current_triggers s] s
      })"

definition get_tb_faulted_data_count :: "('g, 'z) tb_faulted_state_scheme \<Rightarrow> nat option" where
  "get_tb_faulted_data_count s =
     walk tf_next (tb_faulted_heap s) (\<lambda>r n c. if tf_assembler n \<noteq> None then Suc c else c)
       (tb_faulted_list s) 0"

definition dump_faulted_step ::
  "'g env \<Rightarrow> nat \<Rightarrow> tb_faulted \<Rightarrow> ('g, 'z) tb_faulted_state_scheme \<times> faulted_data_msg list \<Rightarrow>
   (('g, 'z) tb_faulted_state_scheme + ('g, 'z) tb_faulted_state_scheme \<times> faulted_data_msg list) option"
where
  "dump_faulted_step e n item = (\<lambda>(s, datas).
     (case tf_assembler item of
        None \<Rightarrow> Some (Inr (s, datas))
      | Some str \<Rightarrow>
          if length datas < n then
            (case malloc e s of
               (None, s) \<Rightarrow> Some (Inl s)
             | (Some _, s) \<Rightarrow>
                 Some (Inr (s, datas @ [\<lparr>fd_trigger_address = tf_trigger_address item,
                                         fd_assembler = str\<rparr>])))
          else None))"

definition dump_tb_faulted_data ::
  "'g env \<Rightarrow> data_msg \<Rightarrow> ('g, 'z) tb_faulted_state_scheme \<Rightarrow>
   (int \<times> data_msg \<times> ('g, 'z) tb_faulted_state_scheme) option" where
  "dump_tb_faulted_data e msg s =
     (if tb_faulted_list s = None then Some (0, msg, s)
      else do {
        size \<leftarrow> get_tb_faulted_data_count s;
        (case malloc e s of
           (None, s) \<Rightarrow> Some (-1, msg, s)
         | (Some _, s) \<Rightarrow> do {
             res \<leftarrow> walk_until tf_next (tb_faulted_heap s)
               (\<lambda>_. dump_faulted_step e size)
               (tb_faulted_list s) (s, []);
             Some (case res of
                     Inl s \<Rightarrow> (-1, msg, s)
                   | Inr (s, datas) \<Rightarrow> (0, msg\<lparr>dm_faulted_datas := datas\<rparr>, s))
           })
      })"

section \<open>The balance of single-step requests\<close>

text \<open>
  Every active trigger that is not served yet has a record, and holds one request.
\<close>

definition faulted_refs :: "('g, 'z) tb_faulted_state_scheme \<Rightarrow> ref list \<Rightarrow> bool" where
  "faulted_refs s rs \<longleftrightarrow>
     chain tf_next (tb_faulted_heap s) (tb_faulted_list s) rs \<and> below (tb_faulted_heap s) (mallocs s)"

definition faulted_addresses :: "('g, 'z) tb_faulted_state_scheme \<Rightarrow> ref list \<Rightarrow> u64 list" where
  "faulted_addresses s rs = map (\<lambda>r. tf_trigger_address (the (tb_faulted_heap s r))) rs"

definition faulted_ok :: "('g, 'z) tb_faulted_state_scheme \<Rightarrow> bool" where
  "faulted_ok s \<longleftrightarrow>
     (\<exists>rs v. faulted_refs s rs \<and> active_triggers s = Some v \<and> max_triggers s = int (length v) \<and>
        current_triggers s \<le> length v \<and> trigger_done \<notin> set (faulted_addresses s rs) \<and>
        (\<forall>a \<in> set (take (current_triggers s) v). a \<noteq> trigger_done \<longrightarrow> a \<in> set (faulted_addresses s rs)))"

definition pending :: "('g, 'z) tb_faulted_state_scheme \<Rightarrow> nat" where
  "pending s = length (filter (\<lambda>a. a \<noteq> trigger_done) (take (current_triggers s) (the (active_triggers s))))"

text \<open>What the operations of this component may change.\<close>

definition faulted_only ::
  "('g, 'z) tb_faulted_state_scheme \<Rightarrow> ('g, 'z) tb_faulted_state_scheme \<Rightarrow> bool" where
  "faulted_only s s' \<longleftrightarrow>
     mallocs s \<le> mallocs s' \<and> cbs s' = cbs s \<and>
     first_fault s' = first_fault s \<and> fault_heap s' = fault_heap s \<and>
     memdump s' = memdump s \<and> num_memdump s' = num_memdump s \<and> used_memdump s' = used_memdump s \<and>
     first_registerdump s' = first_registerdump s \<and> register_heap s' = register_heap s \<and>
     arch s' = arch s \<and>
     tb_info_list s' = tb_info_list s \<and> tb_info_heap s' = tb_info_heap s \<and> tb_avl_root s' = tb_avl_root s \<and>
     tb_exec_order_ring_buffer s' = tb_exec_order_ring_buffer s \<and>
     tb_exec_order_list s' = tb_exec_order_list s \<and> tb_exec_heap s' = tb_exec_heap s \<and>
     num_exec_order s' = num_exec_order s \<and> tb_exec_rb_list s' = tb_exec_rb_list s \<and>
     tb_exec_rb_list_index s' = tb_exec_rb_list_index s \<and>
     tb_faulted_state.more s' = tb_faulted_state.more s"

lemma faulted_only_refl [simp]: "faulted_only s s"
  by (simp add: faulted_only_def)

lemma faulted_only_trans: "faulted_only s t \<Longrightarrow> faulted_only t u \<Longrightarrow> faulted_only s u"
  by (simp add: faulted_only_def)

lemma seek_address:
  assumes "faulted_refs s rs"
  shows "\<exists>item. seek tf_next (tb_faulted_heap s) (\<lambda>n. tf_trigger_address n = a) (tb_faulted_list s) = Some item \<and>
    (case item of
       None \<Rightarrow> a \<notin> set (faulted_addresses s rs)
     | Some r \<Rightarrow> r \<in> set rs \<and> (\<exists>n. tb_faulted_heap s r = Some n \<and> tf_trigger_address n = a))"
proof -
  have ch: "chain tf_next (tb_faulted_heap s) (tb_faulted_list s) rs"
    using assms by (simp add: faulted_refs_def)
  show ?thesis
    unfolding seek_chain [OF ch]
    using chain_liveD [OF ch]
    by (auto simp: faulted_addresses_def find_None_iff find_Some_iff split: option.split)
      (metis nth_mem option.sel)
qed

lemma faulted_refs_write:
  assumes "faulted_refs s rs" "tb_faulted_heap s r = Some n" "tf_next n' = tf_next n"
    and "tb_faulted_heap s' = (tb_faulted_heap s)(r \<mapsto> n')" "tb_faulted_list s' = tb_faulted_list s"
    and "mallocs s \<le> mallocs s'"
  shows "faulted_refs s' rs"
  using assms by (auto simp: faulted_refs_def chain_same_next intro!: below_write elim: below_mono)

text \<open>Text for an address: the record is completed and the request released, if there is one.\<close>

lemma insert_faulted_assembly_ok:
  assumes "faulted_refs s rs"
  shows "\<exists>s'. insert_faulted_assembly e tb a s = Some s' \<and> faulted_only s s' \<and> faulted_refs s' rs \<and>
    faulted_addresses s' rs = faulted_addresses s rs \<and> quiet e (guest s) (guest s') \<and>
    active_triggers s' = active_triggers s \<and> max_triggers s' = max_triggers s \<and>
    current_triggers s' = current_triggers s \<and> done_triggers s' = done_triggers s \<and>
    unat (req_singlestep s') =
      unat (req_singlestep s) - (if a \<in> set (faulted_addresses s rs) then 1 else 0)"
proof -
  obtain item where item:
    "seek tf_next (tb_faulted_heap s) (\<lambda>n. tf_trigger_address n = a) (tb_faulted_list s) = Some item"
    "case item of None \<Rightarrow> a \<notin> set (faulted_addresses s rs)
     | Some r \<Rightarrow> r \<in> set rs \<and> (\<exists>n. tb_faulted_heap s r = Some n \<and> tf_trigger_address n = a)"
    using seek_address [OF assms] by blast
  show ?thesis
  proof (cases item)
    case None
    with item assms show ?thesis by (simp add: insert_faulted_assembly_def)
  next
    case (Some r)
    then obtain n where n: "r \<in> set rs" "tb_faulted_heap s r = Some n" "tf_trigger_address n = a"
      using item(2) by auto
    obtain g where g: "rem_singlestep_req e s =
        s\<lparr>guest := g, req_singlestep := (if req_singlestep s = 0 then 0 else req_singlestep s - 1)\<rparr>"
      "quiet e (guest s) g"
      by (rule rem_singlestep_req_update)
    let ?n = "n\<lparr>tf_assembler := Some (decode_assembler tb)\<rparr>"
    let ?s' = "s\<lparr>guest := g,
       req_singlestep := (if req_singlestep s = 0 then 0 else req_singlestep s - 1),
       tb_faulted_heap := (tb_faulted_heap s)(r \<mapsto> ?n)\<rparr>"
    have "insert_faulted_assembly e tb a s = Some ?s'"
      using item(1) Some n(2)
      by (simp add: insert_faulted_assembly_def g(1))
    moreover have "faulted_refs ?s' rs"
      by (rule faulted_refs_write [OF assms n(2), of ?n]) simp_all
    moreover have "faulted_addresses ?s' rs = faulted_addresses s rs"
      using n(2) by (auto simp: faulted_addresses_def)
    moreover have "a \<in> set (faulted_addresses s rs)"
      using n by (force simp: faulted_addresses_def)
    ultimately show ?thesis
      by (intro exI [of _ ?s']) (simp add: faulted_only_def unat_sub_one g(2) del: One_nat_def)
  qed
qed

lemma tb_faulted_register_ok:
  assumes "plenty e" "faulted_ok s" "a \<noteq> trigger_done"
  shows "\<exists>s'. tb_faulted_register e a s = Some s' \<and> faulted_only s s' \<and> faulted_ok s' \<and>
    quiet e (guest s) (guest s') \<and>
    (if max_triggers s = int (current_triggers s) then s' = s
     else req_singlestep s' = req_singlestep s + 1 \<and> pending s' = Suc (pending s))"
proof (cases "max_triggers s = int (current_triggers s)")
  case True
  with assms(2) show ?thesis by (simp add: tb_faulted_register_def)
next
  case False
  obtain rs v where ok: "faulted_refs s rs" "active_triggers s = Some v" "max_triggers s = int (length v)"
    "current_triggers s \<le> length v" "trigger_done \<notin> set (faulted_addresses s rs)"
    "\<forall>a \<in> set (take (current_triggers s) v). a \<noteq> trigger_done \<longrightarrow> a \<in> set (faulted_addresses s rs)"
    using assms(2) by (auto simp: faulted_ok_def)
  have c: "current_triggers s < length v" using ok(3,4) False by simp
  let ?r = "mallocs s"
  obtain g where g: "add_singlestep_req e s = s\<lparr>guest := g, req_singlestep := req_singlestep s + 1\<rparr>"
    "quiet e (guest s) g"
    by (rule add_singlestep_req_update)
  let ?s' = "s\<lparr>guest := g, req_singlestep := req_singlestep s + 1,
     mallocs := Suc ?r, tb_faulted_heap := (tb_faulted_heap s)(?r \<mapsto>
       \<lparr>tf_trigger_address = a, tf_assembler = None, tf_next = tb_faulted_list s\<rparr>),
     tb_faulted_list := Some ?r, active_triggers := Some (v[current_triggers s := a]),
     current_triggers := Suc (current_triggers s)\<rparr>"
  have r: "?r \<notin> set rs" "tb_faulted_heap s ?r = None"
    using ok(1) by (auto simp: faulted_refs_def below_fresh dest: chain_below)
  have run: "tb_faulted_register e a s = Some ?s'"
    using False c ok(2) assms(1)
    by (simp add: tb_faulted_register_def plenty_malloc g(1))
  have refs: "faulted_refs ?s' (?r # rs)"
    using ok(1) r by (simp add: faulted_refs_def chain_frame below_new)
  have addr: "faulted_addresses ?s' (?r # rs) = a # faulted_addresses s rs"
    using r by (auto simp: faulted_addresses_def)
  have take: "take (Suc (current_triggers s)) (v[current_triggers s := a]) = take (current_triggers s) v @ [a]"
    using c by (simp add: take_Suc_conv_app_nth)
  have "faulted_ok ?s'"
    unfolding faulted_ok_def
    by (intro exI [of _ "?r # rs"] exI [of _ "v[current_triggers s := a]"])
      (use refs ok(3,5,6) c assms(3) in \<open>auto simp: addr take\<close>)
  moreover have "pending ?s' = Suc (pending s)"
    using take ok(2) assms(3) by (simp add: pending_def)
  moreover have "faulted_only s ?s'" by (simp add: faulted_only_def)
  ultimately show ?thesis using run False g(2) by (intro exI [of _ ?s']) simp
qed

text \<open>The releases of a check are the triggers that it serves.\<close>

definition released :: "('g, 'z) tb_faulted_state_scheme \<Rightarrow> ('g, 'z) tb_faulted_state_scheme \<Rightarrow> bool" where
  "released s s' \<longleftrightarrow>
     (\<exists>k. pending s = pending s' + k \<and> unat (req_singlestep s') = unat (req_singlestep s) - k)"

lemma released_refl [simp]: "released s s"
  by (auto simp: released_def)

lemma released_trans: "released s t \<Longrightarrow> released t u \<Longrightarrow> released s u"
  unfolding released_def by (elim exE conjE, rule_tac x = "k + ka" in exI) simp

lemma check_triggers_ok:
  "faulted_ok s \<Longrightarrow> set is \<subseteq> {..<current_triggers s} \<Longrightarrow>
   \<exists>s'. check_triggers e tb sz is s = Some s' \<and> faulted_only s s' \<and> faulted_ok s' \<and>
     quiet e (guest s) (guest s') \<and> released s s' \<and> max_triggers s' = max_triggers s \<and>
     current_triggers s' = current_triggers s"
proof (induction "is" arbitrary: s)
  case Nil
  then show ?case by simp
next
  case (Cons i "is")
  obtain rs v where ok: "faulted_refs s rs" "active_triggers s = Some v" "max_triggers s = int (length v)"
    "current_triggers s \<le> length v" "trigger_done \<notin> set (faulted_addresses s rs)"
    "\<forall>a \<in> set (take (current_triggers s) v). a \<noteq> trigger_done \<longrightarrow> a \<in> set (faulted_addresses s rs)"
    using Cons.prems(1) by (auto simp: faulted_ok_def)
  have i: "i < current_triggers s" "i < length v" using Cons.prems(2) ok(4) by auto
  show ?case
  proof (cases "tb_covers tb sz (v ! i)")
    case False
    obtain s' where s': "check_triggers e tb sz is s = Some s' \<and> faulted_only s s' \<and> faulted_ok s' \<and>
     quiet e (guest s) (guest s') \<and> released s s' \<and> max_triggers s' = max_triggers s \<and>
     current_triggers s' = current_triggers s"
      using Cons.IH [OF Cons.prems(1)] Cons.prems(2) by auto
    with False i ok(2) show ?thesis by (intro exI [of _ s']) simp
  next
    case True
    obtain t where t: "insert_faulted_assembly e tb (v ! i) s = Some t" "faulted_only s t"
      "faulted_refs t rs" "faulted_addresses t rs = faulted_addresses s rs" "quiet e (guest s) (guest t)"
      "active_triggers t = active_triggers s" "max_triggers t = max_triggers s"
      "current_triggers t = current_triggers s"
      "unat (req_singlestep t) =
         unat (req_singlestep s) - (if v ! i \<in> set (faulted_addresses s rs) then 1 else 0)"
      using insert_faulted_assembly_ok [OF ok(1)] by blast
    let ?u = "t\<lparr>active_triggers := Some (v[i := trigger_done]), done_triggers := Suc (done_triggers t)\<rparr>"
    have tk: "take (current_triggers s) (v[i := trigger_done]) = (take (current_triggers s) v)[i := trigger_done]"
      by (simp add: take_update_swap)
    have "v ! i \<in> set (take (current_triggers s) v)" using i ok(4) by (auto simp: in_set_conv_nth)
    then have mem: "v ! i \<in> set (faulted_addresses s rs) \<longleftrightarrow> v ! i \<noteq> trigger_done"
      using ok(5,6) by auto
    have refs: "faulted_refs ?u rs" "faulted_addresses ?u rs = faulted_addresses s rs"
      using t(3,4) by (simp_all add: faulted_refs_def faulted_addresses_def)
    have "faulted_ok ?u"
      unfolding faulted_ok_def
      by (intro exI [of _ rs] exI [of _ "v[i := trigger_done]"])
        (use refs t(7,8) ok(3-6) in \<open>auto simp: tk dest: set_update_subset_insert [THEN subsetD]\<close>)
    moreover have "released s ?u"
    proof -
      have "pending ?u + (if v ! i \<noteq> trigger_done then 1 else 0) = pending s"
        using length_filter_update [of i "take (current_triggers s) v" "\<lambda>a. a \<noteq> trigger_done" trigger_done]
          i ok(2,4) t(8) by (simp add: pending_def tk)
      then show ?thesis unfolding released_def
        using t(9) mem by (intro exI [of _ "if v ! i \<noteq> trigger_done then 1 else 0"]) auto
    qed
    moreover have "faulted_only s ?u" using t(2) by (simp add: faulted_only_def)
    moreover obtain s' where "check_triggers e tb sz is ?u = Some s'" "faulted_only ?u s'" "faulted_ok s'"
      "quiet e (guest ?u) (guest s')" "released ?u s'" "max_triggers s' = max_triggers ?u"
      "current_triggers s' = current_triggers ?u"
      using Cons.IH [OF \<open>faulted_ok ?u\<close>] Cons.prems(2) t(8) by auto
    ultimately show ?thesis
      using True i ok(2) t(1,5-8) by (intro exI [of _ s'])
        (auto elim: faulted_only_trans released_trans quiet_trans)
  qed
qed

lemma check_tb_faulted_ok:
  assumes "faulted_ok s" "tb_insns tb \<noteq> []"
  shows "\<exists>s'. check_tb_faulted e tb s = Some s' \<and> faulted_only s s' \<and> faulted_ok s' \<and>
     quiet e (guest s) (guest s') \<and> released s s' \<and> max_triggers s' = max_triggers s \<and>
     current_triggers s' = current_triggers s"
proof (cases "done_triggers s = current_triggers s")
  case True
  with assms(1) show ?thesis by (simp add: check_tb_faulted_def)
next
  case False
  obtain sz where "calculate_bytesize_instructions tb = Some sz"
    using bytesize_Some [OF assms(2)] by blast
  with False check_triggers_ok [OF assms(1), of "[0..<current_triggers s]" e tb sz]
  show ?thesis by (simp add: check_tb_faulted_def lessThan_atLeast0)
qed

section \<open>The records against their specification\<close>

text \<open>
  A record is its address and, once it is served, its text.  \<open>faulted_log s its\<close>: the records of
  the state are \<open>its\<close>, oldest first; an address is active as long as its record has no text.
\<close>

type_synonym faulted_item = "u64 \<times> string option"

definition faulted_view :: "tb_faulted \<Rightarrow> faulted_item" where
  "faulted_view n = (tf_trigger_address n, tf_assembler n)"

definition faulted_log :: "('g, 'z) tb_faulted_state_scheme \<Rightarrow> faulted_item list \<Rightarrow> bool" where
  "faulted_log s its \<longleftrightarrow>
     (\<exists>rs v. faulted_refs s (rev rs) \<and> its = map (\<lambda>r. faulted_view (the (tb_faulted_heap s r))) rs \<and>
        active_triggers s = Some v \<and> max_triggers s = int (length v) \<and>
        current_triggers s = length rs \<and> length rs \<le> length v \<and>
        distinct (map fst its) \<and> trigger_done \<notin> fst ` set its \<and>
        take (length rs) v = map (\<lambda>(a, x). if x = None then a else trigger_done) its \<and>
        done_triggers s = length (filter (\<lambda>(a, x). x \<noteq> None) its))"

lemma tb_faulted_init_log:
  assumes "plenty e" "tb_faulted_heap s = Map.empty" "0 \<le> n"
  shows "\<exists>s'. tb_faulted_init e n s = Some s' \<and> faulted_log s' [] \<and> max_triggers s' = n \<and>
    faulted_only s s' \<and> guest s' = guest s \<and> req_singlestep s' = req_singlestep s \<and> faulted_ok s' \<and>
    pending s' = 0"
  using assms
  by (simp add: tb_faulted_init_def plenty_malloc faulted_log_def faulted_refs_def faulted_only_def
      faulted_ok_def faulted_addresses_def pending_def exI [of _ "[]"])

lemma tb_faulted_register_log:
  assumes "plenty e" "faulted_log s its" "int (length its) < max_triggers s"
    and "a \<noteq> trigger_done" "a \<notin> fst ` set its"
  shows "\<exists>s'. tb_faulted_register e a s = Some s' \<and> faulted_log s' (its @ [(a, None)]) \<and>
    max_triggers s' = max_triggers s"
proof -
  obtain rs v where ok: "faulted_refs s (rev rs)" "its = map (\<lambda>r. faulted_view (the (tb_faulted_heap s r))) rs"
    "active_triggers s = Some v" "max_triggers s = int (length v)" "current_triggers s = length rs"
    "length rs \<le> length v" "distinct (map fst its)" "trigger_done \<notin> fst ` set its"
    "take (length rs) v = map (\<lambda>(a, x). if x = None then a else trigger_done) its"
    "done_triggers s = length (filter (\<lambda>(a, x). x \<noteq> None) its)"
    using assms(2) by (auto simp: faulted_log_def)
  have c: "length rs < length v" using assms(3) ok(2,4) by simp
  obtain g where g: "add_singlestep_req e s = s\<lparr>guest := g, req_singlestep := req_singlestep s + 1\<rparr>"
    by (rule add_singlestep_req_update)
  let ?r = "mallocs s"
  let ?s' = "s\<lparr>guest := g, req_singlestep := req_singlestep s + 1,
     mallocs := Suc ?r, tb_faulted_heap := (tb_faulted_heap s)(?r \<mapsto>
       \<lparr>tf_trigger_address = a, tf_assembler = None, tf_next = tb_faulted_list s\<rparr>),
     tb_faulted_list := Some ?r, active_triggers := Some (v[length rs := a]),
     current_triggers := Suc (length rs)\<rparr>"
  have r: "?r \<notin> set rs" "tb_faulted_heap s ?r = None"
    using ok(1) by (auto simp: faulted_refs_def below_fresh dest: chain_below)
  have run: "tb_faulted_register e a s = Some ?s'"
    using ok(3-5) c assms(1) by (simp add: tb_faulted_register_def plenty_malloc g)
  have refs: "faulted_refs ?s' (rev (rs @ [?r]))"
    using ok(1) r by (simp add: faulted_refs_def chain_frame below_new)
  have view: "map (\<lambda>r. faulted_view (the (tb_faulted_heap ?s' r))) (rs @ [?r]) = its @ [(a, None)]"
    using r by (auto simp: ok(2) faulted_view_def)
  have take: "take (length (rs @ [?r])) (v[length rs := a]) =
      map (\<lambda>(a, x). if x = None then a else trigger_done) (its @ [(a, None)])"
    using c ok(9) by (simp add: take_Suc_conv_app_nth)
  have "faulted_log ?s' (its @ [(a, None)])"
    unfolding faulted_log_def
    by (rule exI [of _ "rs @ [?r]"], rule exI [of _ "v[length rs := a]"])
      (use refs view take ok(4,7,8,10) assms(4,5) c in \<open>simp\<close>)
  with run show ?thesis by (intro exI [of _ ?s']) simp
qed

text \<open>A block serves the open records that it covers.\<close>

definition serve :: "tb \<Rightarrow> faulted_item \<Rightarrow> faulted_item" where
  "serve tb it =
     (let (a, x) = it in
      (a, if x = None \<and> tb_covers tb (the (calculate_bytesize_instructions tb)) a
          then Some (decode_assembler tb) else x))"

lemma serve_fst [simp]: "fst (serve tb it) = fst it"
  by (simp add: serve_def case_prod_unfold Let_def)

lemma check_one_log:
  assumes "faulted_log s its" "i < length its" "calculate_bytesize_instructions tb = Some sz"
    and "\<not> tb_covers tb sz trigger_done"
  shows "\<exists>s'. check_triggers e tb sz [i] s = Some s' \<and> faulted_log s' (its[i := serve tb (its ! i)]) \<and>
    max_triggers s' = max_triggers s \<and> current_triggers s' = current_triggers s"
proof -
  obtain rs v where ok: "faulted_refs s (rev rs)" "its = map (\<lambda>r. faulted_view (the (tb_faulted_heap s r))) rs"
    "active_triggers s = Some v" "max_triggers s = int (length v)" "current_triggers s = length rs"
    "length rs \<le> length v" "distinct (map fst its)" "trigger_done \<notin> fst ` set its"
    "take (length rs) v = map (\<lambda>(a, x). if x = None then a else trigger_done) its"
    "done_triggers s = length (filter (\<lambda>(a, x). x \<noteq> None) its)"
    using assms(1) by (auto simp: faulted_log_def)
  have len: "length its = length rs" by (simp add: ok(2))
  obtain a x where it: "its ! i = (a, x)" by (cases "its ! i")
  have vi: "v ! i = (if x = None then a else trigger_done)"
  proof -
    have "take (length rs) v ! i = (if x = None then a else trigger_done)"
      using assms(2) it by (simp add: ok(9))
    then show ?thesis using assms(2) len by simp
  qed
  show ?thesis
  proof (cases "x = None \<and> tb_covers tb sz a")
    case False
    then have "serve tb (its ! i) = its ! i" using assms(3) it by (simp add: serve_def)
    moreover have "\<not> tb_covers tb sz (v ! i)" using False assms(4) vi by auto
    ultimately show ?thesis using assms(1,2) ok(3,5,6) len by simp
  next
    case True
    then have vi: "v ! i = a" using vi by simp
    let ?q = "rs ! i"
    have q: "?q \<in> set rs" using assms(2) len by simp
    obtain n where n: "tb_faulted_heap s ?q = Some n"
      using ok(1) q chain_liveD [of tf_next "tb_faulted_heap s" _ "rev rs"] by (auto simp: faulted_refs_def)
    have view: "tf_trigger_address n = a" "tf_assembler n = None"
      using it n assms(2) len True by (simp_all add: ok(2) faulted_view_def)
    obtain item where item:
      "seek tf_next (tb_faulted_heap s) (\<lambda>n. tf_trigger_address n = a) (tb_faulted_list s) = Some item"
      "case item of None \<Rightarrow> a \<notin> set (faulted_addresses s (rev rs))
       | Some r \<Rightarrow> r \<in> set (rev rs) \<and> (\<exists>n. tb_faulted_heap s r = Some n \<and> tf_trigger_address n = a)"
      using seek_address [OF ok(1)] by blast
    have "a \<in> set (faulted_addresses s (rev rs))" using q n view by (force simp: faulted_addresses_def)
    then obtain r m where r: "item = Some r" "r \<in> set rs" "tb_faulted_heap s r = Some m"
      "tf_trigger_address m = a"
      using item(2) by (cases item) auto
    have "r = ?q"
    proof -
      obtain j where j: "j < length rs" "rs ! j = r" using r(2) by (auto simp: in_set_conv_nth)
      then have "map fst its ! j = map fst its ! i"
        using r(3,4) it assms(2) len by (simp add: ok(2) faulted_view_def)
      with ok(7) j(1) assms(2) len have "j = i"
        using nth_eq_iff_index_eq [of "map fst its" j i] by simp
      with j show ?thesis by simp
    qed
    obtain g where g: "rem_singlestep_req e s =
        s\<lparr>guest := g, req_singlestep := (if req_singlestep s = 0 then 0 else req_singlestep s - 1)\<rparr>"
      by (rule rem_singlestep_req_update)
    let ?n = "n\<lparr>tf_assembler := Some (decode_assembler tb)\<rparr>"
    let ?s' = "s\<lparr>guest := g,
       req_singlestep := (if req_singlestep s = 0 then 0 else req_singlestep s - 1),
       tb_faulted_heap := (tb_faulted_heap s)(?q \<mapsto> ?n), active_triggers := Some (v[i := trigger_done]),
       done_triggers := Suc (done_triggers s)\<rparr>"
    let ?it = "(a, Some (decode_assembler tb))"
    have run: "check_triggers e tb sz [i] s = Some ?s'"
      using True vi ok(3,6) assms(2) len item(1) r(1) \<open>r = ?q\<close> n
      by (simp add: insert_faulted_assembly_def g)
    have serve: "serve tb (its ! i) = ?it" using True assms(3) it by (simp add: serve_def)
    have dist: "distinct rs" using ok(1) by (auto simp: faulted_refs_def dest: chain_distinct)
    have refs: "faulted_refs ?s' (rev rs)"
      by (rule faulted_refs_write [OF ok(1) n, of ?n]) simp_all
    have views: "map (\<lambda>r. faulted_view (the (tb_faulted_heap ?s' r))) rs = its[i := ?it]"
      using dist view assms(2) len
      by (intro nth_equalityI) (auto simp: ok(2) nth_list_update faulted_view_def nth_eq_iff_index_eq)
    have fsts: "map fst (its[i := ?it]) = map fst its"
      using it assms(2) by (simp add: map_update list_update_same_conv)
    have acts: "take (length rs) (v[i := trigger_done]) =
        map (\<lambda>(a, x). if x = None then a else trigger_done) (its[i := ?it])"
      using ok(9) by (simp add: take_update_swap map_update)
    have dones: "length (filter (\<lambda>(a, x). x \<noteq> None) (its[i := ?it])) =
        Suc (length (filter (\<lambda>(a, x). x \<noteq> None) its))"
      using length_filter_update [OF assms(2), of "\<lambda>(a, x). x \<noteq> None" ?it] it True by simp
    have "trigger_done \<notin> fst ` set (its[i := ?it])"
      using ok(8) fsts by (metis image_set)
    then have "faulted_log ?s' (its[i := ?it])"
      unfolding faulted_log_def
      by (intro exI [of _ rs] exI [of _ "v[i := trigger_done]"])
        (use refs views fsts acts dones ok(4-7,10) in \<open>simp\<close>)
    with run serve show ?thesis by (intro exI [of _ ?s']) simp
  qed
qed

lemma check_triggers_append:
  "check_triggers e tb sz (is @ js) s = Option.bind (check_triggers e tb sz is s) (check_triggers e tb sz js)"
  by (induction "is" arbitrary: s) (simp_all split: bind_split)

lemma check_tb_faulted_log:
  assumes "faulted_log s its" "tb_insns tb \<noteq> []"
    and "\<not> tb_covers tb (the (calculate_bytesize_instructions tb)) trigger_done"
  shows "\<exists>s'. check_tb_faulted e tb s = Some s' \<and> faulted_log s' (map (serve tb) its) \<and>
    max_triggers s' = max_triggers s"
proof -
  obtain sz where sz: "calculate_bytesize_instructions tb = Some sz"
    using bytesize_Some [OF assms(2)] by blast
  have cur: "current_triggers s = length its" "done_triggers s = length (filter (\<lambda>(a, x). x \<noteq> None) its)"
    using assms(1) by (auto simp: faulted_log_def)
  show ?thesis
  proof (cases "done_triggers s = current_triggers s")
    case True
    then have "\<forall>it \<in> set its. snd it \<noteq> None"
      using cur length_filter_less [of _ its "\<lambda>(a, x). x \<noteq> None"] by fastforce
    then have "map (serve tb) its = its" by (auto simp: serve_def intro!: map_idI)
    with True assms(1) show ?thesis by (simp add: check_tb_faulted_def)
  next
    case False
    have "k \<le> length its \<Longrightarrow> \<exists>s'. check_triggers e tb sz [0..<k] s = Some s' \<and>
        faulted_log s' (map (serve tb) (take k its) @ drop k its) \<and> max_triggers s' = max_triggers s" for k
    proof (induction k)
      case 0
      with assms(1) show ?case by simp
    next
      case (Suc k)
      let ?its = "map (serve tb) (take k its) @ drop k its"
      obtain t where t: "check_triggers e tb sz [0..<k] s = Some t" "faulted_log t ?its"
        "max_triggers t = max_triggers s"
        using Suc by auto
      have k: "k < length ?its" "?its ! k = its ! k" using Suc.prems by (simp_all add: nth_append)
      obtain u where u: "check_triggers e tb sz [k] t = Some u"
        "faulted_log u (?its[k := serve tb (?its ! k)])" "max_triggers u = max_triggers t"
        using check_one_log [OF t(2) k(1) sz] assms(3) sz by auto
      have "?its[k := serve tb (?its ! k)] = map (serve tb) (take (Suc k) its) @ drop (Suc k) its"
        using Suc.prems k(2) by (simp add: list_update_append take_Suc_conv_app_nth
            Cons_nth_drop_Suc [symmetric])
      with t u show ?case by (simp add: check_triggers_append del: check_triggers.simps)
    qed
    from this [of "length its"] False sz cur(1) show ?thesis by (auto simp: check_tb_faulted_def)
  qed
qed

section \<open>The readout\<close>

definition faulted_msgs :: "faulted_item list \<Rightarrow> faulted_data_msg list" where
  "faulted_msgs its =
     map (\<lambda>(a, x). \<lparr>fd_trigger_address = a, fd_assembler = the x\<rparr>) (filter (\<lambda>(a, x). x \<noteq> None) its)"

lemma dump_faulted_step_None:
  "tf_assembler item = None \<Longrightarrow> dump_faulted_step e n item (s, datas) = Some (Inr (s, datas))"
  by (simp add: dump_faulted_step_def)

lemma dump_faulted_step_Some:
  "plenty e \<Longrightarrow> tf_assembler item = Some str \<Longrightarrow> length datas < n \<Longrightarrow>
   dump_faulted_step e n item (s, datas) =
     Some (Inr (s\<lparr>mallocs := Suc (mallocs s)\<rparr>,
       datas @ [\<lparr>fd_trigger_address = tf_trigger_address item, fd_assembler = str\<rparr>]))"
  by (simp add: dump_faulted_step_def plenty_malloc)

lemma dump_faulted_loop:
  assumes "plenty e"
  shows "chain tf_next h p rs \<Longrightarrow> its = map (\<lambda>r. faulted_view (the (h r))) rs \<Longrightarrow>
    length datas + length (faulted_msgs its) \<le> n \<Longrightarrow>
    \<exists>k. mallocs s \<le> k \<and>
    walk_until tf_next h
      (\<lambda>_. dump_faulted_step e n) p (s, datas) =
      Some (Inr (s\<lparr>mallocs := k\<rparr>, datas @ faulted_msgs its))"
proof (induction rs arbitrary: p its datas s)
  case Nil
  then show ?case by (intro exI [of _ "mallocs s"]) (simp add: faulted_msgs_def)
next
  case (Cons r rs)
  obtain m where m: "h r = Some m" "chain tf_next h (tf_next m) rs" "p = Some r"
    using Cons.prems(1) by (auto split: option.splits)
  let ?its = "map (\<lambda>r. faulted_view (the (h r))) rs"
  show ?case
  proof (cases "tf_assembler m")
    case None
    then have "faulted_msgs its = faulted_msgs ?its"
      using Cons.prems(2) m(1) by (simp add: faulted_msgs_def faulted_view_def)
    then show ?thesis using Cons.IH [OF m(2) refl, of datas s] Cons.prems(3) m(1,3) None
      by (simp add: dump_faulted_step_None)
  next
    case (Some str)
    let ?d = "\<lparr>fd_trigger_address = tf_trigger_address m, fd_assembler = str\<rparr>"
    have msgs: "faulted_msgs its = ?d # faulted_msgs ?its"
      using Cons.prems(2) m(1) Some by (simp add: faulted_msgs_def faulted_view_def)
    then have "length (datas @ [?d]) + length (faulted_msgs ?its) \<le> n" using Cons.prems(3) by simp
    from Cons.IH [OF m(2) refl this, of "s\<lparr>mallocs := Suc (mallocs s)\<rparr>"] obtain k where
      "Suc (mallocs s) \<le> k" and
      "walk_until tf_next h
      (\<lambda>_. dump_faulted_step e n) (tf_next m) (s\<lparr>mallocs := Suc (mallocs s)\<rparr>, datas @ [?d]) =
      Some (Inr (s\<lparr>mallocs := k\<rparr>, (datas @ [?d]) @ faulted_msgs ?its))"
      by auto
    then show ?thesis
      using m(1,3) Some Cons.prems(3) msgs assms
      by (intro exI [of _ k]) (simp add: dump_faulted_step_Some)
  qed
qed

lemma dump_tb_faulted_data_refs:
  assumes "plenty e" "faulted_refs s qs"
  shows "\<exists>k. mallocs s \<le> k \<and> dump_tb_faulted_data e msg s =
    Some (0, if qs = [] then msg
             else msg\<lparr>dm_faulted_datas := faulted_msgs (map (\<lambda>r. faulted_view (the (tb_faulted_heap s r))) qs)\<rparr>,
          s\<lparr>mallocs := k\<rparr>)"
proof -
  have ch: "chain tf_next (tb_faulted_heap s) (tb_faulted_list s) qs"
    using assms(2) by (simp add: faulted_refs_def)
  let ?its = "map (\<lambda>r. faulted_view (the (tb_faulted_heap s r))) qs"
  show ?thesis
  proof (cases qs)
    case Nil
    then have "tb_faulted_list s = None" using ch by simp
    with Nil show ?thesis by (intro exI [of _ "mallocs s"]) (simp add: dump_tb_faulted_data_def)
  next
    case (Cons q qs')
    then have q: "tb_faulted_list s = Some q" using ch by simp
    have "fold (\<lambda>r c. if tf_assembler (the (tb_faulted_heap s r)) \<noteq> None then Suc c else c) ps c =
        c + length (faulted_msgs (map (\<lambda>r. faulted_view (the (tb_faulted_heap s r))) ps))" for ps c
      by (induction ps arbitrary: c) (simp_all add: faulted_msgs_def faulted_view_def)
    then have "get_tb_faulted_data_count s = Some (length (faulted_msgs ?its))"
      by (simp add: get_tb_faulted_data_count_def walk_chain [OF ch])
    moreover obtain k where "Suc (mallocs s) \<le> k" and
      "walk_until tf_next (tb_faulted_heap s)
      (\<lambda>_. dump_faulted_step e (length (faulted_msgs ?its))) (tb_faulted_list s) (s\<lparr>mallocs := Suc (mallocs s)\<rparr>, []) =
      Some (Inr (s\<lparr>mallocs := k\<rparr>, faulted_msgs ?its))"
      using dump_faulted_loop [OF assms(1) ch refl, of "[]" _ "s\<lparr>mallocs := Suc (mallocs s)\<rparr>"] by auto
    ultimately show ?thesis using q Cons assms(1)
      by (intro exI [of _ k]) (simp add: dump_tb_faulted_data_def plenty_malloc)
  qed
qed

lemma dump_tb_faulted_data_log:
  assumes "plenty e" "faulted_log s its"
  shows "\<exists>k. mallocs s \<le> k \<and> dump_tb_faulted_data e msg s =
    Some (0, if its = [] then msg else msg\<lparr>dm_faulted_datas := faulted_msgs (rev its)\<rparr>, s\<lparr>mallocs := k\<rparr>)"
proof -
  obtain rs where rs: "faulted_refs s (rev rs)" "its = map (\<lambda>r. faulted_view (the (tb_faulted_heap s r))) rs"
    using assms(2) by (auto simp: faulted_log_def)
  with dump_tb_faulted_data_refs [OF assms(1) rs(1), of msg] show ?thesis by (cases "rs = []") (simp_all add: rev_map)
qed

section \<open>Properties\<close>

text \<open>The module's clients register a fault that was injected and show it every translated block.\<close>

datatype faulted_op = Faulted u64 | Block tb

fun run_faulted ::
  "'g env \<Rightarrow> faulted_op list \<Rightarrow> ('g, 'z) tb_faulted_state_scheme \<Rightarrow> ('g, 'z) tb_faulted_state_scheme option"
where
  "run_faulted e [] s = Some s"
| "run_faulted e (Faulted a # ops) s = do { s \<leftarrow> tb_faulted_register e a s; run_faulted e ops s }"
| "run_faulted e (Block tb # ops) s = do { s \<leftarrow> check_tb_faulted e tb s; run_faulted e ops s }"

fun spec_faulted :: "faulted_op list \<Rightarrow> faulted_item list \<Rightarrow> faulted_item list" where
  "spec_faulted [] its = its"
| "spec_faulted (Faulted a # ops) its = spec_faulted ops (its @ [(a, None)])"
| "spec_faulted (Block tb # ops) its = spec_faulted ops (map (serve tb) its)"

text \<open>
  At most \<open>n\<close> faults with different addresses, none at the address the code uses as the mark of a
  served trigger; blocks with instructions, none over that address.
\<close>

fun usual_faults :: "faulted_op list \<Rightarrow> nat \<Rightarrow> u64 set \<Rightarrow> bool" where
  "usual_faults [] n A \<longleftrightarrow> True"
| "usual_faults (Faulted a # ops) n A \<longleftrightarrow>
     0 < n \<and> a \<notin> A \<and> a \<noteq> trigger_done \<and> usual_faults ops (n - 1) (insert a A)"
| "usual_faults (Block tb # ops) n A \<longleftrightarrow>
     tb_insns tb \<noteq> [] \<and> \<not> tb_covers tb (the (calculate_bytesize_instructions tb)) trigger_done \<and>
     usual_faults ops n A"

lemma run_faulted_log:
  assumes "plenty e"
  shows "faulted_log s its \<Longrightarrow> int (length its + n) \<le> max_triggers s \<Longrightarrow>
    usual_faults ops n (fst ` set its) \<Longrightarrow>
    \<exists>s'. run_faulted e ops s = Some s' \<and> faulted_log s' (spec_faulted ops its)"
proof (induction ops arbitrary: s its n)
  case Nil
  then show ?case by simp
next
  case (Cons op ops)
  show ?case
  proof (cases op)
    case (Faulted a)
    then have a: "0 < n" "a \<notin> fst ` set its" "a \<noteq> trigger_done"
      "usual_faults ops (n - 1) (insert a (fst ` set its))"
      using Cons.prems(3) by simp_all
    obtain t where t: "tb_faulted_register e a s = Some t" "faulted_log t (its @ [(a, None)])"
      "max_triggers t = max_triggers s"
      using tb_faulted_register_log [OF assms Cons.prems(1) _ a(3,2)] a(1) Cons.prems(2) by auto
    have "\<exists>s'. run_faulted e ops t = Some s' \<and> faulted_log s' (spec_faulted ops (its @ [(a, None)]))"
      by (rule Cons.IH [OF t(2), of "n - 1"]) (use t(3) a Cons.prems(2) in \<open>simp_all\<close>)
    with t(1) Faulted show ?thesis by simp
  next
    case (Block tb)
    then have b: "tb_insns tb \<noteq> []" "\<not> tb_covers tb (the (calculate_bytesize_instructions tb)) trigger_done"
      "usual_faults ops n (fst ` set its)"
      using Cons.prems(3) by simp_all
    obtain t where t: "check_tb_faulted e tb s = Some t" "faulted_log t (map (serve tb) its)"
      "max_triggers t = max_triggers s"
      using check_tb_faulted_log [OF Cons.prems(1) b(1,2)] by blast
    have "fst ` set (map (serve tb) its) = fst ` set its" by (simp add: image_image)
    then have "\<exists>s'. run_faulted e ops t = Some s' \<and> faulted_log s' (spec_faulted ops (map (serve tb) its))"
      by (intro Cons.IH [OF t(2), of n]) (use t(3) b(3) Cons.prems(2) in \<open>simp_all\<close>)
    with t(1) Block show ?thesis by simp
  qed
qed

lemma faulted_run_report:
  assumes "plenty e" "tb_faulted_heap s = Map.empty" "usual_faults ops n {}"
  shows "\<exists>s1 s2 k. tb_faulted_init e (int n) s = Some s1 \<and> run_faulted e ops s1 = Some s2 \<and>
    dump_tb_faulted_data e data_msg_init s2 =
      Some (0, data_msg_init\<lparr>dm_faulted_datas := faulted_msgs (rev (spec_faulted ops []))\<rparr>, s2\<lparr>mallocs := k\<rparr>)"
proof -
  obtain s1 where s1: "tb_faulted_init e (int n) s = Some s1" "faulted_log s1 []" "max_triggers s1 = int n"
    using tb_faulted_init_log [OF assms(1,2), of "int n"] by auto
  obtain s2 where s2: "run_faulted e ops s1 = Some s2" "faulted_log s2 (spec_faulted ops [])"
    using run_faulted_log [OF assms(1) s1(2), of n ops] s1(3) assms(3) by auto
  have "(if spec_faulted ops [] = [] then data_msg_init
       else data_msg_init\<lparr>dm_faulted_datas := faulted_msgs (rev (spec_faulted ops []))\<rparr>) =
      data_msg_init\<lparr>dm_faulted_datas := faulted_msgs (rev (spec_faulted ops []))\<rparr>"
    by (simp add: data_msg_init_def faulted_msgs_def)
  with dump_tb_faulted_data_log [OF assms(1) s2(2), of data_msg_init] s1(1) s2(1) show ?thesis by auto
qed


definition flat_faulted :: "flat tb_faulted_state" where
  "flat_faulted =
     \<lparr>guest = flat_guest, mallocs = 0, cbs = [], req_singlestep = 0, first_fault = None,
      fault_heap = Map.empty, memdump = None, num_memdump = 0, used_memdump = 0,
      first_registerdump = None, register_heap = Map.empty, arch = ARM,
      tb_info_list = None, tb_info_heap = Map.empty, tb_avl_root = None,
      tb_exec_order_ring_buffer = 0, tb_exec_order_list = None, tb_exec_heap = Map.empty,
      num_exec_order = 0, tb_exec_rb_list = None, tb_exec_rb_list_index = 0,
      tb_faulted_list = None, tb_faulted_heap = Map.empty, active_triggers = None,
      max_triggers = 0, current_triggers = 0, done_triggers = 0\<rparr>"

lemma example_tb_text:
  "decode_assembler (example_tb 16) = ''[       10 ]: nop !!''"
  "decode_assembler (example_tb 4) = ''[        4 ]: nop !!''"
  "decode_assembler (example_tb 8) = ''[        8 ]: nop !!''"
  by code_simp+

lemma example_tb_size [simp]: "calculate_bytesize_instructions (example_tb a) = Some 4"
  by (simp add: calculate_bytesize_instructions_def example_tb_def)

lemma example_tb_insns: "tb_insns (example_tb a) \<noteq> []"
  by (simp add: example_tb_def)

lemma example_tb_vaddr: "tb_vaddr (example_tb a) = a"
  by (simp add: example_tb_def)

lemma flat_faulted_heap: "tb_faulted_heap flat_faulted = Map.empty"
  by (simp add: flat_faulted_def)


text \<open>
  C36. The block before the faulted instruction is mistaken for the faulted one: a block that ends
  exactly where the fault is located, so that it does not contain the fault, is recorded as the
  faulted block, and the block that does contain it is then ignored.
\<close>

theorem neighbour_block_is_reported:
  assumes "plenty e" "tb_faulted_heap s = Map.empty"
    and "tb_insns tb \<noteq> []" "calculate_bytesize_instructions tb = Some sz"
    and "a = tb_vaddr tb + sz" "tb_vaddr tb \<le> a" "a \<noteq> trigger_done" "\<not> tb_covers tb sz trigger_done"
    and "tb_insns tb' \<noteq> []" "tb_vaddr tb' = a" "calculate_bytesize_instructions tb' = Some sz'"
    and "\<not> tb_covers tb' sz' trigger_done"
  shows "\<exists>s1 s2 k. tb_faulted_init e 1 s = Some s1 \<and>
    run_faulted e [Faulted a, Block tb, Block tb'] s1 = Some s2 \<and>
    dump_tb_faulted_data e data_msg_init s2 =
      Some (0, data_msg_init\<lparr>dm_faulted_datas :=
        [\<lparr>fd_trigger_address = a, fd_assembler = decode_assembler tb\<rparr>]\<rparr>, s2\<lparr>mallocs := k\<rparr>)"
proof -
  have "usual_faults [Faulted a, Block tb, Block tb'] 1 {}" using assms by simp
  moreover have "faulted_msgs (rev (spec_faulted [Faulted a, Block tb, Block tb'] [])) =
      [\<lparr>fd_trigger_address = a, fd_assembler = decode_assembler tb\<rparr>]"
    using assms(4-6) by (simp add: serve_def tb_covers_def faulted_msgs_def)
  ultimately show ?thesis using faulted_run_report [OF assms(1,2)] by (metis of_nat_1)
qed

theorem neighbour_block_is_reported_witness:
  "\<exists>s1 s2 k. tb_faulted_init flat_env 1 flat_faulted = Some s1 \<and>
    run_faulted flat_env [Faulted 8, Block (example_tb 4), Block (example_tb 8)] s1 = Some s2 \<and>
    dump_tb_faulted_data flat_env data_msg_init s2 =
      Some (0, data_msg_init\<lparr>dm_faulted_datas :=
        [\<lparr>fd_trigger_address = 8, fd_assembler = ''[        4 ]: nop !!''\<rparr>]\<rparr>, s2\<lparr>mallocs := k\<rparr>)"
  using neighbour_block_is_reported [where sz = 4 and sz' = 4,
      OF flat_plenty flat_faulted_heap example_tb_insns example_tb_size _ _ _ _ example_tb_insns _ example_tb_size,
      of 8 4 8] example_tb_text(2)
  by (simp add: example_tb_vaddr tb_covers_def trigger_done_def del: run_faulted.simps)

end
