(* ===== verification/Triggers.thy ===== *)
theory Triggers
  imports TbFaulted
begin

text \<open>
  The trigger vector and the vector of live faults of \<^verbatim>\<open>faultplugin/faultplugin.c\<close>.  Both have one
  place per configured fault.  The trigger vector holds the address at which each fault is to be
  injected (0 once it was); the live-fault vector holds the injected faults whose lifetime is
  limited, in the order of their injection.
\<close>

section \<open>Data\<close>

record 'g trigger_state = "'g tb_faulted_state" +
  fault_trigger_addresses :: "u64 list option"
  live_faults :: "ref option list option"
  fault_number :: int
  live_faults_number :: int

text \<open>Array access with an \<^verbatim>\<open>int\<close> index.\<close>

definition arr_set_int :: "'a list \<Rightarrow> int \<Rightarrow> 'a \<Rightarrow> 'a list option" where
  "arr_set_int xs i v = (if i < 0 then None else arr_set xs (nat i) v)"

definition arr_get_int :: "'a list \<Rightarrow> int \<Rightarrow> 'a option" where
  "arr_get_int xs i = (if i < 0 then None else arr_get xs (nat i))"

lemma arr_int_in [simp]:
  "i < length xs \<Longrightarrow> arr_set_int xs (int i) v = Some (xs[i := v])"
  "i < length xs \<Longrightarrow> arr_get_int xs (int i) = Some (xs ! i)"
  by (simp_all add: arr_set_int_def arr_get_int_def)

text \<open>The conversion of a \<^verbatim>\<open>uint64_t\<close> to \<^verbatim>\<open>int\<close>.\<close>

definition u64_to_int :: "u64 \<Rightarrow> int" where
  "u64_to_int w = sint (ucast w :: u32)"

lemma u64_to_int_small: "n < 2 ^ 31 \<Longrightarrow> u64_to_int (of_nat n) = int n"
  unfolding u64_to_int_def
  by transfer (simp add: signed_take_bit_take_bit, subst signed_take_bit_int_eq_self, simp_all)

section \<open>Operations\<close>

text \<open>
  Both vectors are filled completely before they are read; the places are numbered in the order of
  the list.
\<close>

fun register_triggers ::
  "nat \<Rightarrow> nat \<Rightarrow> ref option \<Rightarrow> ('g, 'z) trigger_state_scheme \<Rightarrow> ('g, 'z) trigger_state_scheme option" where
  "register_triggers j 0 current s = Some s"
| "register_triggers j (Suc k) current s = do {
     r \<leftarrow> current;
     a \<leftarrow> get_fault_trigger_address r s;
     v \<leftarrow> fault_trigger_addresses s;
     v \<leftarrow> arr_set v j a;
     s \<leftarrow> set_fault_trigger_num r (of_nat j) (s\<lparr>fault_trigger_addresses := Some v\<rparr>);
     l \<leftarrow> live_faults s;
     l \<leftarrow> arr_set l j None;
     let s = s\<lparr>live_faults := Some l\<rparr>;
     next \<leftarrow> return_next current s;
     register_triggers (Suc j) k next s
   }"

definition register_fault_trigger_addresses ::
  "'g env \<Rightarrow> ('g, 'z) trigger_state_scheme \<Rightarrow> (int \<times> ('g, 'z) trigger_state_scheme) option" where
  "register_fault_trigger_addresses e s = do {
     i \<leftarrow> walk fn_next (fault_heap s) (\<lambda>r n. Suc) (return_first_fault s) 0;
     if i = 0 then Some (-1, s)
     else
       (case malloc e (s\<lparr>fault_number := int i\<rparr>) of
          (p, s) \<Rightarrow>
            (case malloc e s of
               (q, s) \<Rightarrow> do {
                 let s = s\<lparr>fault_trigger_addresses := map_option (\<lambda>r. map (malloc_junk e r) [0..<i]) p,
                           live_faults := map_option (\<lambda>_. replicate i None) q\<rparr>;
                 if p = None \<or> q = None then Some (-1, s)
                 else do {
                   s \<leftarrow> register_triggers 0 i (return_first_fault s) s;
                   Some (0, s)
                 }
               }))
   }"

definition invalidate_fault_trigger_address ::
  "int \<Rightarrow> ('g, 'z) trigger_state_scheme \<Rightarrow> ('g, 'z) trigger_state_scheme option" where
  "invalidate_fault_trigger_address fault_trigger_number s = do {
     v \<leftarrow> fault_trigger_addresses s;
     v \<leftarrow> arr_set_int v fault_trigger_number 0;
     Some (s\<lparr>fault_trigger_addresses := Some v\<rparr>)
   }"

definition delete_fault_trigger_addresses ::
  "('g, 'z) trigger_state_scheme \<Rightarrow> ('g, 'z) trigger_state_scheme" where
  "delete_fault_trigger_addresses s = s\<lparr>fault_trigger_addresses := None\<rparr>"

definition register_live_faults_callback ::
  "'g env \<Rightarrow> ref \<Rightarrow> ('g, 'z) trigger_state_scheme \<Rightarrow> (int \<times> ('g, 'z) trigger_state_scheme) option" where
  "register_live_faults_callback e fault s =
     (if live_faults_number s = fault_number s then Some (-1, s)
      else do {
        let s = add_singlestep_req e s;
        l \<leftarrow> live_faults s;
        l \<leftarrow> arr_set_int l (live_faults_number s) (Some fault);
        let s = s\<lparr>live_faults := Some l, live_faults_number := live_faults_number s + 1\<rparr>;
        Some (live_faults_number s - 1, s)
      })"

section \<open>Frame\<close>

definition triggers_only ::
  "('g, 'z) trigger_state_scheme \<Rightarrow> ('g, 'z) trigger_state_scheme \<Rightarrow> bool" where
  "triggers_only s s' \<longleftrightarrow>
     (\<exists>k h v l n. mallocs s \<le> k \<and>
        s' = s\<lparr>mallocs := k, fault_heap := h, fault_trigger_addresses := v, live_faults := l,
              fault_number := n\<rparr>)"

lemma triggers_onlyI [intro]:
  "mallocs s \<le> k \<Longrightarrow>
   triggers_only s (s\<lparr>mallocs := k, fault_heap := h, fault_trigger_addresses := v, live_faults := l,
              fault_number := n\<rparr>)"
  unfolding triggers_only_def by blast

lemma triggers_only_via:
  assumes "triggers_only s t" "t = t'" "triggers_only t' u"
  shows "triggers_only s u"
proof -
  obtain k h v l n where t: "mallocs s \<le> k" "t = s\<lparr>mallocs := k, fault_heap := h,
      fault_trigger_addresses := v, live_faults := l, fault_number := n\<rparr>"
    using assms(1) unfolding triggers_only_def by blast
  obtain k' h' v' l' n' where u: "mallocs t \<le> k'" "u = t\<lparr>mallocs := k', fault_heap := h',
      fault_trigger_addresses := v', live_faults := l', fault_number := n'\<rparr>"
    using assms(2,3) unfolding triggers_only_def by blast
  have "u = s\<lparr>mallocs := k', fault_heap := h',
      fault_trigger_addresses := v', live_faults := l', fault_number := n'\<rparr>" using t u by simp
  moreover have "mallocs s \<le> k'" using t u by simp
  ultimately show ?thesis by (simp only: triggers_onlyI)
qed

lemma triggers_only_frame [frame_simps]:
  assumes "triggers_only s s'"
  shows "guest s' = guest s" "cbs s' = cbs s" "req_singlestep s' = req_singlestep s"
    "first_fault s' = first_fault s"
    "memdump s' = memdump s" "num_memdump s' = num_memdump s" "used_memdump s' = used_memdump s"
    "first_registerdump s' = first_registerdump s" "register_heap s' = register_heap s"
    "arch s' = arch s" "live_faults_number s' = live_faults_number s"
    "trigger_state.more s' = trigger_state.more s" "mallocs s \<le> mallocs s'"
  using assms by (auto simp: triggers_only_def)

section \<open>Registration numbers the faults\<close>

definition with_trignum :: "nat \<Rightarrow> fault \<Rightarrow> fault" where
  "with_trignum j f = f\<lparr>f_trigger := (f_trigger f)\<lparr>trignum := of_nat j\<rparr>\<rparr>"

lemma fault_refs_same:
  "fault_refs s rs \<Longrightarrow> first_fault s' = first_fault s \<Longrightarrow> fault_heap s' = fault_heap s \<Longrightarrow>
   mallocs s \<le> mallocs s' \<Longrightarrow> fault_refs s' rs"
  by (auto simp: fault_refs_def elim: below_mono)

lemma replicate_update_same [simp]: "(replicate n x)[j := x] = replicate n x"
proof (cases "j < n")
  case True
  then show ?thesis using list_update_id [of "replicate n x" j] by simp
qed (simp add: list_update_beyond)

lemma register_triggers_ok:
  "fault_refs s (xs @ ys) \<Longrightarrow> length xs = j \<Longrightarrow>
   current = (case ys of [] \<Rightarrow> None | y # _ \<Rightarrow> Some y) \<Longrightarrow>
   fault_trigger_addresses s = Some v \<Longrightarrow> length v = length (xs @ ys) \<Longrightarrow>
   live_faults s = Some (replicate (length (xs @ ys)) None) \<Longrightarrow>
   \<exists>s'. register_triggers j (length ys) current s = Some s' \<and> triggers_only s s' \<and>
     fault_refs s' (xs @ ys) \<and> fault_number s' = fault_number s \<and>
     live_faults s' = live_faults s \<and>
     fault_trigger_addresses s' =
       Some (take j v @ map (\<lambda>r. trig_address (f_trigger (the (get_fault r s)))) ys) \<and>
     (\<forall>r \<in> set xs. get_fault r s' = get_fault r s) \<and>
     (\<forall>i < length ys. get_fault (ys ! i) s' = map_option (with_trignum (j + i)) (get_fault (ys ! i) s))"
proof (induction ys arbitrary: xs j current s v)
  case Nil
  have "s = s\<lparr>mallocs := mallocs s, fault_heap := fault_heap s, fault_trigger_addresses :=
      fault_trigger_addresses s, live_faults := live_faults s, fault_number := fault_number s\<rparr>" by simp
  then have "triggers_only s s" unfolding triggers_only_def by blast
  with Nil show ?case by simp
next
  case (Cons r ys)
  have dist: "r \<notin> set xs" "r \<notin> set ys" "set xs \<inter> set ys = {}"
    using fault_refs_distinct [OF Cons.prems(1)] by auto
  obtain f where f: "get_fault r s = Some f" using fault_refs_live [OF Cons.prems(1), of r] by auto
  let ?a = "trig_address (f_trigger f)"
  let ?s = "s\<lparr>fault_trigger_addresses := Some (v[j := ?a])\<rparr>"
  obtain n where n: "fault_heap s r = Some n" "fn_fault n = f" using f by (auto simp: get_fault_def)
  let ?t = "?s\<lparr>fault_heap := (fault_heap s)(r \<mapsto> n\<lparr>fn_fault := with_trignum j f\<rparr>)\<rparr>"
  have num: "set_fault_trigger_num r (of_nat j) ?s = Some ?t"
    using n by (simp add: set_fault_trigger_num_def get_fault_def put_fault_def with_trignum_def)
  have refs: "fault_refs ?t (xs @ r # ys)"
    using Cons.prems(1) n(1) by (auto simp: fault_refs_def chain_same_next intro: below_write)
  then have refs': "fault_refs ?t ((xs @ [r]) @ ys)" by simp
  have nxt: "return_next (Some r) ?t = Some (case ys of [] \<Rightarrow> None | y # _ \<Rightarrow> Some y)"
    using refs by (rule return_next_refs)
  have v: "fault_trigger_addresses ?t = Some (v[j := ?a])" "length (v[j := ?a]) = length ((xs @ [r]) @ ys)"
    "live_faults ?t = Some (replicate (length ((xs @ [r]) @ ys)) None)"
    using Cons.prems(5,6) by simp_all
  have get: "get_fault q ?t = (if q = r then Some (with_trignum j f) else get_fault q s)" for q
    by (simp add: get_fault_def)
  have len: "length (xs @ [r]) = Suc j" using Cons.prems(2) by simp
  obtain u where u: "register_triggers (Suc j) (length ys) (case ys of [] \<Rightarrow> None | y # _ \<Rightarrow> Some y) ?t = Some u"
    "triggers_only ?t u" "fault_refs u ((xs @ [r]) @ ys)" "fault_number u = fault_number ?t"
    "live_faults u = live_faults ?t"
    "fault_trigger_addresses u = Some (take (Suc j) (v[j := ?a]) @
       map (\<lambda>r. trig_address (f_trigger (the (get_fault r ?t)))) ys)"
    "\<forall>q \<in> set (xs @ [r]). get_fault q u = get_fault q ?t"
    "\<forall>i < length ys. get_fault (ys ! i) u = map_option (with_trignum (Suc j + i)) (get_fault (ys ! i) ?t)"
    using Cons.IH [OF refs' len refl v] by blast
  have j: "j < length v" using Cons.prems(2,5) by simp
  have addr: "get_fault_trigger_address r s = Some ?a" using f by (simp add: get_fault_trigger_address_def)
  obtain l where l: "live_faults s = Some l" "j < length l" "l[j := None] = l"
  proof
    show "live_faults s = Some (replicate (length (xs @ r # ys)) None)" by (rule Cons.prems(6))
    show "j < length (replicate (length (xs @ r # ys)) None)" using Cons.prems(2) by simp
    show "(replicate (length (xs @ r # ys)) None)[j := None] = replicate (length (xs @ r # ys)) None"
      by (rule replicate_update_same)
  qed
  have same: "?t\<lparr>live_faults := Some l\<rparr> = ?t" using l(1) by (intro trigger_state.equality) simp_all
  have live: "live_faults ?t = Some l" using l(1) by simp
  have go: "register_triggers j (Suc (length ys)) (Some r) s =
      register_triggers (Suc j) (length ys) (case ys of [] \<Rightarrow> None | y # _ \<Rightarrow> Some y) ?t"
    unfolding register_triggers.simps(2)
    by (simp only: addr Cons.prems(4) arr_set_in [OF j] num live arr_set_in [OF l(2)] l(3) same nxt
        Let_def bind.bind_lunit)
  then have run: "register_triggers j (length (r # ys)) current s = Some u"
    using Cons.prems(3) u(1) by simp
  have "map (\<lambda>r. trig_address (f_trigger (the (get_fault r ?t)))) ys =
      map (\<lambda>r. trig_address (f_trigger (the (get_fault r s)))) ys"
    using dist(2) by (intro map_cong) (auto simp: get)
  moreover have "take (Suc j) (v[j := ?a]) = take j v @ [?a]" using j by (simp add: take_Suc_conv_app_nth)
  ultimately have addrs: "fault_trigger_addresses u =
      Some (take j v @ map (\<lambda>r. trig_address (f_trigger (the (get_fault r s)))) (r # ys))"
    using u(6) f by simp
  have "triggers_only s (s\<lparr>mallocs := mallocs s, fault_heap := fault_heap ?t,
      fault_trigger_addresses := fault_trigger_addresses ?t, live_faults := live_faults s,
      fault_number := fault_number s\<rparr>)"
    by (rule triggers_onlyI) simp
  then have only: "triggers_only s u" by (rule triggers_only_via [OF _ _ u(2)]) simp
  have later: "\<forall>i < length (r # ys). get_fault ((r # ys) ! i) u =
      map_option (with_trignum (j + i)) (get_fault ((r # ys) ! i) s)"
  proof (intro allI impI)
    fix i assume i: "i < length (r # ys)"
    show "get_fault ((r # ys) ! i) u = map_option (with_trignum (j + i)) (get_fault ((r # ys) ! i) s)"
    proof (cases i)
      case 0
      then show ?thesis using u(7) f by (simp add: get)
    next
      case (Suc k)
      then have "ys ! k \<noteq> r" using i dist(2) by (auto simp: in_set_conv_nth)
      then show ?thesis using u(8) i Suc by (simp add: get)
    qed
  qed
  have "\<forall>q \<in> set xs. get_fault q u = get_fault q s" using u(7) dist(1) by (auto simp: get)
  with run only u(3-5) addrs later Cons.prems(6) show ?case by (intro exI [of _ u]) simp
qed

lemma register_fault_trigger_addresses_ok:
  assumes "plenty e" "fault_refs s rs" "rs \<noteq> []"
  shows "\<exists>s'. register_fault_trigger_addresses e s = Some (0, s') \<and> triggers_only s s' \<and>
    fault_refs s' rs \<and> fault_number s' = int (length rs) \<and>
    live_faults s' = Some (replicate (length rs) None) \<and>
    fault_trigger_addresses s' = Some (map (\<lambda>r. trig_address (f_trigger (the (get_fault r s)))) rs) \<and>
    (\<forall>i < length rs. get_fault (rs ! i) s' = map_option (with_trignum i) (get_fault (rs ! i) s))"
proof -
  let ?n = "length rs"
  let ?v = "map (malloc_junk e (mallocs s)) [0..<?n]"
  let ?t = "s\<lparr>fault_number := int ?n, mallocs := Suc (Suc (mallocs s)),
              fault_trigger_addresses := Some ?v, live_faults := Some (replicate ?n None)\<rparr>"
  have ch: "chain fn_next (fault_heap s) (first_fault s) rs" using assms(2) by (simp add: fault_refs_def)
  have refs: "fault_refs ?t ([] @ rs)" using assms(2) by (simp add: fault_refs_same)
  have first: "return_first_fault ?t = (case rs of [] \<Rightarrow> None | r # _ \<Rightarrow> Some r)"
    using ch assms(3) by (cases rs) (auto simp: return_first_fault_def)
  have get: "get_fault r ?t = get_fault r s" for r by (simp add: get_fault_def)
  have vec: "fault_trigger_addresses ?t = Some ?v" "length ?v = length ([] @ rs)"
    "live_faults ?t = Some (replicate (length ([] @ rs)) None)" by simp_all
  note run0 = register_triggers_ok [OF refs list.size(3) first vec]
  obtain u where u: "register_triggers 0 ?n (return_first_fault ?t) ?t = Some u" "triggers_only ?t u"
    "fault_refs u ([] @ rs)" "fault_number u = fault_number ?t" "live_faults u = live_faults ?t"
    "fault_trigger_addresses u =
       Some (take 0 ?v @ map (\<lambda>r. trig_address (f_trigger (the (get_fault r ?t)))) rs)"
    "\<forall>i < ?n. get_fault (rs ! i) u = map_option (with_trignum (0 + i)) (get_fault (rs ! i) ?t)"
    using run0 by (elim exE conjE) (rule that)
  have "triggers_only s (s\<lparr>mallocs := Suc (Suc (mallocs s)), fault_heap := fault_heap s,
      fault_trigger_addresses := Some ?v, live_faults := Some (replicate ?n None), fault_number := int ?n\<rparr>)"
    by (rule triggers_onlyI) simp
  then have "triggers_only s u" by (rule triggers_only_via [OF _ _ u(2)]) (intro trigger_state.equality; simp)
  moreover have "register_fault_trigger_addresses e s = Some (0, u)"
    using assms(1,3) walk_count [OF ch] u(1)
    by (simp add: register_fault_trigger_addresses_def plenty_malloc return_first_fault_def Let_def)
  ultimately show ?thesis using u(3-7) unfolding get append_Nil add_0 by (intro exI [of _ u]) simp
qed


section \<open>Lookup by trigger\<close>

lemma find_at:
  assumes "i < length xs" "P (xs ! i)" "\<And>j. j < length xs \<Longrightarrow> j \<noteq> i \<Longrightarrow> \<not> P (xs ! j)"
  shows "List.find P xs = Some (xs ! i)"
proof -
  have "List.find P xs \<noteq> None" using assms(1,2) by (metis find_None_iff nth_mem)
  then obtain x where x: "List.find P xs = Some x" by blast
  then obtain j where "j < length xs" "P (xs ! j)" "x = xs ! j" by (auto simp: find_Some_iff)
  with assms(3) x show ?thesis by auto
qed

lemma registered_lookup:
  assumes "fault_refs s rs" "i < length rs" "length rs < 2 ^ 31"
    and "\<forall>j < length rs. \<exists>f. get_fault (rs ! j) s = Some f \<and> trignum (f_trigger f) = of_nat j"
    and "get_fault (rs ! i) s = Some f"
  shows "get_fault_struct_by_trigger (trig_address (f_trigger f)) (of_nat i) s = Some (Some (rs ! i))"
proof -
  have "List.find (\<lambda>r. \<exists>g. get_fault r s = Some g \<and> trig_address (f_trigger g) = trig_address (f_trigger f) \<and>
      trignum (f_trigger g) = of_nat i) rs = Some (rs ! i)"
  proof (rule find_at)
    show "i < length rs" by (rule assms(2))
    show "\<exists>g. get_fault (rs ! i) s = Some g \<and> trig_address (f_trigger g) = trig_address (f_trigger f) \<and>
        trignum (f_trigger g) = of_nat i"
      using assms(2,4,5) by auto
    fix j assume j: "j < length rs" "j \<noteq> i"
    then have "(of_nat j :: u64) \<noteq> of_nat i"
      using of_nat_u64_inj [of j i] assms(2,3) by auto
    with j assms(4) show "\<not> (\<exists>g. get_fault (rs ! j) s = Some g \<and>
        trig_address (f_trigger g) = trig_address (f_trigger f) \<and> trignum (f_trigger g) = of_nat i)"
      by force
  qed
  then show ?thesis using get_fault_struct_by_trigger_find [OF assms(1)] by simp
qed

text \<open>
  C20. Registration of the triggers: for a list of faults that is not empty, the trigger vector gets
  the trigger address of every fault in the order of the list, the vector of live faults gets as
  many empty places, and every fault is found again by the address in its place and the number of
  the place - also when several faults share one trigger address.  Nothing else in a fault changes.
\<close>

theorem registered_triggers_are_found:
  assumes "plenty e" "fault_refs s rs" "rs \<noteq> []" "length rs < 2 ^ 31"
  shows "\<exists>s' v. register_fault_trigger_addresses e s = Some (0, s') \<and>
    fault_number s' = int (length rs) \<and> live_faults s' = Some (replicate (length rs) None) \<and>
    fault_trigger_addresses s' = Some v \<and> length v = length rs \<and>
    (\<forall>i < length rs. \<exists>f. get_fault (rs ! i) s = Some f \<and> v ! i = trig_address (f_trigger f) \<and>
       get_fault (rs ! i) s' = Some (with_trignum i f) \<and>
       get_fault_struct_by_trigger (v ! i) (of_nat i) s' = Some (Some (rs ! i)))"
proof -
  obtain s' where s': "register_fault_trigger_addresses e s = Some (0, s')" "fault_refs s' rs"
    "fault_number s' = int (length rs)" "live_faults s' = Some (replicate (length rs) None)"
    "fault_trigger_addresses s' = Some (map (\<lambda>r. trig_address (f_trigger (the (get_fault r s)))) rs)"
    "\<forall>i < length rs. get_fault (rs ! i) s' = map_option (with_trignum i) (get_fault (rs ! i) s)"
    using register_fault_trigger_addresses_ok [OF assms(1-3)] by (elim exE conjE) (rule that)
  have live: "\<exists>f. get_fault (rs ! i) s = Some f" if "i < length rs" for i
    using fault_refs_live [OF assms(2)] that by simp
  have num: "\<forall>j < length rs. \<exists>f. get_fault (rs ! j) s' = Some f \<and> trignum (f_trigger f) = of_nat j"
    using s'(6) live by (fastforce simp: with_trignum_def)
  have "\<exists>f. get_fault (rs ! i) s = Some f \<and>
      map (\<lambda>r. trig_address (f_trigger (the (get_fault r s)))) rs ! i = trig_address (f_trigger f) \<and>
      get_fault (rs ! i) s' = Some (with_trignum i f) \<and>
      get_fault_struct_by_trigger (map (\<lambda>r. trig_address (f_trigger (the (get_fault r s)))) rs ! i)
        (of_nat i) s' = Some (Some (rs ! i))" if i: "i < length rs" for i
  proof -
    obtain f where f: "get_fault (rs ! i) s = Some f" using live [OF i] by blast
    then have f': "get_fault (rs ! i) s' = Some (with_trignum i f)" using s'(6) i by simp
    show ?thesis
      using registered_lookup [OF s'(2) i assms(4) num f'] f f' i by (simp add: with_trignum_def)
  qed
  with s'(1,3-5) show ?thesis by (intro exI conjI) (assumption | simp)+
qed

definition flat_triggers :: "flat trigger_state" where
  "flat_triggers = tb_faulted_state.extend flat_faulted
     \<lparr>fault_trigger_addresses = None, live_faults = None, fault_number = 0, live_faults_number = 0\<rparr>"

text \<open>Two faults with one trigger address.\<close>

definition two_faults :: "flat trigger_state" where
  "two_faults =
     snd (add_fault flat_env 64 1 2 0 (replicate 16 255) 16 1 1
       (snd (add_fault flat_env 32 0 0 5 (replicate 16 1) 16 2 1 flat_triggers)))"

lemma flat_triggers_refs: "fault_refs flat_triggers []"
  by (simp add: fault_refs_def flat_triggers_def flat_faulted_def tb_faulted_state.defs)

lemma two_faults_refs: "fault_refs two_faults [1, 0]"
proof -
  let ?s = "snd (add_fault flat_env 32 0 0 5 (replicate 16 1) 16 2 1 flat_triggers)"
  note step = add_fault_refs [where e = flat_env, simplified case_prod_beta]
  have ok: "malloc_ok flat_env n" for n by (simp add: flat_env_def)
  have m: "mallocs flat_triggers = 0" by (simp add: flat_triggers_def flat_faulted_def tb_faulted_state.defs)
  then have m': "mallocs ?s = 1" by (simp add: add_fault_def malloc_def ok)
  have "fault_refs ?s [0]"
    using step [OF flat_triggers_refs] m by (simp add: ok)
  then show ?thesis
    using step [of ?s "[0]"] m' by (simp add: ok two_faults_def)
qed

theorem registered_triggers_are_found_witness:
  "\<exists>s' v. register_fault_trigger_addresses flat_env two_faults = Some (0, s') \<and>
    fault_number s' = 2 \<and> fault_trigger_addresses s' = Some v \<and>
    get_fault_struct_by_trigger (v ! 0) 0 s' = Some (Some 1) \<and>
    get_fault_struct_by_trigger (v ! 1) 1 s' = Some (Some 0)"
proof -
  have len: "length [1, 0 :: ref] < 2 ^ 31" by simp
  obtain s' v where s': "register_fault_trigger_addresses flat_env two_faults = Some (0, s')"
    "fault_number s' = int (length [1, 0 :: ref])" "fault_trigger_addresses s' = Some v"
    and all: "\<forall>i < length [1, 0 :: ref]. \<exists>f. get_fault ([1, 0] ! i) two_faults = Some f \<and>
       v ! i = trig_address (f_trigger f) \<and> get_fault ([1, 0] ! i) s' = Some (with_trignum i f) \<and>
       get_fault_struct_by_trigger (v ! i) (of_nat i) s' = Some (Some ([1, 0] ! i))"
    using registered_triggers_are_found [OF flat_plenty two_faults_refs _ len] by auto
  from all have "get_fault_struct_by_trigger (v ! 0) 0 s' = Some (Some 1)" by (auto dest: spec [of _ 0])
  moreover from all have "get_fault_struct_by_trigger (v ! 1) 1 s' = Some (Some 0)"
    by (auto dest!: spec [of _ 1])
  ultimately show ?thesis using s' by simp
qed

end
