(* ===== verification/FaultInjection.thy ===== *)
theory FaultInjection
  imports Triggers
begin

text \<open>
  \<^verbatim>\<open>faultplugin/fault_injection.c\<close>: the injection of a fault into memory or a register of the guest, and
  its reversal.  A memory fault works on a block of sixteen bytes, a register fault on the eight
  bytes of a register; the bits named by the fault's mask are cleared, set, toggled or overwritten,
  and the bits that were there are kept in the fault's restore mask.
\<close>

unbundle bit_operations_syntax

section \<open>Fault types and models\<close>

definition DATA :: u64 where "DATA = 0"
definition INSTRUCTION :: u64 where "INSTRUCTION = 1"
definition REGISTER :: u64 where "REGISTER = 2"

definition SET0 :: u64 where "SET0 = 0"
definition SET1 :: u64 where "SET1 = 1"
definition TOGGLE :: u64 where "TOGGLE = 2"
definition OVERWRITE :: u64 where "OVERWRITE = 3"

lemmas fault_enums =
  DATA_def INSTRUCTION_def REGISTER_def SET0_def SET1_def TOGGLE_def OVERWRITE_def

section \<open>Memory faults\<close>

text \<open>
  The loops over a buffer and a mask: one result byte per index.  An index outside one of the two
  arrays is \<open>None\<close>.
\<close>

definition per_byte :: "(u8 \<Rightarrow> u8 \<Rightarrow> u8) \<Rightarrow> nat \<Rightarrow> u8 list \<Rightarrow> u8 list \<Rightarrow> u8 list option" where
  "per_byte f n value msk =
     those (map (\<lambda>i. do { v \<leftarrow> arr_get value i; m \<leftarrow> arr_get msk i; Some (f v m) }) [0..<n])"

text \<open>
  The return codes of the two calls of QEMU only decide about a message.  The functions return the
  restore mask, which in the code is an array of the caller.
\<close>

definition process_set0_memory ::
  "'g env \<Rightarrow> u64 \<Rightarrow> u8 list \<Rightarrow> ('g, 'z) machine_scheme \<Rightarrow> (u8 list \<times> ('g, 'z) machine_scheme) option" where
  "process_set0_memory e address msk s =
     (case read_mem e address 16 (guest s) of
        (_, value, g) \<Rightarrow> do {
          restoremask \<leftarrow> per_byte (\<lambda>v m. v AND m) 16 value msk;
          value \<leftarrow> per_byte (\<lambda>v m. v AND NOT m) 16 value msk;
          Some (restoremask, s\<lparr>guest := snd (write_mem e address value g)\<rparr>)
        })"

definition process_set1_memory ::
  "'g env \<Rightarrow> u64 \<Rightarrow> u8 list \<Rightarrow> ('g, 'z) machine_scheme \<Rightarrow> (u8 list \<times> ('g, 'z) machine_scheme) option" where
  "process_set1_memory e address msk s =
     (case read_mem e address 16 (guest s) of
        (_, value, g) \<Rightarrow> do {
          restoremask \<leftarrow> per_byte (\<lambda>v m. v AND m) 16 value msk;
          value \<leftarrow> per_byte (\<lambda>v m. v OR m) 16 value msk;
          Some (restoremask, s\<lparr>guest := snd (write_mem e address value g)\<rparr>)
        })"

definition process_toggle_memory ::
  "'g env \<Rightarrow> u64 \<Rightarrow> u8 list \<Rightarrow> ('g, 'z) machine_scheme \<Rightarrow> (u8 list \<times> ('g, 'z) machine_scheme) option" where
  "process_toggle_memory e address msk s =
     (case read_mem e address 16 (guest s) of
        (_, value, g) \<Rightarrow> do {
          restoremask \<leftarrow> per_byte (\<lambda>v m. v AND m) 16 value msk;
          value \<leftarrow> per_byte (\<lambda>v m. v XOR m) 16 value msk;
          Some (restoremask, s\<lparr>guest := snd (write_mem e address value g)\<rparr>)
        })"

definition process_overwrite_memory ::
  "'g env \<Rightarrow> u64 \<Rightarrow> u8 \<Rightarrow> u8 list \<Rightarrow> ('g, 'z) machine_scheme \<Rightarrow> (u8 list \<times> ('g, 'z) machine_scheme) option" where
  "process_overwrite_memory e address num_bytes msk s =
     (let n = (if num_bytes > 16 then 16 else unat num_bytes) in
      case read_mem e address n (guest s) of
        (_, value, g) \<Rightarrow> do {
          restoremask \<leftarrow> per_byte (\<lambda>v m. v) n value msk;
          value \<leftarrow> per_byte (\<lambda>v m. m) n value msk;
          Some (restoremask @ replicate (16 - n) 0, s\<lparr>guest := snd (write_mem e address value g)\<rparr>)
        })"

definition process_reverse_fault ::
  "'g env \<Rightarrow> u64 \<Rightarrow> u8 list \<Rightarrow> u8 list \<Rightarrow> ('g, 'z) machine_scheme \<Rightarrow> ('g, 'z) machine_scheme option" where
  "process_reverse_fault e address msk restoremask s =
     (case read_mem e address 16 (guest s) of
        (_, value, g) \<Rightarrow> do {
          value \<leftarrow> per_byte (\<lambda>v m. v AND NOT m) 16 value msk;
          value \<leftarrow> per_byte (\<lambda>v r. v OR r) 16 value restoremask;
          Some (s\<lparr>guest := snd (write_mem e address value g)\<rparr>)
        })"

definition inject_memory_fault ::
  "'g env \<Rightarrow> ref \<Rightarrow> ('g, 'z) fault_list_state_scheme \<Rightarrow> ('g, 'z) fault_list_state_scheme option" where
  "inject_memory_fault e current s = do {
     f \<leftarrow> get_fault current s;
     (restoremask, s) \<leftarrow>
       (if f_model f = SET0 then process_set0_memory e (f_address f) (f_mask f) s
        else if f_model f = SET1 then process_set1_memory e (f_address f) (f_mask f) s
        else if f_model f = TOGGLE then process_toggle_memory e (f_address f) (f_mask f) s
        else if f_model f = OVERWRITE
          then process_overwrite_memory e (f_address f) (f_num_bytes f) (f_mask f) s
        else Some (f_restoremask f, s));
     put_fault current (f\<lparr>f_restoremask := restoremask\<rparr>) s
   }"

section \<open>Register faults\<close>

text \<open>
  The mask of a register fault is collected with \<^verbatim>\<open>mask[i] << 8*i\<close>, an \<^verbatim>\<open>int\<close> shift whose result is
  converted to \<^verbatim>\<open>uint64_t\<close>.
\<close>

fun register_masks ::
  "'g env \<Rightarrow> u64 \<Rightarrow> u8 list \<Rightarrow> nat list \<Rightarrow> u8 list \<Rightarrow> u64 \<Rightarrow> (u8 list \<times> u64) option" where
  "register_masks e reg fmask [] restoremask msk = Some (restoremask, msk)"
| "register_masks e reg fmask (i # is) restoremask msk = do {
     m \<leftarrow> arr_get fmask i;
     restoremask \<leftarrow> arr_set restoremask i (ucast (drop_bit (8 * i) reg AND ucast m));
     register_masks e reg fmask is restoremask (msk + int_to_u64 (int_shl e (ucast m) (8 * i)))
   }"

fun overwrite_register ::
  "'g env \<Rightarrow> u8 list \<Rightarrow> nat list \<Rightarrow> u8 list \<Rightarrow> u64 \<Rightarrow> u64 \<Rightarrow> (u8 list \<times> u64 \<times> u64) option" where
  "overwrite_register e fmask [] restoremask reg msk = Some (restoremask, reg, msk)"
| "overwrite_register e fmask (i # is) restoremask reg msk = do {
     restoremask \<leftarrow> arr_set restoremask i (ucast (drop_bit (8 * i) reg AND 0xff));
     let clear = int_to_u64 (int_shl e 0xff (8 * i));
     let reg = reg AND NOT clear;
     m \<leftarrow> arr_get fmask i;
     let reg = reg + int_to_u64 (int_shl e (ucast m) (8 * i));
     let msk = msk + clear;
     overwrite_register e fmask is restoremask reg msk
   }"

definition inject_register_fault ::
  "'g env \<Rightarrow> ref \<Rightarrow> ('g, 'z) fault_list_state_scheme \<Rightarrow> ('g, 'z) fault_list_state_scheme option" where
  "inject_register_fault e current s = do {
     f \<leftarrow> get_fault current s;
     let reg = read_reg e (f_address f) (guest s);
     (restoremask, msk) \<leftarrow> register_masks e reg (f_mask f) [0..<8] (f_restoremask f) 0;
     let f = f\<lparr>f_restoremask := restoremask\<rparr>;
     (f, reg) \<leftarrow>
       (if f_model f = SET0 then Some (f, reg AND NOT msk)
        else if f_model f = SET1 then Some (f, reg OR msk)
        else if f_model f = TOGGLE then Some (f, reg XOR msk)
        else if f_model f = OVERWRITE then do {
          let f = (if f_num_bytes f > 8 then f\<lparr>f_num_bytes := 8\<rparr> else f);
          (restoremask, reg, msk) \<leftarrow>
            overwrite_register e (f_mask f) [0..<unat (f_num_bytes f)] (f_restoremask f) reg 0;
          Some (f\<lparr>f_restoremask := restoremask\<rparr>, reg)
        } else Some (f, reg));
     s \<leftarrow> put_fault current f s;
     Some (s\<lparr>guest := write_reg e (f_address f) reg (guest s)\<rparr>)
   }"

fun restore_register :: "u8 list \<Rightarrow> u8 list \<Rightarrow> nat list \<Rightarrow> u64 \<Rightarrow> u64 option" where
  "restore_register fmask restoremask [] reg = Some reg"
| "restore_register fmask restoremask (i # is) reg = do {
     m \<leftarrow> arr_get fmask i;
     let reg = reg AND NOT (push_bit (8 * i) (ucast m));
     r \<leftarrow> arr_get restoremask i;
     restore_register fmask restoremask is (reg OR push_bit (8 * i) (ucast r))
   }"

definition reverse_register_fault ::
  "'g env \<Rightarrow> ref \<Rightarrow> ('g, 'z) fault_list_state_scheme \<Rightarrow> ('g, 'z) fault_list_state_scheme option" where
  "reverse_register_fault e current s = do {
     f \<leftarrow> get_fault current s;
     reg \<leftarrow> restore_register (f_mask f) (f_restoremask f) [0..<8] (read_reg e (f_address f) (guest s));
     Some (s\<lparr>guest := write_reg e (f_address f) reg (guest s)\<rparr>)
   }"

section \<open>Injection and reversal of a fault\<close>

definition flush_guest :: "'g env \<Rightarrow> ('g, 'z) machine_scheme \<Rightarrow> ('g, 'z) machine_scheme" where
  "flush_guest e s = s\<lparr>guest := flush_tb e (guest s)\<rparr>"

text \<open>The three branches on the type of the fault.\<close>

definition inject_by_type ::
  "'g env \<Rightarrow> ref \<Rightarrow> fault \<Rightarrow> ('g, 'z) trigger_state_scheme \<Rightarrow> ('g, 'z) trigger_state_scheme option" where
  "inject_by_type e current f s =
     (if f_type f = INSTRUCTION then do {
        (_, s) \<leftarrow> insert_memorydump_config e (f_address f) 16 s;
        s \<leftarrow> read_specific_memoryregion e (f_address f) s;
        s \<leftarrow> tb_faulted_register e (f_address f) s;
        s \<leftarrow> inject_memory_fault e current s;
        read_specific_memoryregion e (f_address f) (flush_guest e s)
      } else if f_type f = DATA then do {
        (_, s) \<leftarrow> insert_memorydump_config e (f_address f) 16 s;
        s \<leftarrow> read_specific_memoryregion e (f_address f) s;
        s \<leftarrow> inject_memory_fault e current s;
        read_specific_memoryregion e (f_address f) (flush_guest e s)
      } else if f_type f = REGISTER then inject_register_fault e current s
      else Some s)"

definition inject_fault ::
  "'g env \<Rightarrow> ref option \<Rightarrow> ('g, 'z) trigger_state_scheme \<Rightarrow> ('g, 'z) trigger_state_scheme option" where
  "inject_fault e current s =
     (case current of
        None \<Rightarrow> Some s
      | Some r \<Rightarrow> do {
          f \<leftarrow> get_fault r s;
          s \<leftarrow> inject_by_type e r f s;
          f \<leftarrow> get_fault r s;
          s \<leftarrow> invalidate_fault_trigger_address (u64_to_int (trignum (f_trigger f))) s;
          let s = rem_singlestep_req e s;
          s \<leftarrow> (if f_lifetime f \<noteq> 0 then do {
                  (n, s) \<leftarrow> register_live_faults_callback e r s;
                  set_fault_trigger_num r (of_int n) s
                } else Some s);
          f \<leftarrow> get_fault r s;
          (_, s) \<leftarrow> add_new_registerdump e (trignum (f_trigger f)) s;
          Some s
        })"

text \<open>
  \<^verbatim>\<open>reverse_fault\<close> reads \<^verbatim>\<open>current->fault\<close> after the test for \<^verbatim>\<open>NULL\<close> as well: with \<^verbatim>\<open>NULL\<close> the result is
  \<open>None\<close>.
\<close>

definition reverse_by_type ::
  "'g env \<Rightarrow> ref \<Rightarrow> fault \<Rightarrow> ('g, 'z) trigger_state_scheme \<Rightarrow> ('g, 'z) trigger_state_scheme option" where
  "reverse_by_type e current f s =
     (if f_type f = INSTRUCTION \<or> f_type f = DATA then do {
        s \<leftarrow> process_reverse_fault e (f_address f) (f_mask f) (f_restoremask f) s;
        read_specific_memoryregion e (f_address f) (flush_guest e s)
      } else if f_type f = REGISTER then reverse_register_fault e current s
      else Some s)"

definition reverse_fault ::
  "'g env \<Rightarrow> ref option \<Rightarrow> ('g, 'z) trigger_state_scheme \<Rightarrow> ('g, 'z) trigger_state_scheme option" where
  "reverse_fault e current s = do {
     s \<leftarrow> (case current of
             None \<Rightarrow> Some s
           | Some r \<Rightarrow> do { f \<leftarrow> get_fault r s; reverse_by_type e r f s });
     let s = rem_singlestep_req e s;
     r \<leftarrow> current;
     f \<leftarrow> get_fault r s;
     (_, s) \<leftarrow> add_new_registerdump e (trignum (f_trigger f)) s;
     Some s
   }"


section \<open>A memory fault, byte by byte\<close>

lemma per_byte_in:
  assumes "n \<le> length value" "n \<le> length fmask"
  shows "per_byte f n value fmask = Some (map (\<lambda>i. f (value ! i) (fmask ! i)) [0..<n])"
proof -
  have each: "map (\<lambda>i. do { v \<leftarrow> arr_get value i; m \<leftarrow> arr_get fmask i; Some (f v m) }) [0..<n] =
      map (\<lambda>i. Some (f (value ! i) (fmask ! i))) [0..<n]"
    using assms by simp
  have "those (map (\<lambda>i. Some (g i)) xs) = Some (map g xs)" for g :: "nat \<Rightarrow> u8" and xs
    by (induction xs) simp_all
  then show ?thesis unfolding per_byte_def each .
qed

lemma per_byte_map:
  "n \<le> length fmask \<Longrightarrow>
   per_byte f n (map g [0..<n]) fmask = Some (map (\<lambda>i. f (g i) (fmask ! i)) [0..<n])"
  by (subst per_byte_in) (simp_all cong: map_cong)

text \<open>
  What a fault model does to a byte or a register, and what the plugin needs of it to undo it: the bits outside
  the mask stay.
\<close>

locale mask_fault =
  fixes inject :: "'w::len word \<Rightarrow> 'w word \<Rightarrow> 'w word"
  assumes outside: "inject v m AND NOT m = v AND NOT m"
begin

lemma undo: "(inject v m AND NOT m) OR (v AND m) = v"
proof -
  have "(inject v m AND NOT m) OR (v AND m) = (v AND NOT m) OR (v AND m)" by (simp only: outside)
  also have "\<dots> = v" by (rule bit_word_eqI) (auto simp: bit_simps)
  finally show ?thesis .
qed

lemma unmasked: "inject v 0 = v"
  using outside [of v 0] by simp

end

interpretation set0: mask_fault "\<lambda>v m. v AND NOT m"
  by unfold_locales (rule bit_word_eqI, auto simp: bit_simps)

interpretation set1: mask_fault "\<lambda>v m. v OR m"
  by unfold_locales (rule bit_word_eqI, auto simp: bit_simps)

interpretation toggle: mask_fault "\<lambda>v m. v XOR m"
  by unfold_locales (rule bit_word_eqI, auto simp: bit_simps)

text \<open>The value a fault model makes of \<open>v\<close> under the mask \<open>m\<close>, for the models that keep the other bits.\<close>

definition faulty :: "u64 \<Rightarrow> 'w::len word \<Rightarrow> 'w word \<Rightarrow> 'w word" where
  "faulty model v m =
     (if model = SET0 then v AND NOT m else if model = SET1 then v OR m else v XOR m)"

definition bit_model :: "u64 \<Rightarrow> bool" where
  "bit_model model \<longleftrightarrow> model = SET0 \<or> model = SET1 \<or> model = TOGGLE"

lemma faulty_outside: "faulty model v m AND NOT m = v AND NOT m"
  by (simp add: faulty_def set0.outside set1.outside toggle.outside)

interpretation bit_fault: mask_fault "faulty model" for model
  by unfold_locales (rule faulty_outside)

section \<open>Memory faults on plain memory\<close>

lemma length_block_bytes [simp]: "length (map f [0..<n]) = n"
  by simp

lemma ram_write_guest:
  assumes "ram e byte A" "block a (length bs) \<subseteq> A"
  shows "byte (snd (write_mem e a bs g)) = put_bytes a bs (byte g)"
  using ram_write [OF assms, of g] by auto

definition memory_change ::
  "('g \<Rightarrow> u64 \<Rightarrow> u8) \<Rightarrow> u64 \<Rightarrow> nat \<Rightarrow> (nat \<Rightarrow> u8 \<Rightarrow> u8) \<Rightarrow> 'g \<Rightarrow> 'g \<Rightarrow> bool" where
  "memory_change byte a n f g g' \<longleftrightarrow>
     (\<forall>i < n. byte g' (a + of_nat i) = f i (byte g (a + of_nat i))) \<and>
     (\<forall>x. x \<notin> block a n \<longrightarrow> byte g' x = byte g x)"

lemma memory_change_write:
  assumes "ram e byte A" "block a n \<subseteq> A" "n \<le> 16"
  shows "memory_change byte a n f g
    (snd (write_mem e a (map (\<lambda>i. f i (get_bytes a n (byte g) ! i)) [0..<n]) g))"
proof -
  let ?bs = "map (\<lambda>i. f i (get_bytes a n (byte g) ! i)) [0..<n]"
  have w: "byte (snd (write_mem e a ?bs g)) = put_bytes a ?bs (byte g)"
    using assms by (intro ram_write_guest [of e byte A]) simp_all
  show ?thesis
    using assms(3) unfolding memory_change_def w
    by (auto simp: put_bytes_inside put_bytes_outside)
qed

lemma memory_change_cong:
  "memory_change byte a n f g g' \<Longrightarrow> (\<And>i v. i < n \<Longrightarrow> f i v = f' i v) \<Longrightarrow> memory_change byte a n f' g g'"
  by (simp add: memory_change_def)

lemma process_bit_memory:
  fixes s :: "('g, 'z) machine_scheme"
  assumes "ram e byte A" "block a 16 \<subseteq> A" "length fmask = 16"
  defines "v \<equiv> get_bytes a 16 (byte (guest s))"
  defines "w \<equiv> \<lambda>f. s\<lparr>guest := snd (write_mem e a (map (\<lambda>i. f (v ! i) (fmask ! i)) [0..<16]) (guest s))\<rparr>"
  shows "process_set0_memory e a fmask s =
      Some (map (\<lambda>i. v ! i AND fmask ! i) [0..<16], w (\<lambda>v m. v AND NOT m))"
    and "process_set1_memory e a fmask s =
      Some (map (\<lambda>i. v ! i AND fmask ! i) [0..<16], w (\<lambda>v m. v OR m))"
    and "process_toggle_memory e a fmask s =
      Some (map (\<lambda>i. v ! i AND fmask ! i) [0..<16], w (\<lambda>v m. v XOR m))"
  using assms(3)
  by (simp_all add: process_set0_memory_def process_set1_memory_def process_toggle_memory_def
      ram_read [OF assms(1,2)] per_byte_in v_def w_def del: nth_get_bytes upt_rec_numeral)

lemma inject_memory_fault_bits:
  fixes s :: "('g, 'z) fault_list_state_scheme"
  assumes "ram e byte A" "get_fault r s = Some f" "block (f_address f) 16 \<subseteq> A" "length (f_mask f) = 16"
    and "bit_model (f_model f)"
  defines "v \<equiv> get_bytes (f_address f) 16 (byte (guest s))"
  shows "inject_memory_fault e r s =
    put_fault r (f\<lparr>f_restoremask := map (\<lambda>i. v ! i AND f_mask f ! i) [0..<16]\<rparr>)
      (s\<lparr>guest := snd (write_mem e (f_address f)
        (map (\<lambda>i. faulty (f_model f) (v ! i) (f_mask f ! i)) [0..<16]) (guest s))\<rparr>)"
proof -
  consider "f_model f = SET0" | "f_model f = SET1" | "f_model f = TOGGLE"
    using assms(5) by (auto simp: bit_model_def)
  then show ?thesis
    unfolding v_def inject_memory_fault_def assms(2)
    by cases (simp_all add: process_bit_memory [OF assms(1,3,4)] faulty_def fault_enums
        del: nth_get_bytes upt_rec_numeral)
qed

lemma inject_memory_fault_change:
  assumes "ram e byte A" "get_fault r s = Some f" "block (f_address f) 16 \<subseteq> A" "length (f_mask f) = 16"
    and "bit_model (f_model f)"
  shows "\<exists>s'. inject_memory_fault e r s = Some s' \<and>
    memory_change byte (f_address f) 16 (\<lambda>i v. faulty (f_model f) v (f_mask f ! i)) (guest s) (guest s') \<and>
    get_fault r s' = Some (f\<lparr>f_restoremask :=
      map (\<lambda>i. byte (guest s) (f_address f + of_nat i) AND f_mask f ! i) [0..<16]\<rparr>)"
proof -
  let ?v = "get_bytes (f_address f) 16 (byte (guest s))"
  let ?g = "snd (write_mem e (f_address f)
    (map (\<lambda>i. faulty (f_model f) (?v ! i) (f_mask f ! i)) [0..<16]) (guest s))"
  let ?f = "f\<lparr>f_restoremask := map (\<lambda>i. byte (guest s) (f_address f + of_nat i) AND f_mask f ! i) [0..<16]\<rparr>"
  obtain n where n: "fault_heap s r = Some n" "fn_fault n = f"
    using assms(2) by (auto simp: get_fault_def)
  let ?s' = "s\<lparr>guest := ?g, fault_heap := (fault_heap s)(r \<mapsto> n\<lparr>fn_fault := ?f\<rparr>)\<rparr>"
  have change: "memory_change byte (f_address f) 16 (\<lambda>i v. faulty (f_model f) v (f_mask f ! i)) (guest s) ?g"
    using memory_change_write [OF assms(1,3), of "\<lambda>i v. faulty (f_model f) v (f_mask f ! i)"] by simp
  have "map (\<lambda>i. ?v ! i AND f_mask f ! i) [0..<16] =
      map (\<lambda>i. byte (guest s) (f_address f + of_nat i) AND f_mask f ! i) [0..<16]"
    by (rule map_cong) simp_all
  then have "inject_memory_fault e r s = Some ?s'"
    unfolding inject_memory_fault_bits [OF assms] using n by (simp only:) (simp add: put_fault_def)
  moreover have "get_fault r ?s' = Some ?f" by (simp add: get_fault_def)
  ultimately show ?thesis using change by (intro exI [of _ ?s']) simp
qed

lemma process_reverse_fault_change:
  assumes "ram e byte A" "block a 16 \<subseteq> A" "length fmask = 16" "length restoremask = 16"
  shows "\<exists>s'. process_reverse_fault e a fmask restoremask s = Some s' \<and>
    memory_change byte a 16 (\<lambda>i v. (v AND NOT (fmask ! i)) OR restoremask ! i) (guest s) (guest s') \<and>
    s' = s\<lparr>guest := guest s'\<rparr>"
proof -
  let ?v = "get_bytes a 16 (byte (guest s))"
  let ?g = "snd (write_mem e a (map (\<lambda>i. (?v ! i AND NOT (fmask ! i)) OR restoremask ! i) [0..<16]) (guest s))"
  have "memory_change byte a 16 (\<lambda>i v. (v AND NOT (fmask ! i)) OR restoremask ! i) (guest s) ?g"
    using memory_change_write [OF assms(1,2), of "\<lambda>i v. (v AND NOT (fmask ! i)) OR restoremask ! i"] by simp
  moreover have "process_reverse_fault e a fmask restoremask s = Some (s\<lparr>guest := ?g\<rparr>)"
    using assms(3,4) per_byte_in [of 16 ?v fmask "\<lambda>v m. v AND NOT m"]
      per_byte_map [of 16 restoremask "\<lambda>v r. v OR r" "\<lambda>i. ?v ! i AND NOT (fmask ! i)"]
    by (simp add: process_reverse_fault_def ram_read [OF assms(1,2)] del: nth_get_bytes upt_rec_numeral)
  ultimately show ?thesis by (intro exI [of _ "s\<lparr>guest := ?g\<rparr>"]) simp
qed


lemma memory_change_trans:
  assumes "memory_change byte a n f g h" "memory_change byte a n f' h k"
  shows "memory_change byte a n (\<lambda>i v. f' i (f i v)) g k"
  using assms by (auto simp: memory_change_def)

lemma memory_change_id:
  assumes "memory_change byte a n f g h" "\<And>i. i < n \<Longrightarrow> f i (byte g (a + of_nat i)) = byte g (a + of_nat i)"
  shows "byte h = byte g"
proof
  fix x
  show "byte h x = byte g x"
  proof (cases "x \<in> block a n")
    case True
    then obtain i where "i < n" "x = a + of_nat i" by (auto simp: block_def)
    with assms show ?thesis by (simp add: memory_change_def)
  next
    case False
    with assms(1) show ?thesis by (simp add: memory_change_def)
  qed
qed

lemma memory_change_agree:
  "memory_change byte a n f g k \<Longrightarrow> byte h = byte g \<Longrightarrow> memory_change byte a n f h k"
  by (simp add: memory_change_def)

text \<open>
  C14. A memory fault of one of the models SET0, SET1 and TOGGLE changes exactly the sixteen bytes at
  its address, each as its model says and only in the bits of its mask.  Its reversal in any later
  state \<open>g\<close> of the guest gives the masked bits the values they had before the injection and leaves
  all other bits as the guest has them; if the guest did not write to memory in between, memory is
  what it was before the injection.
\<close>

theorem memory_fault_injected_and_undone:
  assumes "ram e byte A" "get_fault r s = Some f" "block (f_address f) 16 \<subseteq> A" "length (f_mask f) = 16"
    and "bit_model (f_model f)"
  shows "\<exists>s1 f1. inject_memory_fault e r s = Some s1 \<and> get_fault r s1 = Some f1 \<and>
    memory_change byte (f_address f) 16 (\<lambda>i v. faulty (f_model f) v (f_mask f ! i)) (guest s) (guest s1) \<and>
    (\<forall>g. \<exists>s2. process_reverse_fault e (f_address f1) (f_mask f1) (f_restoremask f1) (s1\<lparr>guest := g\<rparr>) = Some s2 \<and>
       memory_change byte (f_address f) 16
         (\<lambda>i v. (v AND NOT (f_mask f ! i)) OR (byte (guest s) (f_address f + of_nat i) AND f_mask f ! i))
         g (guest s2) \<and>
       (byte g = byte (guest s1) \<longrightarrow> byte (guest s2) = byte (guest s)))"
proof -
  let ?a = "f_address f"
  let ?v = "\<lambda>i. byte (guest s) (?a + of_nat i)"
  obtain s1 where s1: "inject_memory_fault e r s = Some s1"
    "memory_change byte ?a 16 (\<lambda>i v. faulty (f_model f) v (f_mask f ! i)) (guest s) (guest s1)"
    "get_fault r s1 = Some (f\<lparr>f_restoremask := map (\<lambda>i. ?v i AND f_mask f ! i) [0..<16]\<rparr>)"
    using inject_memory_fault_change [OF assms] by blast
  have undo: "\<exists>s2. process_reverse_fault e ?a (f_mask f) (map (\<lambda>i. ?v i AND f_mask f ! i) [0..<16])
        (s1\<lparr>guest := g\<rparr>) = Some s2 \<and>
      memory_change byte ?a 16 (\<lambda>i v. (v AND NOT (f_mask f ! i)) OR (?v i AND f_mask f ! i)) g (guest s2) \<and>
      (byte g = byte (guest s1) \<longrightarrow> byte (guest s2) = byte (guest s))" for g
  proof -
    let ?r = "map (\<lambda>i. ?v i AND f_mask f ! i) [0..<16]"
    obtain s2 where s2: "process_reverse_fault e ?a (f_mask f) ?r (s1\<lparr>guest := g\<rparr>) = Some s2"
      "memory_change byte ?a 16 (\<lambda>i v. (v AND NOT (f_mask f ! i)) OR ?r ! i) g (guest s2)"
      using process_reverse_fault_change [OF assms(1,3,4), of ?r "s1\<lparr>guest := g\<rparr>"] by auto
    have "memory_change byte ?a 16 (\<lambda>i v. (v AND NOT (f_mask f ! i)) OR (?v i AND f_mask f ! i)) g (guest s2)"
      by (rule memory_change_cong [OF s2(2)]) simp
    moreover have "byte (guest s2) = byte (guest s)" if "byte g = byte (guest s1)"
      by (rule memory_change_id [OF memory_change_trans [OF s1(2)
              memory_change_agree [OF calculation that [symmetric]]]])
        (rule bit_fault.undo)
    ultimately show ?thesis using s2(1) by blast
  qed
  with s1 show ?thesis by (intro exI [of _ s1] exI conjI) (assumption | simp)+
qed

text \<open>The overwriting of bytes and its reversal.\<close>

definition overwritten :: "u8 \<Rightarrow> nat" where
  "overwritten num_bytes = (if num_bytes > 16 then 16 else unat num_bytes)"

lemma overwritten_le: "overwritten b \<le> 16"
proof (cases "b > 16")
  case True
  then show ?thesis by (simp add: overwritten_def)
next
  case False
  then have "b \<le> 16" by simp
  then have "unat b \<le> unat (16 :: u8)" by (simp only: word_le_nat_alt)
  then show ?thesis using False by (simp add: overwritten_def)
qed

lemma block_mono: "n \<le> k \<Longrightarrow> block a n \<subseteq> block a k"
  by (auto simp: block_def)

lemma block_nth:
  assumes "i < 2 ^ 64" "n \<le> 2 ^ 64"
  shows "a + of_nat i \<in> block a n \<longleftrightarrow> i < n"
proof
  assume "a + of_nat i \<in> block a n"
  then obtain j where j: "j < n" "(of_nat i :: u64) = of_nat j" by (auto simp: block_def)
  then have "i = j" using assms by (intro of_nat_u64_inj) simp_all
  with j show "i < n" by simp
qed (auto simp: block_def)

lemma inject_overwrite_change:
  assumes "ram e byte A" "get_fault r s = Some f" "block (f_address f) 16 \<subseteq> A" "length (f_mask f) = 16"
    and "f_model f = OVERWRITE"
  defines "n \<equiv> overwritten (f_num_bytes f)"
  shows "\<exists>s'. inject_memory_fault e r s = Some s' \<and>
    memory_change byte (f_address f) n (\<lambda>i v. f_mask f ! i) (guest s) (guest s') \<and>
    get_fault r s' = Some (f\<lparr>f_restoremask :=
      map (\<lambda>i. byte (guest s) (f_address f + of_nat i)) [0..<n] @ replicate (16 - n) 0\<rparr>)"
proof -
  have n: "n \<le> 16" by (simp add: n_def overwritten_le)
  let ?a = "f_address f"
  have sub: "block ?a n \<subseteq> A" using block_mono [OF n] assms(3) by blast
  let ?v = "get_bytes ?a n (byte (guest s))"
  let ?bs = "map (\<lambda>i. f_mask f ! i) [0..<n]"
  let ?g = "snd (write_mem e ?a ?bs (guest s))"
  let ?r = "map (\<lambda>i. byte (guest s) (?a + of_nat i)) [0..<n] @ replicate (16 - n) 0"
  let ?f = "f\<lparr>f_restoremask := ?r\<rparr>"
  obtain m where m: "fault_heap s r = Some m" "fn_fault m = f"
    using assms(2) by (auto simp: get_fault_def)
  let ?s' = "s\<lparr>guest := ?g, fault_heap := (fault_heap s)(r \<mapsto> m\<lparr>fn_fault := ?f\<rparr>)\<rparr>"
  have "map (\<lambda>i. ?v ! i) [0..<n] = map (\<lambda>i. byte (guest s) (?a + of_nat i)) [0..<n]"
    by (rule map_cong) simp_all
  then have "process_overwrite_memory e ?a (f_num_bytes f) (f_mask f) s = Some (?r, s\<lparr>guest := ?g\<rparr>)"
    using per_byte_in [of n ?v "f_mask f"] n assms(4)
    by (simp add: process_overwrite_memory_def flip: overwritten_def n_def)
      (simp add: ram_read [OF assms(1) sub])
  then have "inject_memory_fault e r s = Some ?s'"
    using m by (simp add: inject_memory_fault_def assms(2,5) fault_enums put_fault_def)
  moreover have "memory_change byte ?a n (\<lambda>i v. f_mask f ! i) (guest s) ?g"
    using memory_change_write [OF assms(1) sub n, of "\<lambda>i v. f_mask f ! i"] .
  moreover have "get_fault r ?s' = Some ?f" by (simp add: get_fault_def)
  ultimately show ?thesis by (intro exI [of _ ?s']) simp
qed


lemma and_not_same: "v AND NOT m = v \<longleftrightarrow> v AND m = 0" for v m :: u8
  by (auto simp: bit_eq_iff bit_simps)

text \<open>Overwriting \<open>n\<close> bytes and merging the saved bytes back clears the mask behind the \<open>n\<close> bytes.\<close>

lemma overwrite_then_reverse:
  assumes "n \<le> 16" "memory_change byte a n (\<lambda>i v. m ! i) g g1"
    and "memory_change byte a 16
      (\<lambda>i v. (v AND NOT (m ! i)) OR (map (\<lambda>i. byte g (a + of_nat i)) [0..<n] @ replicate (16 - n) 0) ! i) g1 g2"
  shows "memory_change byte a 16 (\<lambda>i v. if i < n then v else v AND NOT (m ! i)) g g2"
  unfolding memory_change_def
proof (intro conjI allI impI)
  let ?r = "map (\<lambda>i. byte g (a + of_nat i)) [0..<n] @ replicate (16 - n) 0"
  fix i :: nat assume i: "i < 16"
  have inside: "byte g1 (a + of_nat i) = (if i < n then m ! i else byte g (a + of_nat i))"
  proof (cases "i < n")
    case False
    have "a + of_nat i \<notin> block a n" using False i assms(1) by (simp add: block_nth)
    with assms(2) False show ?thesis by (simp add: memory_change_def)
  qed (use assms(2) in \<open>simp add: memory_change_def\<close>)
  have "byte g2 (a + of_nat i) = (byte g1 (a + of_nat i) AND NOT (m ! i)) OR ?r ! i"
    using assms(3) i by (simp add: memory_change_def)
  with i show "byte g2 (a + of_nat i) =
      (if i < n then byte g (a + of_nat i) else byte g (a + of_nat i) AND NOT (m ! i))"
    by (simp add: inside nth_append)
next
  fix x assume x: "x \<notin> block a 16"
  then have "x \<notin> block a n" using block_mono [OF assms(1)] by blast
  with x assms(2,3) show "byte g2 x = byte g x" by (simp add: memory_change_def)
qed

lemma change_behind_same:
  assumes "memory_change byte a 16 (\<lambda>i v. if i < n then v else v AND NOT (m ! i)) g g2"
  shows "byte g2 = byte g \<longleftrightarrow> (\<forall>i < 16. n \<le> i \<longrightarrow> byte g (a + of_nat i) AND m ! i = 0)"
proof
  assume same: "byte g2 = byte g"
  show "\<forall>i < 16. n \<le> i \<longrightarrow> byte g (a + of_nat i) AND m ! i = 0"
  proof (intro allI impI)
    fix i :: nat assume i: "i < 16" "n \<le> i"
    from assms i(1) have "byte g2 (a + of_nat i) =
        (if i < n then byte g (a + of_nat i) else byte g (a + of_nat i) AND NOT (m ! i))"
      by (simp only: memory_change_def)
    with i(2) have "byte g (a + of_nat i) AND NOT (m ! i) = byte g (a + of_nat i)" by (simp add: same)
    then show "byte g (a + of_nat i) AND m ! i = 0" by (simp only: and_not_same)
  qed
next
  assume "\<forall>i < 16. n \<le> i \<longrightarrow> byte g (a + of_nat i) AND m ! i = 0"
  then have "(if i < n then byte g (a + of_nat i) else byte g (a + of_nat i) AND NOT (m ! i)) = byte g (a + of_nat i)"
    if "i < 16" for i using that by (simp add: and_not_same)
  with assms show "byte g2 = byte g" by (rule memory_change_id)
qed

text \<open>
  C15. A fault of the model OVERWRITE puts the first \<open>n\<close> bytes of its mask at its address, where \<open>n\<close>
  is \<^verbatim>\<open>num_bytes\<close> cut to 16, and nothing else changes.  Reversing it brings these \<open>n\<close> bytes back;
  but in the bytes after them, up to the sixteenth, it clears the bits that the mask has there:
  memory is restored exactly when the mask and memory have no bit in common in those bytes.
\<close>

theorem overwrite_fault_and_its_reversal:
  assumes "ram e byte A" "get_fault r s = Some f" "block (f_address f) 16 \<subseteq> A" "length (f_mask f) = 16"
    and "f_model f = OVERWRITE"
  shows "\<exists>s1 f1 s2. inject_memory_fault e r s = Some s1 \<and> get_fault r s1 = Some f1 \<and>
    memory_change byte (f_address f) (overwritten (f_num_bytes f)) (\<lambda>i v. f_mask f ! i) (guest s) (guest s1) \<and>
    process_reverse_fault e (f_address f1) (f_mask f1) (f_restoremask f1) s1 = Some s2 \<and>
    memory_change byte (f_address f) 16
      (\<lambda>i v. if i < overwritten (f_num_bytes f) then v else v AND NOT (f_mask f ! i)) (guest s) (guest s2) \<and>
    (byte (guest s2) = byte (guest s) \<longleftrightarrow>
       (\<forall>i < 16. overwritten (f_num_bytes f) \<le> i \<longrightarrow>
          byte (guest s) (f_address f + of_nat i) AND f_mask f ! i = 0))"
proof -
  let ?a = "f_address f" and ?n = "overwritten (f_num_bytes f)"
  let ?v = "\<lambda>i. byte (guest s) (?a + of_nat i)"
  let ?r = "map ?v [0..<?n] @ replicate (16 - ?n) 0"
  let ?f = "\<lambda>i v. if i < ?n then v else v AND NOT (f_mask f ! i)"
  obtain s1 where s1: "inject_memory_fault e r s = Some s1"
    "memory_change byte ?a ?n (\<lambda>i v. f_mask f ! i) (guest s) (guest s1)"
    "get_fault r s1 = Some (f\<lparr>f_restoremask := ?r\<rparr>)"
    using inject_overwrite_change [OF assms] by blast
  have len: "length ?r = 16" using overwritten_le [of "f_num_bytes f"] by simp
  obtain s2 where s2: "process_reverse_fault e ?a (f_mask f) ?r s1 = Some s2"
    "memory_change byte ?a 16 (\<lambda>i v. (v AND NOT (f_mask f ! i)) OR ?r ! i) (guest s1) (guest s2)"
    using process_reverse_fault_change [OF assms(1,3,4) len, of s1] by blast
  have change: "memory_change byte ?a 16 ?f (guest s) (guest s2)"
    by (rule overwrite_then_reverse [OF overwritten_le s1(2) s2(2)])
  note change_behind_same [OF change]
  moreover have "process_reverse_fault e (f_address (f\<lparr>f_restoremask := ?r\<rparr>))
      (f_mask (f\<lparr>f_restoremask := ?r\<rparr>)) (f_restoremask (f\<lparr>f_restoremask := ?r\<rparr>)) s1 = Some s2"
    using s2(1) by simp
  ultimately show ?thesis using s1 change by blast
qed


text \<open>A guest whose memory holds 0xaa everywhere, and a fault of each kind at address 32.\<close>

definition aa_guest :: flat where
  "aa_guest = flat_guest\<lparr>flat_mem := (\<lambda>_. 0xaa)\<rparr>"

definition example_fault :: "u64 \<Rightarrow> u64 \<Rightarrow> u8 list \<Rightarrow> u8 \<Rightarrow> fault" where
  "example_fault type model fmask n =
     \<lparr>f_address = 32, f_type = type, f_model = model, f_lifetime = 1, f_num_bytes = n, f_mask = fmask,
      f_restoremask = replicate 16 0,
      f_trigger = \<lparr>trig_address = 16, hitcounter = 1, trignum = 0\<rparr>\<rparr>"

definition one_fault :: "fault \<Rightarrow> flat trigger_state" where
  "one_fault f = flat_triggers\<lparr>guest := aa_guest, mallocs := 1, first_fault := Some 0,
     fault_heap := [0 \<mapsto> \<lparr>fn_next = None, fn_fault = f\<rparr>]\<rparr>"

lemma one_fault_get [simp]: "get_fault 0 (one_fault f) = Some f"
  by (simp add: one_fault_def get_fault_def)

lemma one_fault_mem [simp]: "flat_mem (guest (one_fault f)) x = 0xaa"
  by (simp add: one_fault_def aa_guest_def)

theorem memory_fault_injected_and_undone_witness:
  "\<exists>s1 f1 s2. inject_memory_fault flat_env 0 (one_fault (example_fault DATA TOGGLE (replicate 16 0x0f) 1)) = Some s1 \<and>
    get_fault 0 s1 = Some f1 \<and> flat_mem (guest s1) 35 = 0xa5 \<and>
    process_reverse_fault flat_env (f_address f1) (f_mask f1) (f_restoremask f1)
      (s1\<lparr>guest := (guest s1)\<lparr>flat_mem := (\<lambda>_. 0)\<rparr>\<rparr>) = Some s2 \<and>
    flat_mem (guest s2) 35 = 0x0a"
proof -
  let ?f = "example_fault DATA TOGGLE (replicate 16 0x0f) 1"
  have f: "f_address ?f = 32" "f_mask ?f = replicate 16 0x0f" "f_model ?f = TOGGLE" "bit_model (f_model ?f)"
    "length (f_mask ?f) = 16"
    by (simp_all add: example_fault_def bit_model_def)
  obtain s1 f1 where s1: "inject_memory_fault flat_env 0 (one_fault ?f) = Some s1" "get_fault 0 s1 = Some f1"
    "memory_change flat_mem 32 16 (\<lambda>i v. faulty TOGGLE v (replicate 16 0x0f ! i)) (guest (one_fault ?f)) (guest s1)"
    "\<forall>g. \<exists>s2. process_reverse_fault flat_env (f_address f1) (f_mask f1) (f_restoremask f1) (s1\<lparr>guest := g\<rparr>) = Some s2 \<and>
       memory_change flat_mem 32 16
         (\<lambda>i v. (v AND NOT (replicate 16 0x0f ! i)) OR (flat_mem (guest (one_fault ?f)) (32 + of_nat i) AND replicate 16 0x0f ! i))
         g (guest s2)"
    using memory_fault_injected_and_undone [OF flat_ram one_fault_get, of ?f, OF subset_UNIV f(5,4)]
    unfolding f(1-3) by blast
  have three: "(32 :: u64) + of_nat 3 = 35" by simp
  have "flat_mem (guest s1) (32 + of_nat 3) = faulty TOGGLE 0xaa (replicate 16 0x0f ! 3)"
    using s1(3) by (simp add: memory_change_def del: of_nat_numeral)
  then have a5: "flat_mem (guest s1) 35 = 0xa5"
    unfolding three by (simp add: faulty_def fault_enums)
  obtain s2 where s2: "process_reverse_fault flat_env (f_address f1) (f_mask f1) (f_restoremask f1)
      (s1\<lparr>guest := (guest s1)\<lparr>flat_mem := (\<lambda>_. 0)\<rparr>\<rparr>) = Some s2"
    "memory_change flat_mem 32 16
      (\<lambda>i v. (v AND NOT (replicate 16 0x0f ! i)) OR (flat_mem (guest (one_fault ?f)) (32 + of_nat i) AND replicate 16 0x0f ! i))
      ((guest s1)\<lparr>flat_mem := (\<lambda>_. 0)\<rparr>) (guest s2)"
    using s1(4) by blast
  have "flat_mem (guest s2) (32 + of_nat 3) = (0 AND NOT (replicate 16 0x0f ! 3)) OR (0xaa AND replicate 16 0x0f ! 3)"
    using s2(2) by (simp add: memory_change_def del: of_nat_numeral)
  then have "flat_mem (guest s2) 35 = 0x0a" unfolding three by simp
  with s1 s2(1) a5 show ?thesis by blast
qed

text \<open>Four bytes overwritten with ones; the mask has ones in all sixteen bytes.\<close>

theorem overwrite_fault_and_its_reversal_witness:
  "\<exists>s1 f1 s2. inject_memory_fault flat_env 0 (one_fault (example_fault DATA OVERWRITE (replicate 16 0xff) 4)) = Some s1 \<and>
    get_fault 0 s1 = Some f1 \<and>
    process_reverse_fault flat_env (f_address f1) (f_mask f1) (f_restoremask f1) s1 = Some s2 \<and>
    flat_mem (guest s2) 35 = 0xaa \<and> flat_mem (guest s2) 36 = 0"
proof -
  let ?f = "example_fault DATA OVERWRITE (replicate 16 0xff) 4"
  have f: "f_address ?f = 32" "f_mask ?f = replicate 16 0xff" "f_num_bytes ?f = 4" "length (f_mask ?f) = 16"
    "f_model ?f = OVERWRITE"
    by (simp_all add: example_fault_def)
  have n: "overwritten 4 = 4" by (simp add: overwritten_def)
  obtain s1 f1 s2 where s: "inject_memory_fault flat_env 0 (one_fault ?f) = Some s1" "get_fault 0 s1 = Some f1"
    "process_reverse_fault flat_env (f_address f1) (f_mask f1) (f_restoremask f1) s1 = Some s2"
    "memory_change flat_mem 32 16 (\<lambda>i v. if i < 4 then v else v AND NOT (replicate 16 0xff ! i))
      (guest (one_fault ?f)) (guest s2)"
    using overwrite_fault_and_its_reversal [OF flat_ram one_fault_get, of ?f, OF subset_UNIV f(4,5)]
    unfolding f(1-3) n by blast
  have "(32 :: u64) + of_nat 3 = 35" "(32 :: u64) + of_nat 4 = 36" by simp_all
  moreover have "flat_mem (guest s2) (32 + of_nat 3) = 0xaa"
    "flat_mem (guest s2) (32 + of_nat 4) = 0xaa AND NOT (replicate 16 0xff ! 4)"
    using s(4) by (simp_all add: memory_change_def del: of_nat_numeral)
  ultimately have "flat_mem (guest s2) 35 = 0xaa" "flat_mem (guest s2) 36 = 0" by simp_all
  with s show ?thesis by blast
qed


section \<open>Register faults\<close>

text \<open>The number that the first \<open>n\<close> bytes of an array are in little-endian order.\<close>

fun word_of_bytes :: "u8 list \<Rightarrow> nat \<Rightarrow> u64" where
  "word_of_bytes bs 0 = 0"
| "word_of_bytes bs (Suc n) = word_of_bytes bs n OR push_bit (8 * n) (ucast (bs ! n))"

lemma bit_byte: "bit (m :: u8) k \<Longrightarrow> k < 8"
  using bit_imp_le_length [of m k] by simp

lemma bit_push_byte:
  "bit (push_bit (8 * n) (ucast (m :: u8)) :: u64) k \<longleftrightarrow> k < 64 \<and> k div 8 = n \<and> bit m (k mod 8)"
proof -
  have "8 * n \<le> k \<and> bit m (k - 8 * n) \<longleftrightarrow> k div 8 = n \<and> bit m (k mod 8)"
  proof
    assume l: "8 * n \<le> k \<and> bit m (k - 8 * n)"
    then have "k - 8 * n < 8" by (blast dest: bit_byte)
    moreover obtain j where j: "k = 8 * n + j" using l le_Suc_ex by blast
    ultimately show "k div 8 = n \<and> bit m (k mod 8)" using l by simp
  next
    assume r: "k div 8 = n \<and> bit m (k mod 8)"
    then have "8 * n \<le> k" "k - 8 * n = k mod 8" by (auto simp: minus_mult_div_eq_mod [symmetric])
    with r show "8 * n \<le> k \<and> bit m (k - 8 * n)" by simp
  qed
  then show ?thesis by (auto simp: bit_simps)
qed

lemma bit_word_of_bytes:
  "bit (word_of_bytes bs n) k \<longleftrightarrow> k < 64 \<and> k div 8 < n \<and> bit (bs ! (k div 8)) (k mod 8)"
  by (induction n) (auto simp: bit_push_byte bit_or_iff less_Suc_eq)

lemma word_of_bytes_Suc_plus:
  "word_of_bytes bs (Suc n) = word_of_bytes bs n + push_bit (8 * n) (ucast (bs ! n))"
proof -
  have "word_of_bytes bs n AND push_bit (8 * n) (ucast (bs ! n)) = 0"
    by (rule bit_word_eqI) (auto simp: bit_and_iff bit_word_of_bytes bit_push_byte)
  then show ?thesis by (simp add: disjunctive_add_eq_or)
qed

text \<open>The shift of a mask byte in the code, where C defines it.\<close>

lemma int_shl_byte:
  assumes "k < 3 \<or> k = 3 \<and> m < 0x80"
  shows "int_to_u64 (int_shl e (ucast (m :: u8)) (8 * k)) = push_bit (8 * k) (ucast m)"
proof -
  have m: "unat m < 2 ^ 8" using unsigned_less [of m] by simp
  have small: "unat m * 2 ^ (8 * k) < 2 ^ 31"
  proof (cases "k = 3")
    case True
    then have "unat m < 128" using assms by (simp add: word_less_nat_alt)
    with True show ?thesis by simp
  next
    case False
    with assms have "(2 :: nat) ^ (8 * k) \<le> 2 ^ 16" by (intro power_increasing) simp_all
    then have "unat m * 2 ^ (8 * k) \<le> 2 ^ 8 * 2 ^ 16" using m by (intro mult_mono) simp_all
    then show ?thesis by simp
  qed
  have top: "\<not> bit m 7" if "k = 3"
  proof
    assume b: "bit m 7"
    from that assms have "unat m < 128" by (simp add: word_less_nat_alt)
    then have "\<not> bit (unat m) 7" by (simp add: bit_nat_def)
    with b show False by (simp add: bit_unsigned_iff)
  qed
  have "(scast (push_bit (8 * k) (ucast m :: u32)) :: u64) = push_bit (8 * k) (ucast m)"
  proof (rule bit_word_eqI)
    fix n assume n: "n < LENGTH(64)"
    have high: "\<not> bit m (n - 8 * k)" "\<not> bit m (31 - 8 * k)" if "31 \<le> n"
    proof -
      show "\<not> bit m (31 - 8 * k)" using assms top by (auto dest: bit_byte)
      show "\<not> bit m (n - 8 * k)"
      proof (cases "k = 3 \<and> n = 31")
        case False
        with that assms have "8 \<le> n - 8 * k" by auto
        then show ?thesis by (auto dest: bit_byte)
      qed (use top in simp)
    qed
    show "bit (scast (push_bit (8 * k) (ucast m :: u32)) :: u64) n \<longleftrightarrow>
        bit (push_bit (8 * k) (ucast m) :: u64) n"
      using n high by (auto simp: bit_simps min_def dest: bit_byte)
  qed
  moreover have "int_shl e (ucast m) (8 * k) = push_bit (8 * k) (ucast m)"
    using small assms m by (auto simp: int_shl_def unsigned_ucast_eq take_bit_nat_eq_self)
  ultimately show ?thesis by (simp add: int_to_u64_def)
qed


lemma register_masks_append:
  "register_masks e reg fmask (is @ js) rm msk =
     do { (rm, msk) \<leftarrow> register_masks e reg fmask is rm msk; register_masks e reg fmask js rm msk }"
  by (induction "is" arbitrary: rm msk) simp_all

text \<open>The first mask byte whose shift C does not define is byte 3 from 0x80 on, or byte 4.\<close>

definition low_mask :: "u8 list \<Rightarrow> bool" where
  "low_mask fmask \<longleftrightarrow> length fmask = 16 \<and> fmask ! 3 < 0x80 \<and> (\<forall>i \<in> {4..<8}. fmask ! i = 0)"

text \<open>
  The bytes 4 to 7 of such a mask are zero, but the code shifts them all the same, by 32 bits and
  more: it relies on a zero staying zero.
\<close>

definition zero_shift :: "'g env \<Rightarrow> bool" where
  "zero_shift e \<longleftrightarrow> (\<forall>n. shl_ub e 0 n = 0)"

lemma int_shl_low:
  assumes "zero_shift e" "low_mask fmask" "i < 8"
  shows "int_to_u64 (int_shl e (ucast (fmask ! i)) (8 * i)) = push_bit (8 * i) (ucast (fmask ! i))"
proof (cases "i < 4")
  case True
  with assms show ?thesis by (intro int_shl_byte) (auto simp: low_mask_def less_Suc_eq numeral_eq_Suc)
next
  case False
  with assms have "fmask ! i = 0" by (simp add: low_mask_def)
  then show ?thesis using assms(1) by (simp add: int_shl_def zero_shift_def int_to_u64_def)
qed

lemma register_masks_loop:
  assumes "zero_shift e" "low_mask fmask" "length rm = 16" "n \<le> 8"
  shows "\<exists>rm'. register_masks e reg fmask [0..<n] rm 0 = Some (rm', word_of_bytes fmask n) \<and>
    length rm' = 16 \<and>
    (\<forall>i < 16. rm' ! i = (if i < n then ucast (drop_bit (8 * i) reg) AND fmask ! i else rm ! i))"
  using assms(4)
proof (induction n)
  case 0
  with assms show ?case by simp
next
  case (Suc n)
  then obtain rm' where IH: "register_masks e reg fmask [0..<n] rm 0 = Some (rm', word_of_bytes fmask n)"
    "length rm' = 16"
    "\<forall>i < 16. rm' ! i = (if i < n then ucast (drop_bit (8 * i) reg) AND fmask ! i else rm ! i)" by auto
  have n: "n < length fmask" "n < 16" using Suc.prems assms(2) by (simp_all add: low_mask_def)
  have "(ucast (drop_bit (8 * n) reg AND ucast (fmask ! n)) :: u8) = ucast (drop_bit (8 * n) reg) AND fmask ! n"
    by (rule bit_word_eqI) (auto simp: bit_simps)
  then have "register_masks e reg fmask [0..<Suc n] rm 0 =
      Some (rm'[n := ucast (drop_bit (8 * n) reg) AND fmask ! n], word_of_bytes fmask (Suc n))"
    using IH(1,2) n int_shl_low [OF assms(1,2), of n] Suc.prems
    by (simp add: register_masks_append word_of_bytes_Suc_plus del: word_of_bytes.simps)
  with IH(2,3) show ?case
    by (intro exI [of _ "rm'[n := ucast (drop_bit (8 * n) reg) AND fmask ! n]"])
      (simp add: nth_list_update less_Suc_eq)
qed

lemma restore_register_append:
  "restore_register fmask rm (is @ js) reg =
     restore_register fmask rm is reg \<bind> restore_register fmask rm js"
  by (induction "is" arbitrary: reg) (simp_all add: Let_def)

lemma restore_register_loop:
  assumes "n \<le> length fmask" "n \<le> length rm" "n \<le> 8"
  shows "restore_register fmask rm [0..<n] reg =
    Some ((reg AND NOT (word_of_bytes fmask n)) OR
          (word_of_bytes rm n AND NOT (word_of_bytes fmask n)) OR word_of_bytes rm n)"
  using assms
proof (induction n)
  case 0
  then show ?case by simp
next
  case (Suc n)
  let ?m = "word_of_bytes fmask n" and ?r = "word_of_bytes rm n"
  let ?a = "push_bit (8 * n) (ucast (fmask ! n)) :: u64" and ?b = "push_bit (8 * n) (ucast (rm ! n)) :: u64"
  have disj: "\<not> (bit ?r k \<and> bit ?a k)" for k
    by (auto simp: bit_word_of_bytes bit_push_byte)
  have "(((reg AND NOT ?m) OR (?r AND NOT ?m) OR ?r) AND NOT ?a) OR ?b =
      (reg AND NOT (?m OR ?a)) OR ((?r OR ?b) AND NOT (?m OR ?a)) OR (?r OR ?b)"
    by (rule bit_word_eqI) (use disj in \<open>auto simp: bit_and_iff bit_or_iff bit_not_iff\<close>)
  with Suc show ?case by (simp add: restore_register_append)
qed

lemma register_fault_undo:
  assumes "zero_shift e" "low_mask fmask" "length rm = 16"
  shows "\<exists>rm'. register_masks e reg fmask [0..<8] rm 0 = Some (rm', word_of_bytes fmask 8) \<and>
    length rm' = 16 \<and>
    (\<forall>w. restore_register fmask rm' [0..<8] w =
       Some ((w AND NOT (word_of_bytes fmask 8)) OR (reg AND word_of_bytes fmask 8)))"
proof -
  obtain rm' where rm': "register_masks e reg fmask [0..<8] rm 0 = Some (rm', word_of_bytes fmask 8)"
    "length rm' = 16"
    "\<forall>i < 16. rm' ! i = (if i < 8 then ucast (drop_bit (8 * i) reg) AND fmask ! i else rm ! i)"
    using register_masks_loop [OF assms, of 8] by auto
  let ?m = "word_of_bytes fmask 8"
  have "word_of_bytes rm' 8 = reg AND ?m"
  proof (rule bit_word_eqI)
    fix k assume k: "k < LENGTH(64)"
    then have d: "k div 8 < 8" by simp
    have "8 * (k div 8) + k mod 8 = k" by simp
    with k d rm'(3) show "bit (word_of_bytes rm' 8) k \<longleftrightarrow> bit (reg AND ?m) k"
      by (auto simp: bit_word_of_bytes bit_and_iff bit_ucast_iff bit_drop_bit_eq)
  qed
  moreover have "(w AND NOT ?m) OR ((reg AND ?m) AND NOT ?m) OR (reg AND ?m) = (w AND NOT ?m) OR (reg AND ?m)" for w
    by (rule bit_word_eqI) (auto simp: bit_and_iff bit_or_iff bit_not_iff)
  moreover have "restore_register fmask rm' [0..<8] w = Some ((w AND NOT ?m) OR
      (word_of_bytes rm' 8 AND NOT ?m) OR word_of_bytes rm' 8)" for w
    using assms(2) rm'(2) by (intro restore_register_loop) (simp_all add: low_mask_def)
  ultimately show ?thesis using rm'(1,2) by auto
qed


definition register_change ::
  "'g env \<Rightarrow> u64 \<Rightarrow> u64 \<Rightarrow> (u64 \<Rightarrow> u64) \<Rightarrow> 'g \<Rightarrow> 'g \<Rightarrow> bool" where
  "register_change e width r f g g' \<longleftrightarrow>
     read_reg e r g' = f (read_reg e r g) AND width \<and>
     (\<forall>q. q \<noteq> r \<longrightarrow> read_reg e q g' = read_reg e q g)"

lemma register_change_write:
  "regs_ok e width \<Longrightarrow> register_change e width r f g (write_reg e r (f (read_reg e r g)) g)"
  by (simp add: regs_ok_def register_change_def)

lemma put_fault_guest: "put_fault r f (s\<lparr>guest := g\<rparr>) = map_option (\<lambda>s. s\<lparr>guest := g\<rparr>) (put_fault r f s)"
  by (cases "fault_heap s r") (simp_all add: put_fault_def)

lemma put_fault_live:
  assumes "get_fault r s = Some f"
  obtains s' where "put_fault r f' s = Some s'" "get_fault r s' = Some f'" "guest s' = guest s"
proof -
  from assms obtain n where "fault_heap s r = Some n" by (auto simp: get_fault_def)
  then show ?thesis using that by (simp add: put_fault_def get_fault_def)
qed




lemma overwrite_register_append:
  "overwrite_register e fmask (is @ js) rm reg msk =
     do { (rm, reg, msk) \<leftarrow> overwrite_register e fmask is rm reg msk;
          overwrite_register e fmask js rm reg msk }"
  by (induction "is" arbitrary: rm reg msk) (simp_all add: Let_def)

lemma bit_ones: "bit (0xff :: u8) k \<longleftrightarrow> k < 8"
proof -
  have "(0xff :: u8) = -1" by simp
  then show ?thesis by (simp only: bit_minus_1_iff) simp
qed

text \<open>One round of the loop: the byte \<open>n\<close> is replaced, if the bits \<open>c\<close> that are cleared contain it.\<close>

lemma overwrite_byte:
  fixes c :: u64
  assumes "\<And>k. k div 8 = n \<Longrightarrow> k < 64 \<Longrightarrow> bit c k" "\<And>k. k div 8 < n \<Longrightarrow> \<not> bit c k"
  shows "(((v AND NOT (Bit_Operations.mask (8 * n))) OR word_of_bytes fmask n) AND NOT c) +
      push_bit (8 * n) (ucast (fmask ! n)) =
    (v AND NOT (Bit_Operations.mask (8 * n) OR c)) OR word_of_bytes fmask (Suc n)"
proof -
  let ?w = "((v AND NOT (Bit_Operations.mask (8 * n))) OR word_of_bytes fmask n) AND NOT c"
  let ?b = "push_bit (8 * n) (ucast (fmask ! n)) :: u64"
  have "?w AND ?b = 0"
    by (rule bit_word_eqI) (use assms(1) in \<open>auto simp: bit_and_iff bit_not_iff bit_push_byte\<close>)
  then have "?w + ?b = ?w OR ?b" by (rule disjunctive_add_eq_or)
  moreover have "?w OR ?b = (v AND NOT (Bit_Operations.mask (8 * n) OR c)) OR word_of_bytes fmask (Suc n)"
    by (rule bit_word_eqI)
      (use assms in \<open>auto simp: bit_and_iff bit_or_iff bit_not_iff bit_word_of_bytes bit_push_byte\<close>)
  ultimately show ?thesis by simp
qed

lemma overwrite_register_loop:
  assumes "low_mask fmask" "length rm = 16" "n \<le> 3"
  shows "\<exists>rm' msk. overwrite_register e fmask [0..<n] rm reg 0 =
      Some (rm', (reg AND NOT (Bit_Operations.mask (8 * n))) OR word_of_bytes fmask n, msk) \<and> length rm' = 16"
  using assms(3)
proof (induction n)
  case 0
  with assms show ?case by simp
next
  case (Suc n)
  then obtain rm' msk where IH: "overwrite_register e fmask [0..<n] rm reg 0 =
      Some (rm', (reg AND NOT (Bit_Operations.mask (8 * n))) OR word_of_bytes fmask n, msk)" "length rm' = 16"
    by auto
  have n: "n < length fmask" "n < 16" "n < 3" using Suc.prems assms(1) by (simp_all add: low_mask_def)
  define c where "c = (push_bit (8 * n) (ucast (0xff :: u8)) :: u64)"
  have bit_c: "bit c k \<longleftrightarrow> k < 64 \<and> k div 8 = n" for k
    unfolding c_def bit_push_byte bit_ones by simp
  have clear: "int_to_u64 (int_shl e 0xff (8 * n)) = c"
    using int_shl_byte [of n "0xff" e] n by (simp add: c_def)
  have m: "Bit_Operations.mask (8 * n) OR c = Bit_Operations.mask (8 * Suc n)"
    by (rule bit_word_eqI) (auto simp: bit_or_iff bit_mask_iff bit_c)
  have "(((reg AND NOT (Bit_Operations.mask (8 * n))) OR word_of_bytes fmask n) AND NOT c) +
      int_to_u64 (int_shl e (ucast (fmask ! n)) (8 * n)) =
      (reg AND NOT (Bit_Operations.mask (8 * Suc n))) OR word_of_bytes fmask (Suc n)"
    unfolding m [symmetric]
    by (subst int_shl_byte) (use n in simp, rule overwrite_byte, auto simp: bit_c)
  then show ?case using IH n clear
    by (simp add: overwrite_register_append Let_def del: word_of_bytes.simps mask_Suc_0 mult_Suc_right)
qed


text \<open>Three bytes are replaced byte by byte; the fourth round clears the register from bit 24 on.\<close>

definition overwritten_bits :: "nat \<Rightarrow> u64" where
  "overwritten_bits n = (if n \<le> 3 then Bit_Operations.mask (8 * n) else -1)"

lemma overwrite_register_four:
  assumes "low_mask fmask" "length rm = 16" "shl_ub e 0xff 24 = 0xff000000" "n \<le> 4"
  shows "\<exists>rm' msk. overwrite_register e fmask [0..<n] rm reg 0 =
      Some (rm', (reg AND NOT (overwritten_bits n)) OR word_of_bytes fmask n, msk)"
proof (cases "n = 4")
  case False
  then show ?thesis
    using overwrite_register_loop [OF assms(1,2), of n e reg] assms(4) by (auto simp: overwritten_bits_def)
next
  case True
  obtain rm' msk where three: "overwrite_register e fmask [0..<3] rm reg 0 =
      Some (rm', (reg AND NOT (Bit_Operations.mask (8 * 3))) OR word_of_bytes fmask 3, msk)" "length rm' = 16"
    using overwrite_register_loop [OF assms(1,2), of 3 e reg] by auto
  have four: "[0..<4] = [0..<3] @ [3 :: nat]" by (simp add: upt_rec)
  define c :: u64 where "c = 0xffffffffff000000"
  have clear: "int_to_u64 (int_shl e 0xff 24) = c"
    using assms(3) by (simp add: int_shl_def int_to_u64_def c_def)
  have c: "c = NOT (Bit_Operations.mask 24)" by (simp add: c_def mask_eq_exp_minus_1)
  have bit_c: "bit c k \<longleftrightarrow> k < 64 \<and> 24 \<le> k" for k
    unfolding c by (auto simp: bit_not_iff bit_mask_iff)
  have m: "Bit_Operations.mask (8 * 3) OR c = -1" by (simp add: c)
  have last: "int_to_u64 (int_shl e (ucast (fmask ! 3)) (8 * 3)) = push_bit (8 * 3) (ucast (fmask ! 3))"
    using assms(1) by (intro int_shl_byte) (simp add: low_mask_def)
  have "(((reg AND NOT (Bit_Operations.mask (8 * 3))) OR word_of_bytes fmask 3) AND NOT c) +
      push_bit (8 * 3) (ucast (fmask ! 3)) =
      (reg AND NOT (Bit_Operations.mask (8 * 3) OR c)) OR word_of_bytes fmask (Suc 3)"
    by (rule overwrite_byte) (auto simp: bit_c)
  then have step: "(((reg AND NOT (Bit_Operations.mask (8 * 3))) OR word_of_bytes fmask 3) AND NOT c) +
      int_to_u64 (int_shl e (ucast (fmask ! 3)) (8 * 3)) = word_of_bytes fmask 4"
    unfolding m last by simp
  have "3 < length fmask" using assms(1) by (simp add: low_mask_def)
  then have "overwrite_register e fmask [0..<4] rm reg 0 =
      Some (rm'[3 := ucast (drop_bit (8 * 3) ((reg AND NOT (Bit_Operations.mask (8 * 3))) OR word_of_bytes fmask 3) AND 0xff)],
        word_of_bytes fmask 4, msk + c)"
    using three(2) step clear
    unfolding four overwrite_register_append three(1) by (simp add: Let_def)
  then show ?thesis unfolding True overwritten_bits_def by simp
qed

text \<open>
  C17. A register fault of the model OVERWRITE replaces the first \<open>n\<close> bytes of the register for \<open>n\<close> up
  to three.  For four bytes the mask \<^verbatim>\<open>0xff << 24\<close> is negative as an \<^verbatim>\<open>int\<close> and sign extended (the
  compilers in use shift the bits and do not use the freedom that C gives them): the upper half of a
  64-bit register is cleared along with the byte.
\<close>

theorem register_overwrite_loses_high_half:
  assumes "regs_ok e width" "zero_shift e" "shl_ub e 0xff 24 = 0xff000000"
    and "get_fault r s = Some f" "low_mask (f_mask f)" "length (f_restoremask f) = 16"
    and "f_model f = OVERWRITE" "f_num_bytes f \<le> 4"
  shows "\<exists>s1. inject_register_fault e r s = Some s1 \<and>
    register_change e width (f_address f)
      (\<lambda>v. (v AND NOT (overwritten_bits (unat (f_num_bytes f)))) OR
           word_of_bytes (f_mask f) (unat (f_num_bytes f)))
      (guest s) (guest s1) \<and>
    (f_num_bytes f = 4 \<longrightarrow>
      read_reg e (f_address f) (guest s1) = word_of_bytes (f_mask f) 4 AND width)"
proof -
  let ?a = "f_address f" and ?n = "unat (f_num_bytes f)"
  let ?reg = "read_reg e ?a (guest s)"
  have "f_num_bytes f \<le> 8" using assms(8) by (rule order_trans) simp
  then have small: "\<not> 8 < f_num_bytes f" by simp
  have n: "?n \<le> 4" using assms(8) by (simp add: word_le_nat_alt)
  obtain rm where rm: "register_masks e ?reg (f_mask f) [0..<8] (f_restoremask f) 0 =
      Some (rm, word_of_bytes (f_mask f) 8)" "length rm = 16"
    using register_fault_undo [OF assms(2,5,6)] by blast
  let ?f = "\<lambda>v. (v AND NOT (overwritten_bits ?n)) OR word_of_bytes (f_mask f) ?n"
  obtain rm' msk where ov: "overwrite_register e (f_mask f) [0..<?n] rm ?reg 0 = Some (rm', ?f ?reg, msk)"
    using overwrite_register_four [OF assms(5) rm(2) assms(3) n] by blast
  obtain t where t: "put_fault r (f\<lparr>f_restoremask := rm'\<rparr>) s = Some t" "guest t = guest s"
    using put_fault_live [OF assms(4)] by metis
  let ?s1 = "t\<lparr>guest := write_reg e ?a (?f ?reg) (guest s)\<rparr>"
  have "inject_register_fault e r s = Some ?s1"
    unfolding inject_register_fault_def assms(4)
    using rm(1) ov t small assms(7)
    by (simp add: Let_def fault_enums del: upt_rec_numeral)
  moreover have "register_change e width ?a ?f (guest s) (guest ?s1)"
    using register_change_write [OF assms(1), of ?a ?f "guest s"] by simp
  moreover have "read_reg e ?a (guest ?s1) = word_of_bytes (f_mask f) 4 AND width" if "f_num_bytes f = 4"
    using calculation(2) that by (simp add: register_change_def overwritten_bits_def)
  ultimately show ?thesis by blast
qed

text \<open>A register that holds -1; the four bytes 1, 0, 0, 0 are written to it.\<close>

theorem register_overwrite_loses_high_half_witness:
  "\<exists>s1. inject_register_fault flat_env 0
      ((one_fault (example_fault REGISTER OVERWRITE (1 # replicate 15 0) 4))
         \<lparr>guest := aa_guest\<lparr>flat_regs := (\<lambda>_. -1)\<rparr>\<rparr>) = Some s1 \<and>
    flat_regs (guest s1) 32 = 1"
proof -
  let ?f = "example_fault REGISTER OVERWRITE (1 # replicate 15 0) 4"
  let ?s = "(one_fault ?f)\<lparr>guest := aa_guest\<lparr>flat_regs := (\<lambda>_. -1)\<rparr>\<rparr>"
  have zero: "zero_shift flat_env" by (simp add: zero_shift_def flat_env_def)
  have shl: "shl_ub flat_env 0xff 24 = 0xff000000" by (simp add: flat_env_def)
  have get: "get_fault 0 ?s = Some ?f" by (simp add: one_fault_def get_fault_def)
  have f: "low_mask (f_mask ?f)" "length (f_restoremask ?f) = 16" "f_model ?f = OVERWRITE" "f_num_bytes ?f \<le> 4"
    by (auto simp: example_fault_def low_mask_def nth_Cons')
  have val: "word_of_bytes (f_mask ?f) 4 = 1" by code_simp
  have read: "read_reg flat_env (f_address ?f) g = flat_regs g 32" for g
    by (simp add: flat_env_def example_fault_def)
  have four: "f_num_bytes ?f = 4" by (simp add: example_fault_def)
  obtain s1 where "inject_register_fault flat_env 0 ?s = Some s1"
    "read_reg flat_env (f_address ?f) (guest s1) = word_of_bytes (f_mask ?f) 4 AND (-1)"
    using register_overwrite_loses_high_half [OF flat_regs_ok zero shl get f] four by blast
  then show ?thesis unfolding val read by auto
qed

end
