(* ===== verification/MemInfo.thy ===== *)
theory MemInfo
  imports FaultInjection
begin

text \<open>
  The record of memory accesses in \<^verbatim>\<open>faultplugin/faultplugin.c\<close>: one struct for each pair of an
  instruction and the memory address it accessed, with a counter.  The structs are kept in a list
  and in an AVL tree over that pair.
\<close>

section \<open>Data\<close>

record mem_info =
  mei_ins_address :: u64
  mei_size :: u64
  mei_memmory_address :: u64
  mei_direction :: u8
  mei_counter :: u64
  mei_next :: "ref option"

text \<open>What \<^verbatim>\<open>qemu_plugin_mem_size_shift\<close> and \<^verbatim>\<open>qemu_plugin_mem_is_store\<close> tell about an access.\<close>

record meminfo =
  mem_size_shift :: u32
  mem_is_store :: bool

record 'g mem_info_state = "'g trigger_state" +
  mem_info_list :: "ref option"
  mem_info_heap :: "ref \<rightharpoonup> mem_info"
  mem_avl_root :: "(u64 \<times> u64, ref) avl_table option"

interpretation mem_info_cell: linked_cell mei_next "\<lambda>p. mei_next_update (\<lambda>_. p)"
  by unfold_locales simp

section \<open>Operations\<close>

text \<open>
  Both structs are read at the addresses of the instruction and of the memory only.  The
  64-bit differences are returned as \<^verbatim>\<open>int\<close>.
\<close>

definition mem_comparison_func :: "u64 \<times> u64 \<Rightarrow> u64 \<times> u64 \<Rightarrow> int" where
  "mem_comparison_func mem_a mem_b =
     (if fst mem_a = fst mem_b \<and> snd mem_a \<noteq> snd mem_b then u64_to_int (snd mem_a - snd mem_b)
      else u64_to_int (fst mem_a - fst mem_b))"

definition mem_key :: "('g, 'z) mem_info_state_scheme \<Rightarrow> ref \<Rightarrow> (u64 \<times> u64) option" where
  "mem_key s r = map_option (\<lambda>n. (mei_ins_address n, mei_memmory_address n)) (mem_info_heap s r)"

definition mem_avl_init ::
  "'g env \<Rightarrow> ('g, 'z) mem_info_state_scheme \<Rightarrow> bool \<times> ('g, 'z) mem_info_state_scheme" where
  "mem_avl_init e s =
     (case avl_create e mem_comparison_func s of (t, s) \<Rightarrow> (t \<noteq> None, s\<lparr>mem_avl_root := t\<rparr>))"

text \<open>\<^verbatim>\<open>avl_destroy\<close> is called with the root as it is; without a tree it stops in an assertion.\<close>

definition mem_info_free ::
  "('g, 'z) mem_info_state_scheme \<Rightarrow> ('g, 'z) mem_info_state_scheme option" where
  "mem_info_free s = do {
     h \<leftarrow> free_chain mei_next (mem_info_list s) (mem_info_heap s);
     let s = s\<lparr>mem_info_heap := h, mem_info_list := None\<rparr>;
     root \<leftarrow> mem_avl_root s;
     Some (s\<lparr>mem_avl_root := None\<rparr>)
   }"

text \<open>The result of \<^verbatim>\<open>malloc\<close> is not checked, that of \<^verbatim>\<open>avl_insert\<close> neither.\<close>

definition memaccess_data_cb ::
  "'g env \<Rightarrow> meminfo \<Rightarrow> u64 \<Rightarrow> u64 \<Rightarrow> ('g, 'z) mem_info_state_scheme \<Rightarrow> ('g, 'z) mem_info_state_scheme option"
where
  "memaccess_data_cb e info vddr userdata s = do {
     root \<leftarrow> mem_avl_root s;
     mem_access \<leftarrow> avl_find (mem_key s) root (userdata, vddr);
     (r, s) \<leftarrow> (case mem_access of
         Some r \<Rightarrow> Some (r, s)
       | None \<Rightarrow>
           (case malloc e s of
              (None, s) \<Rightarrow> None
            | (Some r, s) \<Rightarrow> do {
                let s = s\<lparr>mem_info_heap := (mem_info_heap s)(r \<mapsto>
                           \<lparr>mei_ins_address = userdata, mei_size = ucast (mem_size_shift info),
                            mei_memmory_address = vddr,
                            mei_direction = (if mem_is_store info then 1 else 0),
                            mei_counter = 0, mei_next = None\<rparr>)\<rparr>;
                (_, root, s) \<leftarrow> avl_insert e (mem_key s) root r s;
                let s = s\<lparr>mem_avl_root := Some root\<rparr>;
                n \<leftarrow> mem_info_heap s r;
                Some (r, s\<lparr>mem_info_heap := (mem_info_heap s)(r \<mapsto> n\<lparr>mei_next := mem_info_list s\<rparr>),
                           mem_info_list := Some r\<rparr>)
              }));
     n \<leftarrow> mem_info_heap s r;
     Some (s\<lparr>mem_info_heap := (mem_info_heap s)(r \<mapsto> n\<lparr>mei_counter := mei_counter n + 1\<rparr>)\<rparr>)
   }"

definition get_mem_info_list_size :: "('g, 'z) mem_info_state_scheme \<Rightarrow> nat option" where
  "get_mem_info_list_size s = walk mei_next (mem_info_heap s) (\<lambda>r n. Suc) (mem_info_list s) 0"

definition mem_info_entry :: "mem_info \<Rightarrow> mem_info_msg" where
  "mem_info_entry item =
     \<lparr>mi_ins_address = mei_ins_address item, mi_size = mei_size item,
      mi_memmory_address = mei_memmory_address item, mi_direction = scast (mei_direction item),
      mi_counter = mei_counter item\<rparr>"

definition plugin_dump_mem_information ::
  "'g env \<Rightarrow> data_msg \<Rightarrow> ('g, 'z) mem_info_state_scheme \<Rightarrow>
   (int \<times> data_msg \<times> ('g, 'z) mem_info_state_scheme) option" where
  "plugin_dump_mem_information e msg s = do {
     size \<leftarrow> get_mem_info_list_size s;
     if size = 0 then Some (0, msg, s)
     else
       (case malloc e s of
          (None, s) \<Rightarrow> Some (-1, msg, s)
        | (Some _, s) \<Rightarrow> do {
            res \<leftarrow> walk_until mei_next (mem_info_heap s)
              (\<lambda>r item (s, infos).
                 (case malloc e s of
                    (None, s) \<Rightarrow> Some (Inl s)
                  | (Some _, s) \<Rightarrow> Some (Inr (s, infos @ [mem_info_entry item]))))
              (mem_info_list s) (s, []);
            Some (case res of
                    Inl s \<Rightarrow> (-1, msg, s)
                  | Inr (s, infos) \<Rightarrow> (0, msg\<lparr>dm_mem_infos := infos\<rparr>, s))
          })
   }"

section \<open>The comparison\<close>

lemma u64_to_int_of_int:
  "- (2 ^ 31) \<le> z \<Longrightarrow> z < 2 ^ 31 \<Longrightarrow> u64_to_int (of_int z) = z"
  unfolding u64_to_int_def
  by transfer (simp add: signed_take_bit_take_bit signed_take_bit_int_eq_self)

text \<open>The addresses below 2 GiB; their differences fit in an \<^verbatim>\<open>int\<close>.\<close>

definition low31 :: "(u64 \<times> u64) set" where
  "low31 = {(i, m). i < 2 ^ 31 \<and> m < 2 ^ 31}"

lemma u64_to_int_diff:
  assumes "a < 2 ^ 31" "b < 2 ^ 31"
  shows "u64_to_int (a - b) = uint a - uint b"
proof -
  have "uint a < 2 ^ 31" "uint b < 2 ^ 31" using assms by (simp_all add: word_less_def)
  moreover have "0 \<le> uint a" "0 \<le> uint b" by simp_all
  ultimately have "- (2 ^ 31) \<le> uint a - uint b" "uint a - uint b < 2 ^ 31" by linarith+
  then have "u64_to_int (of_int (uint a - uint b)) = uint a - uint b" by (rule u64_to_int_of_int)
  then show ?thesis by simp
qed

lemma mem_comparison_low:
  assumes "x \<in> low31" "y \<in> low31"
  shows "mem_comparison_func x y =
    (if fst x = fst y then uint (snd x) - uint (snd y) else uint (fst x) - uint (fst y))"
proof -
  have "fst x < 2 ^ 31" "snd x < 2 ^ 31" "fst y < 2 ^ 31" "snd y < 2 ^ 31"
    using assms by (auto simp: low31_def)
  then show ?thesis
    using u64_to_int_diff [of "fst x" "fst y"] u64_to_int_diff [of "snd x" "snd y"]
    by (auto simp: mem_comparison_func_def)
qed

lemma mem_comparison_eq: "x \<in> low31 \<Longrightarrow> y \<in> low31 \<Longrightarrow> mem_comparison_func x y = 0 \<longleftrightarrow> x = y"
  by (auto simp: mem_comparison_low prod_eq_iff word_uint_eq_iff split: if_splits)

interpretation mem_order: avl_order mem_comparison_func low31
  by unfold_locales (auto simp: mem_comparison_low word_uint_eq_iff split: if_splits)


section \<open>The list and its index\<close>

definition mem_refs :: "('g, 'z) mem_info_state_scheme \<Rightarrow> ref list \<Rightarrow> bool" where
  "mem_refs s rs \<longleftrightarrow>
     chain mei_next (mem_info_heap s) (mem_info_list s) rs \<and> below (mem_info_heap s) (mallocs s) \<and>
     (\<exists>t. mem_avl_root s = Some t \<and> avl_wf mem_comparison_func (mem_key s) t \<and>
          set (avl_items t) = set rs) \<and>
     (\<forall>r \<in> set rs. the (mem_key s r) \<in> low31)"

lemma mem_refs_live:
  "mem_refs s rs \<Longrightarrow> r \<in> set rs \<Longrightarrow> \<exists>n. mem_info_heap s r = Some n"
  by (auto simp: mem_refs_def dest: chain_liveD)

lemma mem_find:
  assumes "mem_refs s rs" "mem_avl_root s = Some t" "k \<in> low31"
  shows "\<exists>found. avl_find (mem_key s) t k = Some found \<and> avl_lookup (mem_key s) t k = found \<and>
    (case found of
       None \<Rightarrow> \<forall>r \<in> set rs. mem_key s r \<noteq> Some k
     | Some r \<Rightarrow> r \<in> set rs \<and> mem_key s r = Some k)"
proof -
  have t: "avl_wf mem_comparison_func (mem_key s) t" "set (avl_items t) = set rs"
    "\<forall>d \<in> set (avl_items t). the (mem_key s d) \<in> low31"
    using assms(1,2) by (auto simp: mem_refs_def)
  have cmp: "avl_compare t = mem_comparison_func" using t(1) by (simp add: avl_wf_def)
  have live: "\<exists>x. mem_key s r = Some x" if "r \<in> set rs" for r
    using t(1,2) that by (auto simp: avl_wf_def)
  have "case avl_lookup (mem_key s) t k of
      None \<Rightarrow> \<forall>r \<in> set rs. mem_key s r \<noteq> Some k
    | Some r \<Rightarrow> r \<in> set rs \<and> mem_key s r = Some k"
  proof (cases "avl_lookup (mem_key s) t k")
    case None
    have "mem_key s r \<noteq> Some k" if r: "r \<in> set rs" for r
    proof
      assume "mem_key s r = Some k"
      then have "mem_comparison_func k (the (mem_key s r)) = 0"
        using mem_comparison_eq [OF assms(3,3)] by simp
      then have "avl_lookup (mem_key s) t k = Some r"
        using mem_order.lookup_member [OF t(1,3) _ assms(3)] r t(2) by simp
      with None show False by simp
    qed
    with None show ?thesis by simp
  next
    case (Some r)
    then have r: "r \<in> set rs" "mem_comparison_func k (the (mem_key s r)) = 0"
      using t(2) by (auto simp: avl_lookup_def find_Some_iff cmp)
    then have "k = the (mem_key s r)"
      using mem_comparison_eq [OF assms(3), of "the (mem_key s r)"] t(2,3) by simp
    with Some r(1) live show ?thesis by fastforce
  qed
  with mem_order.find_correct [OF t(1) assms(3) t(3)] show ?thesis by blast
qed

text \<open>The fields that \<^verbatim>\<open>memaccess_data_cb\<close> may change.\<close>

definition mem_only :: "('g, 'z) mem_info_state_scheme \<Rightarrow> ('g, 'z) mem_info_state_scheme \<Rightarrow> bool" where
  "mem_only s s' \<longleftrightarrow>
     (\<exists>k l h t. mallocs s \<le> k \<and>
        s' = s\<lparr>mallocs := k, mem_info_list := l, mem_info_heap := h, mem_avl_root := t\<rparr>)"

lemma mem_onlyI:
  "mallocs s \<le> k \<Longrightarrow>
   mem_only s (s\<lparr>mallocs := k, mem_info_list := l, mem_info_heap := h, mem_avl_root := t\<rparr>)"
  unfolding mem_only_def by blast

text \<open>The entries as they are sent.\<close>

definition mem_view :: "('g, 'z) mem_info_state_scheme \<Rightarrow> ref list \<Rightarrow> mem_info_msg list" where
  "mem_view s rs = map (\<lambda>r. mem_info_entry (the (mem_info_heap s r))) rs"

section \<open>Specification\<close>

definition same_access :: "u64 \<Rightarrow> u64 \<Rightarrow> mem_info_msg \<Rightarrow> bool" where
  "same_access pc a m \<longleftrightarrow> mi_ins_address m = pc \<and> mi_memmory_address m = a"

definition first_access :: "meminfo \<Rightarrow> u64 \<Rightarrow> u64 \<Rightarrow> mem_info_msg" where
  "first_access info a pc =
     \<lparr>mi_ins_address = pc, mi_size = ucast (mem_size_shift info), mi_memmory_address = a,
      mi_direction = (if mem_is_store info then 1 else 0), mi_counter = 1\<rparr>"

definition count_access :: "meminfo \<Rightarrow> u64 \<Rightarrow> u64 \<Rightarrow> mem_info_msg list \<Rightarrow> mem_info_msg list" where
  "count_access info a pc ms =
     (if \<exists>m \<in> set ms. same_access pc a m
      then map (\<lambda>m. if same_access pc a m then m\<lparr>mi_counter := mi_counter m + 1\<rparr> else m) ms
      else first_access info a pc # ms)"

lemma mem_view_access:
  assumes "mem_refs s rs"
  shows "(\<exists>m \<in> set (mem_view s rs). same_access pc a m) \<longleftrightarrow> (\<exists>r \<in> set rs. mem_key s r = Some (pc, a))"
proof -
  have "mem_key s r = Some (pc, a) \<longleftrightarrow> same_access pc a (mem_info_entry (the (mem_info_heap s r)))"
    if "r \<in> set rs" for r
    using mem_refs_live [OF assms that] by (auto simp: same_access_def mem_info_entry_def mem_key_def)
  then show ?thesis by (auto simp: mem_view_def)
qed

section \<open>Recording an access\<close>

lemma memaccess_known:
  assumes "mem_refs s rs" "(pc, a) \<in> low31" "\<exists>r \<in> set rs. mem_key s r = Some (pc, a)"
  shows "\<exists>s'. memaccess_data_cb e info a pc s = Some s' \<and> mem_only s s' \<and> mem_refs s' rs \<and>
    mem_view s' rs = count_access info a pc (mem_view s rs)"
proof -
  obtain t where t: "mem_avl_root s = Some t" "avl_wf mem_comparison_func (mem_key s) t"
    "set (avl_items t) = set rs"
    using assms(1) by (auto simp: mem_refs_def)
  obtain r where r: "avl_find (mem_key s) t (pc, a) = Some (Some r)" "r \<in> set rs"
    "mem_key s r = Some (pc, a)"
    using mem_find [OF assms(1) t(1) assms(2)] assms(3) by (auto split: option.splits)
  obtain n where n: "mem_info_heap s r = Some n" using mem_refs_live [OF assms(1) r(2)] by blast
  let ?n = "n\<lparr>mei_counter := mei_counter n + 1\<rparr>"
  let ?s' = "s\<lparr>mem_info_heap := (mem_info_heap s)(r \<mapsto> ?n)\<rparr>"
  have run: "memaccess_data_cb e info a pc s = Some ?s'"
    by (simp add: memaccess_data_cb_def t(1) r(1) n)
  have keys: "mem_key ?s' = mem_key s" using n by (auto simp: mem_key_def fun_eq_iff)
  have refs: "mem_refs ?s' rs"
    using assms(1) n by (auto simp: mem_refs_def keys chain_same_next intro: below_write)
  have unique: "q \<in> set rs \<Longrightarrow> mem_key s q = Some (pc, a) \<Longrightarrow> q = r" for q
    using mem_order.lookup_member [OF t(2), of q "(pc, a)"]
      mem_order.lookup_member [OF t(2), of r "(pc, a)"] assms(1,2) r(2,3) t(3)
      mem_comparison_eq [OF assms(2,2)]
    by (simp add: mem_refs_def)
  have "mem_view ?s' rs = map (\<lambda>m. if same_access pc a m then m\<lparr>mi_counter := mi_counter m + 1\<rparr> else m)
      (mem_view s rs)"
    unfolding mem_view_def map_map
  proof (rule map_cong [OF refl])
    fix q assume q: "q \<in> set rs"
    obtain k where k: "mem_info_heap s q = Some k" using mem_refs_live [OF assms(1) q] by blast
    show "mem_info_entry (the (mem_info_heap ?s' q)) =
      ((\<lambda>m. if same_access pc a m then m\<lparr>mi_counter := mi_counter m + 1\<rparr> else m) \<circ>
        (\<lambda>r. mem_info_entry (the (mem_info_heap s r)))) q"
    proof (cases "q = r")
      case True
      with n r(3) show ?thesis by (simp add: mem_info_entry_def same_access_def mem_key_def)
    next
      case False
      then have "mem_key s q \<noteq> Some (pc, a)" using unique q by blast
      with False k show ?thesis by (auto simp: mem_info_entry_def same_access_def mem_key_def)
    qed
  qed
  moreover have "mem_only s ?s'"
    using mem_onlyI [of s "mallocs s", where l = "mem_info_list s" and h = "mem_info_heap ?s'" and t = "mem_avl_root s"]
    by simp
  ultimately show ?thesis
    using run refs assms(3) mem_view_access [OF assms(1)] by (intro exI [of _ ?s']) (simp add: count_access_def)
qed

lemma memaccess_new:
  assumes "plenty e" "mem_refs s rs" "(pc, a) \<in> low31" "\<forall>r \<in> set rs. mem_key s r \<noteq> Some (pc, a)"
  shows "\<exists>s'. memaccess_data_cb e info a pc s = Some s' \<and> mem_only s s' \<and>
    mem_refs s' (mallocs s # rs) \<and>
    mem_view s' (mallocs s # rs) = first_access info a pc # mem_view s rs"
proof -
  let ?r = "mallocs s"
  obtain t where t: "mem_avl_root s = Some t" "avl_wf mem_comparison_func (mem_key s) t"
    "set (avl_items t) = set rs"
    using assms(2) by (auto simp: mem_refs_def)
  have ch: "chain mei_next (mem_info_heap s) (mem_info_list s) rs" "below (mem_info_heap s) ?r"
    "\<forall>r \<in> set rs. the (mem_key s r) \<in> low31"
    using assms(2) by (simp_all add: mem_refs_def)
  have r: "?r \<notin> set rs" "mem_info_heap s ?r = None"
    using ch by (auto simp: below_fresh dest: chain_below)
  have found: "avl_find (mem_key s) t (pc, a) = Some None" "avl_lookup (mem_key s) t (pc, a) = None"
    using mem_find [OF assms(2) t(1) assms(3)] assms(4) by (auto split: option.splits)
  let ?n = "\<lparr>mei_ins_address = pc, mei_size = ucast (mem_size_shift info), mei_memmory_address = a,
      mei_direction = (if mem_is_store info then 1 else 0), mei_counter = 0, mei_next = None\<rparr> :: mem_info"
  let ?t = "s\<lparr>mallocs := Suc ?r, mem_info_heap := (mem_info_heap s)(?r \<mapsto> ?n)\<rparr>"
  have keys: "d \<in> set (avl_items t) \<Longrightarrow> mem_key ?t d = mem_key s d" for d
    using r(1) t(3) by (auto simp: mem_key_def)
  have wf: "avl_wf mem_comparison_func (mem_key ?t) t" by (rule avl_wf_cong [OF t(2)]) (rule keys)
  have absent: "avl_lookup (mem_key ?t) t (pc, a) = None"
    using found(2) by (subst avl_lookup_cong [OF keys])
  have low: "\<forall>d \<in> set (avl_items t). the (mem_key ?t d) \<in> low31" using keys ch(3) t(3) by simp
  have key: "mem_key ?t ?r = Some (pc, a)" by (simp add: mem_key_def)
  have m: "malloc e ?t = (Some (Suc ?r), ?t\<lparr>mallocs := Suc (Suc ?r)\<rparr>)"
    using assms(1) by (simp add: plenty_malloc)
  obtain t' where t': "avl_insert e (mem_key ?t) t ?r ?t = Some (None, t', ?t\<lparr>mallocs := Suc (Suc ?r)\<rparr>)"
    "avl_wf mem_comparison_func (mem_key ?t) t'" "set (avl_items t') = insert ?r (set rs)"
    using mem_order.insert_absent [OF wf assms(3) low key absent m] t(3) by auto
  let ?n' = "?n\<lparr>mei_next := mem_info_list s, mei_counter := 1\<rparr>"
  let ?u = "s\<lparr>mallocs := Suc (Suc ?r), mem_info_list := Some ?r,
      mem_info_heap := (mem_info_heap s)(?r \<mapsto> ?n'), mem_avl_root := Some t'\<rparr>"
  have ku: "mem_key ?u = mem_key ?t" by (simp add: mem_key_def fun_eq_iff)
  have refs: "mem_refs ?u (?r # rs)"
    unfolding mem_refs_def ku using ch r t'(2,3) low t(3) assms(3) key
    by (auto simp: chain_frame intro: below_mono below_new)
  have eq: "?t\<lparr>mallocs := Suc (Suc ?r), mem_avl_root := Some t',
        mem_info_heap := (mem_info_heap s)(?r \<mapsto> ?n'), mem_info_list := Some ?r\<rparr> = ?u"
    by (intro mem_info_state.equality) simp_all
  have "memaccess_data_cb e info a pc s = Some ?u"
    using t(1) found(1) assms(1) t'(1) eq
    by (simp add: memaccess_data_cb_def plenty_malloc Let_def)
  moreover have "mem_only s ?u" by (rule mem_onlyI) simp
  moreover have "mem_view ?u (?r # rs) = first_access info a pc # mem_view s rs"
    using r(1) by (auto simp: mem_view_def first_access_def mem_info_entry_def)
  ultimately show ?thesis using refs by blast
qed

lemma memaccess_ok:
  assumes "plenty e" "mem_refs s rs" "(pc, a) \<in> low31"
  shows "\<exists>s' rs'. memaccess_data_cb e info a pc s = Some s' \<and> mem_only s s' \<and> mem_refs s' rs' \<and>
    mem_view s' rs' = count_access info a pc (mem_view s rs)"
proof (cases "\<exists>r \<in> set rs. mem_key s r = Some (pc, a)")
  case True
  with memaccess_known [OF assms(2,3)] show ?thesis by blast
next
  case False
  then have "count_access info a pc (mem_view s rs) = first_access info a pc # mem_view s rs"
    using mem_view_access [OF assms(2)] by (auto simp: count_access_def)
  with memaccess_new [OF assms] False show ?thesis by metis
qed


section \<open>The readout\<close>

lemma plugin_dump_mem_information_view:
  assumes "plenty e" "mem_refs s rs"
  shows "\<exists>k. mallocs s \<le> k \<and> plugin_dump_mem_information e msg s =
    Some (0, if rs = [] then msg else msg\<lparr>dm_mem_infos := mem_view s rs\<rparr>, s\<lparr>mallocs := k\<rparr>)"
proof -
  let ?h = "mem_info_heap s"
  have ch: "chain mei_next ?h (mem_info_list s) rs" using assms(2) by (simp add: mem_refs_def)
  show ?thesis
  proof (cases rs)
    case Nil
    then have "plugin_dump_mem_information e msg s = Some (0, msg, s\<lparr>mallocs := mallocs s\<rparr>)"
      using walk_count [OF ch] by (simp add: plugin_dump_mem_information_def get_mem_info_list_size_def)
    with Nil show ?thesis by (intro exI [of _ "mallocs s"]) simp
  next
    case (Cons r ts)
    let ?s = "s\<lparr>mallocs := Suc (mallocs s)\<rparr>"
    have "walk_until mei_next ?h
        (\<lambda>r item (s, infos). case malloc e s of (None, s) \<Rightarrow> Some (Inl s)
           | (Some _, s) \<Rightarrow> Some (Inr (s, infos @ [mem_info_entry item]))) (mem_info_list s) (?s, []) =
      Some (Inr (fold (\<lambda>r (s, ms). (s\<lparr>mallocs := mallocs s + 1\<rparr>, ms @ [mem_info_entry (the (?h r))])) rs (?s, [])))"
      using assms(1) by (intro walk_until_chain [OF ch]) (auto simp: plenty_malloc)
    then have "plugin_dump_mem_information e msg s =
        Some (0, msg\<lparr>dm_mem_infos := mem_view s rs\<rparr>, s\<lparr>mallocs := Suc (mallocs s) + length rs\<rparr>)"
      using walk_count [OF ch] assms(1) Cons unfolding fold_emit mem_view_def
      by (simp add: plugin_dump_mem_information_def get_mem_info_list_size_def plenty_malloc)
    with Cons show ?thesis by (intro exI [of _ "Suc (mallocs s) + length rs"]) simp
  qed
qed

lemma mem_avl_init_refs:
  assumes "plenty e" "mem_info_list s = None" "below (mem_info_heap s) (mallocs s)"
  shows "\<exists>s'. mem_avl_init e s = (True, s') \<and> mem_only s s' \<and> mem_refs s' []"
proof -
  let ?t = "\<lparr>avl_root = Leaf, avl_compare = mem_comparison_func, avl_count = 0, avl_generation = 0\<rparr>"
  let ?s' = "s\<lparr>mallocs := Suc (mallocs s), mem_info_list := mem_info_list s, mem_info_heap := mem_info_heap s,
      mem_avl_root := Some ?t\<rparr>"
  have "mem_refs ?s' []"
    using assms(2,3) by (auto simp: mem_refs_def avl_wf_def intro: below_mono)
  moreover have "mem_only s ?s'" by (rule mem_onlyI) simp
  moreover have "mem_avl_init e s = (True, ?s')"
    using assms(1) by (simp add: mem_avl_init_def avl_create_def plenty_malloc)
  ultimately show ?thesis by blast
qed

lemma mem_info_free_refs:
  assumes "mem_refs s rs"
  shows "mem_info_free s = Some (s\<lparr>mem_info_heap := mem_info_heap s |` (- set rs), mem_info_list := None,
    mem_avl_root := None\<rparr>)"
  using assms by (auto simp: mem_info_free_def mem_refs_def free_chain_frees)

type_synonym access = "meminfo \<times> u64 \<times> u64"

fun run_accesses ::
  "'g env \<Rightarrow> access list \<Rightarrow> ('g, 'z) mem_info_state_scheme \<Rightarrow> ('g, 'z) mem_info_state_scheme option" where
  "run_accesses e [] s = Some s"
| "run_accesses e ((info, vddr, pc) # as) s = do {
     s \<leftarrow> memaccess_data_cb e info vddr pc s;
     run_accesses e as s
   }"

fun spec_accesses :: "access list \<Rightarrow> mem_info_msg list \<Rightarrow> mem_info_msg list" where
  "spec_accesses [] ms = ms"
| "spec_accesses ((info, vddr, pc) # as) ms = spec_accesses as (count_access info vddr pc ms)"

lemma run_accesses_spec:
  assumes "plenty e"
  shows "mem_refs s rs \<Longrightarrow> \<forall>(info, a, pc) \<in> set as. (pc, a) \<in> low31 \<Longrightarrow>
    \<exists>s' rs'. run_accesses e as s = Some s' \<and> mem_refs s' rs' \<and>
      mem_view s' rs' = spec_accesses as (mem_view s rs)"
proof (induction as arbitrary: s rs)
  case Nil
  then show ?case by auto
next
  case (Cons x as)
  obtain info a pc where x: "x = (info, a, pc)" by (cases x)
  have low: "(pc, a) \<in> low31" "\<forall>(info, a, pc) \<in> set as. (pc, a) \<in> low31" using Cons.prems(2) x by auto
  obtain t ts where t: "memaccess_data_cb e info a pc s = Some t" "mem_refs t ts"
    "mem_view t ts = count_access info a pc (mem_view s rs)"
    using memaccess_ok [OF assms Cons.prems(1) low(1)] by blast
  from Cons.IH [OF t(2) low(2)] show ?case by (simp add: x t(1,3))
qed

lemma accesses_reported:
  assumes "plenty e" "mem_info_list s = None" "below (mem_info_heap s) (mallocs s)"
    and "\<forall>(info, a, pc) \<in> set as. (pc, a) \<in> low31"
  shows "\<exists>s0 s1 k. mem_avl_init e s = (True, s0) \<and> run_accesses e as s0 = Some s1 \<and>
    plugin_dump_mem_information e data_msg_init s1 =
      Some (0, data_msg_init\<lparr>dm_mem_infos := spec_accesses as []\<rparr>, s1\<lparr>mallocs := k\<rparr>)"
proof -
  obtain s0 where s0: "mem_avl_init e s = (True, s0)" "mem_refs s0 []"
    using mem_avl_init_refs [OF assms(1-3)] by blast
  obtain s1 rs where s1: "run_accesses e as s0 = Some s1" "mem_refs s1 rs"
    "mem_view s1 rs = spec_accesses as (mem_view s0 [])"
    using run_accesses_spec [OF assms(1) s0(2) assms(4)] by blast
  obtain k where k: "plugin_dump_mem_information e data_msg_init s1 =
      Some (0, if rs = [] then data_msg_init else data_msg_init\<lparr>dm_mem_infos := mem_view s1 rs\<rparr>, s1\<lparr>mallocs := k\<rparr>)"
    using plugin_dump_mem_information_view [OF assms(1) s1(2)] by blast
  have view: "spec_accesses as [] = mem_view s1 rs" unfolding s1(3) by (simp add: mem_view_def)
  have msg: "(if rs = [] then data_msg_init else data_msg_init\<lparr>dm_mem_infos := mem_view s1 rs\<rparr>) =
      data_msg_init\<lparr>dm_mem_infos := spec_accesses as []\<rparr>"
    unfolding view by (cases rs) (simp_all add: mem_view_def data_msg_init_def)
  from s0(1) s1(1) k show ?thesis unfolding msg by blast
qed


definition flat_meminfo :: "flat mem_info_state" where
  "flat_meminfo = trigger_state.extend flat_triggers
     \<lparr>mem_info_list = None, mem_info_heap = Map.empty, mem_avl_root = None\<rparr>"

lemma flat_meminfo_fields:
  "mem_info_list flat_meminfo = None" "below (mem_info_heap flat_meminfo) (mallocs flat_meminfo)"
  by (simp_all add: flat_meminfo_def trigger_state.defs)


text \<open>
  C37. Above that the comparison is not an order: an access 4 GiB away from one recorded for the same
  instruction compares equal to it and is counted as the same access.
\<close>

theorem far_accesses_are_merged:
  assumes "plenty e" "mem_info_list s = None" "mem_avl_init e s = (True, s0)"
  shows "\<exists>s1 k. run_accesses e [(i, a, pc), (j, a + 2 ^ 32, pc)] s0 = Some s1 \<and>
    plugin_dump_mem_information e msg s1 =
      Some (0, msg\<lparr>dm_mem_infos := [(first_access i a pc)\<lparr>mi_counter := 2\<rparr>]\<rparr>, s1\<lparr>mallocs := k\<rparr>)"
proof -
  let ?r = "Suc (mallocs s)"
  let ?t = "\<lambda>root n. \<lparr>avl_root = root, avl_compare = mem_comparison_func, avl_count = n, avl_generation = 0\<rparr>"
  have s0: "s0 = s\<lparr>mallocs := ?r, mem_avl_root := Some (?t Leaf 0)\<rparr>"
    using assms(1,3) by (simp add: mem_avl_init_def avl_create_def plenty_malloc)
  have far: "mem_comparison_func (pc, a + 2 ^ 32) (pc, a) = 0"
    by (simp add: mem_comparison_func_def u64_to_int_def)
  let ?n = "\<lparr>mei_ins_address = pc, mei_size = ucast (mem_size_shift i), mei_memmory_address = a,
      mei_direction = (if mem_is_store i then 1 else 0), mei_counter = 1, mei_next = None\<rparr> :: mem_info"
  let ?s = "s\<lparr>mallocs := Suc (Suc ?r), mem_info_list := Some ?r,
      mem_info_heap := (mem_info_heap s)(?r \<mapsto> ?n), mem_avl_root := Some (?t (Node Leaf ?r 0 Leaf) 1)\<rparr>"
  have first: "memaccess_data_cb e i a pc s0 = Some ?s"
    using assms(1,2)
    by (simp add: s0 memaccess_data_cb_def avl_find_def plenty_malloc avl_insert_def avl_probe_def mem_key_def Let_def)
  let ?s1 = "?s\<lparr>mem_info_heap := (mem_info_heap s)(?r \<mapsto> ?n\<lparr>mei_counter := 2\<rparr>)\<rparr>"
  have "avl_find (mem_key ?s) (?t (Node Leaf ?r 0 Leaf) 1) (pc, a + 2 ^ 32) = Some (Some ?r)"
    using far by (simp add: avl_find_def mem_key_def)
  then have second: "memaccess_data_cb e j (a + 2 ^ 32) pc ?s = Some ?s1"
    by (simp add: memaccess_data_cb_def)
  have "plugin_dump_mem_information e msg ?s1 = Some (0,
      msg\<lparr>dm_mem_infos := [(first_access i a pc)\<lparr>mi_counter := 2\<rparr>]\<rparr>, ?s1\<lparr>mallocs := Suc (Suc (Suc (Suc ?r)))\<rparr>)"
    using assms(1)
    by (simp add: plugin_dump_mem_information_def get_mem_info_list_size_def plenty_malloc first_access_def
        mem_info_entry_def)
  with first second show ?thesis by (intro exI [of _ ?s1]) auto
qed

theorem far_accesses_are_merged_witness:
  "\<exists>s1 k. run_accesses flat_env [(\<lparr>mem_size_shift = 2, mem_is_store = True\<rparr>, 16, 8),
      (\<lparr>mem_size_shift = 0, mem_is_store = False\<rparr>, 16 + 2 ^ 32, 8)] (snd (mem_avl_init flat_env flat_meminfo)) = Some s1 \<and>
    plugin_dump_mem_information flat_env data_msg_init s1 = Some (0, data_msg_init\<lparr>dm_mem_infos :=
      [\<lparr>mi_ins_address = 8, mi_size = 2, mi_memmory_address = 16, mi_direction = 1, mi_counter = 2\<rparr>]\<rparr>,
      s1\<lparr>mallocs := k\<rparr>)"
proof -
  have "mem_avl_init flat_env flat_meminfo = (True, snd (mem_avl_init flat_env flat_meminfo))"
    using flat_plenty by (simp add: mem_avl_init_def avl_create_def plenty_malloc)
  note merged = far_accesses_are_merged [OF flat_plenty flat_meminfo_fields(1) this,
      where i = "\<lparr>mem_size_shift = 2, mem_is_store = True\<rparr>" and a = 16 and pc = 8
        and j = "\<lparr>mem_size_shift = 0, mem_is_store = False\<rparr>" and msg = data_msg_init]
  have "(first_access \<lparr>mem_size_shift = 2, mem_is_store = True\<rparr> 16 8)\<lparr>mi_counter := 2\<rparr> =
      \<lparr>mi_ins_address = 8, mi_size = 2, mi_memmory_address = 16, mi_direction = 1, mi_counter = 2\<rparr>"
    by (simp add: first_access_def)
  with merged show ?thesis by (simp only:)
qed

end
