(* ===== verification/Control.thy ===== *)
theory Control
  imports MemInfo
begin

text \<open>
  The plugin's own variables in \<^verbatim>\<open>faultplugin/faultplugin.c\<close>, and how they are configured: the three
  pipes, the command line, the control message and the fault configuration.
\<close>

section \<open>The operating system and the message library\<close>

text \<open>
  The calls of the C library on files, and the functions generated for the messages, which are not
  part of the repository's own code.  \<open>io_fault_at\<close> is what the plugin finds at \<^verbatim>\<open>fault_array[i]\<close>,
  where \<^verbatim>\<open>fault_array\<close> is the first of the structs of an unpacked fault pack: where the library puts
  the structs is its own choice.  \<open>io_pages\<close> is the order in which a GLib hash table hands out its
  keys, \<open>io_ranges\<close> the flat view of QEMU's address space.
\<close>

record flat_range =
  fr_start :: int
  fr_size :: int
  fr_ram :: bool

text \<open>
  The part of \<^verbatim>\<open>struct sigaction\<close> that is read: \<^verbatim>\<open>sa_handler\<close> and \<^verbatim>\<open>sa_sigaction\<close> are one union.
\<close>

datatype sig_handler = SIG_DFL | SIG_IGN | Handler nat

record sig_action =
  sa_flags :: u32
  sa_handler :: sig_handler

record 'g io =
  io_mkfifo :: "string \<Rightarrow> 'g \<Rightarrow> 'g"
  io_open :: "bool \<Rightarrow> string \<Rightarrow> 'g \<Rightarrow> int \<times> 'g"
    \<comment> \<open>\<^verbatim>\<open>open(path, O_WRONLY)\<close> for \<open>True\<close>, \<^verbatim>\<open>open(path, O_RDONLY)\<close> for \<open>False\<close>\<close>
  io_read :: "int \<Rightarrow> nat \<Rightarrow> 'g \<Rightarrow> int \<times> u8 list \<times> 'g"
  io_write :: "int \<Rightarrow> u8 list \<Rightarrow> 'g \<Rightarrow> int \<times> 'g"
  io_unpack_control :: "u8 list \<Rightarrow> control_msg option"
  io_unpack_faults :: "u8 list \<Rightarrow> fault_msg list option"
  io_fault_at :: "fault_msg list \<Rightarrow> nat \<Rightarrow> fault_msg option"
  io_pack_data :: "data_msg \<Rightarrow> u8 list"
  io_pages :: "u64 list \<Rightarrow> u64 list"
  io_ranges :: "'g \<Rightarrow> flat_range list"
  io_sigaction :: "'g \<Rightarrow> int \<times> sig_action \<times> 'g"
    \<comment> \<open>\<^verbatim>\<open>sigaction(SIGABRT, ...)\<close> with the plugin's handler: the code and the old action\<close>

section \<open>State\<close>

record fifos =
  fifo_control :: int
  fifo_config :: int
  fifo_data :: int

record end_point_node =
  ep_location :: fault_trigger
  ep_next :: "ref option"

record 'g plugin_state = "'g mem_info_state" +
  pipes :: "fifos option"
  first_tb :: int
  tb_counter :: int
  tb_counter_max :: int
  start_point :: fault_trigger
  end_point :: "ref option"
  end_point_heap :: "ref \<rightharpoonup> end_point_node"
  tb_info_enabled :: int
  tb_exec_order_enabled :: int
  full_mem_dump_enabled :: int
  memmap_dump_enabled :: int
  mem_info_list_enabled :: int
  architecture :: string
  mem_map_infos :: "mem_map_info_msg list option"
  mem_map_size :: nat
  old_abort_action :: sig_action
  tb_trans_registered :: bool

section \<open>Reading from a pipe\<close>

text \<open>\<^verbatim>\<open>strtoumax(str, NULL, 0)\<close> of the C library.\<close>

definition is_space :: "u8 \<Rightarrow> bool" where
  "is_space c \<longleftrightarrow> c = 32 \<or> 9 \<le> c \<and> c \<le> 13"

definition digit :: "u8 \<Rightarrow> nat" where
  "digit c =
     (if 48 \<le> c \<and> c \<le> 57 then unat c - 48
      else if 97 \<le> c \<and> c \<le> 102 then unat c - 87
      else if 65 \<le> c \<and> c \<le> 70 then unat c - 55
      else 16)"

definition number_in :: "nat \<Rightarrow> u8 list \<Rightarrow> nat" where
  "number_in base s = foldl (\<lambda>n c. n * base + digit c) 0 (takeWhile (\<lambda>c. digit c < base) s)"

definition magnitude :: "u8 list \<Rightarrow> nat" where
  "magnitude s =
     (case s of
        a # b # c # _ \<Rightarrow>
          if a = 48 \<and> (b = 120 \<or> b = 88) \<and> digit c < 16 then number_in 16 (drop 2 s)
          else if a = 48 then number_in 8 s else number_in 10 s
      | a # _ \<Rightarrow> if a = 48 then number_in 8 s else number_in 10 s
      | [] \<Rightarrow> 0)"

definition strtoumax :: "u8 list \<Rightarrow> u64" where
  "strtoumax str =
     (let s = dropWhile is_space (takeWhile (\<lambda>c. c \<noteq> 0) str);
          neg = (s \<noteq> [] \<and> hd s = 45);
          s = (if s \<noteq> [] \<and> (hd s = 45 \<or> hd s = 43) then tl s else s);
          n = magnitude s
      in if n \<ge> 2 ^ 64 then -1 else if neg then - of_nat n else of_nat n)"

text \<open>
  The loop ends at a newline or when \<^verbatim>\<open>read\<close> does not return one character; on a pipe that delivers
  characters for ever it does not end (\<open>None\<close>).
\<close>

partial_function (option) readout_size_loop ::
  "'g io \<Rightarrow> int \<Rightarrow> u8 list \<Rightarrow> 'g \<Rightarrow> (u64 \<times> 'g) option" where
  "readout_size_loop io pipe_fd size_str g =
     (case io_read io pipe_fd 1 g of
        (ret, cs, g) \<Rightarrow>
          if ret \<noteq> 1 then Some (0, g)
          else (case cs of
                  [] \<Rightarrow> None
                | c # _ \<Rightarrow>
                    if c = 10 then Some (strtoumax (size_str @ [c]), g)
                    else readout_size_loop io pipe_fd (size_str @ [c]) g))"

definition readout_pipe_size :: "'g io \<Rightarrow> int \<Rightarrow> 'g \<Rightarrow> (u64 \<times> 'g) option" where
  "readout_pipe_size io pipe_fd g = readout_size_loop io pipe_fd [] g"

text \<open>
  The loop that reads the message.  The state is what was read so far, \<^verbatim>\<open>left\<close> and \<^verbatim>\<open>total_read\<close>; the
  length passed to \<^verbatim>\<open>read\<close> is \<^verbatim>\<open>left\<close> converted to \<^verbatim>\<open>size_t\<close>, and the comparison converts
  \<^verbatim>\<open>total_read\<close>.  A \<^verbatim>\<open>read\<close> beyond the buffer is \<open>None\<close>.
\<close>

partial_function (option) readout_loop ::
  "'g io \<Rightarrow> int \<Rightarrow> u64 \<Rightarrow> u8 list \<Rightarrow> int \<Rightarrow> int \<Rightarrow> 'g \<Rightarrow> (int \<times> u8 list \<times> 'g) option" where
  "readout_loop io pipe_fd message_size buff left total_read g =
     (if of_int total_read < message_size then
        (case io_read io pipe_fd (unat (of_int left :: u64)) g of
           (n_chars_received, bytes, g) \<Rightarrow>
             if n_chars_received = -1 then Some (-1, buff, g)
             else if length buff + length bytes > unat message_size then None
             else readout_loop io pipe_fd message_size (buff @ bytes) (left - n_chars_received)
                    (total_read + n_chars_received) g)
      else Some (total_read, buff, g))"

text \<open>The code, and the buffer that the caller's pointer then points to, if one was allocated.\<close>

definition readout_pipe ::
  "'g env \<Rightarrow> 'g io \<Rightarrow> int \<Rightarrow> ('g, 'z) machine_scheme \<Rightarrow>
   (int \<times> u8 list option \<times> ('g, 'z) machine_scheme) option" where
  "readout_pipe e io pipe_fd s = do {
     (message_size, g) \<leftarrow> readout_pipe_size io pipe_fd (guest s);
     let s = s\<lparr>guest := g\<rparr>;
     if message_size = 0 then Some (-1, None, s)
     else
       (case malloc e s of
          (None, s) \<Rightarrow> Some (-1, None, s)
        | (Some _, s) \<Rightarrow> do {
            (total_read, buff, g) \<leftarrow>
              readout_loop io pipe_fd message_size [] (u64_to_int message_size) 0 (guest s);
            Some (total_read, Some buff, s\<lparr>guest := g\<rparr>)
          })
   }"

section \<open>Writing to the data pipe\<close>

partial_function (option) write_loop :: "'g io \<Rightarrow> int \<Rightarrow> u8 list \<Rightarrow> 'g \<Rightarrow> (int \<times> 'g) option" where
  "write_loop io fd str g =
     (if str \<noteq> [] then
        (case io_write io fd str g of
           (ret, g) \<Rightarrow>
             if ret = -1 then Some (-1, g)
             else if ret < 0 \<or> int (length str) < ret then None
             else write_loop io fd (drop (nat ret) str) g)
      else Some (0, g))"

definition plugin_write_to_data_pipe ::
  "'g io \<Rightarrow> u8 list \<Rightarrow> ('g, 'z) plugin_state_scheme \<Rightarrow> (int \<times> ('g, 'z) plugin_state_scheme) option" where
  "plugin_write_to_data_pipe io str s = do {
     p \<leftarrow> pipes s;
     (ret, g) \<leftarrow> write_loop io (fifo_data p) str (guest s);
     Some (ret, s\<lparr>guest := g\<rparr>)
   }"

section \<open>The command line\<close>

definition starts_with :: "string \<Rightarrow> string \<Rightarrow> bool" where
  "starts_with opt p \<longleftrightarrow> take (length p) opt = p"

fun parse_options ::
  "'g io \<Rightarrow> string list \<Rightarrow> ('g, 'z) plugin_state_scheme \<Rightarrow> (int \<times> ('g, 'z) plugin_state_scheme) option" where
  "parse_options io [] s = Some (0, s)"
| "parse_options io (opt # opts) s = do {
     p \<leftarrow> pipes s;
     if starts_with opt ''control='' then
       (case io_open io False (drop 8 opt) (io_mkfifo io (drop 8 opt) (guest s)) of
          (fd, g) \<Rightarrow> parse_options io opts (s\<lparr>guest := g, pipes := Some (p\<lparr>fifo_control := fd\<rparr>)\<rparr>))
     else if starts_with opt ''config='' then
       (case io_open io False (drop 7 opt) (io_mkfifo io (drop 7 opt) (guest s)) of
          (fd, g) \<Rightarrow> parse_options io opts (s\<lparr>guest := g, pipes := Some (p\<lparr>fifo_config := fd\<rparr>)\<rparr>))
     else if starts_with opt ''data='' then
       (case io_open io True (drop 5 opt) (io_mkfifo io (drop 5 opt) (guest s)) of
          (fd, g) \<Rightarrow> parse_options io opts (s\<lparr>guest := g, pipes := Some (p\<lparr>fifo_data := fd\<rparr>)\<rparr>))
     else Some (-1, s)
   }"

definition parse_args ::
  "'g io \<Rightarrow> string list \<Rightarrow> ('g, 'z) plugin_state_scheme \<Rightarrow> (int \<times> ('g, 'z) plugin_state_scheme) option" where
  "parse_args io argv s =
     (if length argv \<noteq> 3 then Some (-1, s)
      else do {
        (status, s) \<leftarrow> parse_options io argv s;
        if status \<noteq> 0 then Some (-1, s)
        else do {
          p \<leftarrow> pipes s;
          Some (if fifo_control p = -1 \<or> fifo_config p = -1 \<or> fifo_data p = -1 then -1 else 0, s)
        }
      })"

definition char_to_uint64 :: "u8 list \<Rightarrow> int \<Rightarrow> u64 option" where
  "char_to_uint64 c size_c = do {
     bytes \<leftarrow> those (map (\<lambda>i. arr_get c i) [0..<nat size_c]);
     Some (foldl (\<lambda>tmp b. push_bit 8 tmp + ucast b) 0 bytes)
   }"


section \<open>The fault configuration\<close>

text \<open>The two 64-bit halves of a mask as sixteen bytes.\<close>

definition split_mask :: "u64 \<Rightarrow> u64 \<Rightarrow> u8 list" where
  "split_mask lower upper =
     map (\<lambda>j. ucast (drop_bit (j * 8) lower AND 0xFF)) [0..<8] @
     map (\<lambda>j. ucast (drop_bit (j * 8) upper AND 0xFF)) [0..<8]"

fun add_faults ::
  "'g env \<Rightarrow> (nat \<Rightarrow> fault_msg option) \<Rightarrow> nat list \<Rightarrow> ('g, 'z) fault_list_state_scheme \<Rightarrow>
   (int \<times> ('g, 'z) fault_list_state_scheme) option" where
  "add_faults e fault_array [] s = Some (0, s)"
| "add_faults e fault_array (i # is) s = do {
     f \<leftarrow> fault_array i;
     (case add_fault e (fm_address f) (fm_type f) (fm_model f) (fm_lifespan f)
             (split_mask (fm_mask_lower f) (fm_mask_upper f)) (fm_trigger_address f)
             (fm_trigger_hitcounter f) (ucast (fm_num_bytes f)) s of
        (res, s) \<Rightarrow> if res < 0 then Some (-1, s) else add_faults e fault_array is s)
   }"

text \<open>
  \<^verbatim>\<open>*fault_pack->faults\<close> reads a pointer that is \<^verbatim>\<open>NULL\<close> in a pack without faults: \<open>None\<close>.
\<close>

definition qemu_setup_config ::
  "'g env \<Rightarrow> 'g io \<Rightarrow> ('g, 'z) plugin_state_scheme \<Rightarrow> (int \<times> ('g, 'z) plugin_state_scheme) option" where
  "qemu_setup_config e io s = do {
     p \<leftarrow> pipes s;
     (msg_size, conf, s) \<leftarrow> readout_pipe e io (fifo_config p) s;
     if msg_size \<le> 0 then Some (-1, s)
     else do {
       conf \<leftarrow> conf;
       (case io_unpack_faults io conf of
          None \<Rightarrow> Some (-1, s)
        | Some faults \<Rightarrow>
            if faults = [] then None
            else add_faults e (io_fault_at io faults) [0..<length faults] s)
     }
   }"

section \<open>The control message\<close>

fun more_end_points ::
  "'g env \<Rightarrow> end_point_msg list \<Rightarrow> ref \<Rightarrow> ('g, 'z) plugin_state_scheme \<Rightarrow> ('g, 'z) plugin_state_scheme option"
where
  "more_end_points e [] cur s = Some s"
| "more_end_points e (m # ms) cur s =
     (case malloc e s of
        (None, s) \<Rightarrow> None
      | (Some r, s) \<Rightarrow> do {
          n \<leftarrow> end_point_heap s cur;
          more_end_points e ms r (s\<lparr>end_point_heap := (end_point_heap s)
            (cur \<mapsto> n\<lparr>ep_next := Some r\<rparr>,
             r \<mapsto> \<lparr>ep_location = \<lparr>trig_address = ep_address m, hitcounter = ep_counter m, trignum = 3\<rparr>,
                   ep_next = None\<rparr>)\<rparr>)
        })"

text \<open>The head of the list of end points exists already.\<close>

definition set_end_points ::
  "'g env \<Rightarrow> end_point_msg list \<Rightarrow> ('g, 'z) plugin_state_scheme \<Rightarrow> ('g, 'z) plugin_state_scheme option"
where
  "set_end_points e ms s =
     (case ms of
        [] \<Rightarrow> Some s
      | m # ms \<Rightarrow> do {
          cur \<leftarrow> end_point s;
          n \<leftarrow> end_point_heap s cur;
          let n = n\<lparr>ep_location := \<lparr>trig_address = ep_address m, hitcounter = ep_counter m,
                                   trignum = trignum (ep_location n) OR 3\<rparr>\<rparr>;
          more_end_points e ms cur (s\<lparr>end_point_heap := (end_point_heap s)(cur \<mapsto> n)\<rparr>)
        })"

fun insert_configs ::
  "'g env \<Rightarrow> memory_dump_msg list \<Rightarrow> ('g, 'z) memdump_state_scheme \<Rightarrow>
   (int \<times> ('g, 'z) memdump_state_scheme) option" where
  "insert_configs e [] s = Some (0, s)"
| "insert_configs e (m # ms) s = do {
     (status, s) \<leftarrow> insert_memorydump_config e (mdm_address m) (mdm_length m) s;
     if status < 0 then Some (-1, s) else insert_configs e ms s
   }"

definition set_start_point :: "control_msg \<Rightarrow> fault_trigger \<Rightarrow> fault_trigger" where
  "set_start_point m p =
     (if cm_has_start m
      then \<lparr>trig_address = cm_start_address m, hitcounter = cm_start_counter m,
            trignum = (trignum p OR 2) OR 1\<rparr>
      else p)"

definition readout_control_qemu ::
  "'g env \<Rightarrow> 'g io \<Rightarrow> ('g, 'z) plugin_state_scheme \<Rightarrow> (int \<times> ('g, 'z) plugin_state_scheme) option" where
  "readout_control_qemu e io s = do {
     p \<leftarrow> pipes s;
     (msg_size, buff, s) \<leftarrow> readout_pipe e io (fifo_control p) s;
     if msg_size \<le> 0 then Some (-1, s)
     else do {
       buff \<leftarrow> buff;
       (case io_unpack_control io buff of
          None \<Rightarrow> Some (-1, s)
        | Some m \<Rightarrow> do {
            let s = s\<lparr>tb_counter_max := u64_to_int (cm_max_duration m),
                      fault_number := u64_to_int (cm_num_faults m),
                      start_point := set_start_point m (start_point s)\<rparr>;
            s \<leftarrow> set_end_points e (cm_end_points m) s;
            let s = s\<lparr>mem_info_list_enabled := of_bool (cm_mem_info m),
                      tb_info_enabled := of_bool (cm_tb_info m),
                      tb_exec_order_enabled := of_bool (cm_tb_exec_list m),
                      tb_exec_order_ring_buffer := of_bool (cm_tb_exec_list_ring_buffer m),
                      memmap_dump_enabled := of_bool (cm_memmap_dump m),
                      full_mem_dump_enabled := of_bool (cm_full_mem_dump m)\<rparr>;
            (status, s) \<leftarrow>
              (if cm_memorydumps m \<noteq> [] then do {
                 (status, s) \<leftarrow> init_memory e (length (cm_memorydumps m)) s;
                 if status < 0 then Some (-1, s) else insert_configs e (cm_memorydumps m) s
               } else Some (0, s));
            if status < 0 then Some (-1, s)
            else do {
              s \<leftarrow> (if memory_module_configured s = 0
                     then map_option snd (init_memory e 1 s) else Some s);
              (status, s) \<leftarrow> qemu_setup_config e io s;
              Some (if status < 0 then -1 else 0, s)
            }
          })
     }
   }"

end
