(* ===== verification/Handlers.thy ===== *)
theory Handlers
  imports Control
begin

text \<open>
  The event handlers of \<^verbatim>\<open>faultplugin/faultplugin.c\<close>: what runs when QEMU translates a block, and the
  callbacks that the translation registers for the execution of blocks and instructions, except the
  ones that end the run.
\<close>

section \<open>Callbacks of triggers and live faults\<close>

definition trigger_insn_cb ::
  "'g env \<Rightarrow> ref \<Rightarrow> ('g, 'z) trigger_state_scheme \<Rightarrow> ('g, 'z) trigger_state_scheme option" where
  "trigger_insn_cb e current s = do {
     f \<leftarrow> get_fault current s;
     if hitcounter (f_trigger f) \<noteq> 0 then do {
       let f = f\<lparr>f_trigger := (f_trigger f)\<lparr>hitcounter := hitcounter (f_trigger f) - 1\<rparr>\<rparr>;
       s \<leftarrow> put_fault current f s;
       s \<leftarrow> (if hitcounter (f_trigger f) = 0 then inject_fault e (Some current) s else Some s);
       f \<leftarrow> get_fault current s;
       Some (if hitcounter (f_trigger f) = 1 then add_singlestep_req e s else s)
     }
     else Some s
   }"

definition tb_exec_cb ::
  "'g env \<Rightarrow> ref \<Rightarrow> ('g, 'z) trigger_state_scheme \<Rightarrow> ('g, 'z) trigger_state_scheme option" where
  "tb_exec_cb e current s = do {
     f \<leftarrow> get_fault current s;
     if f_lifetime f \<noteq> 0 then do {
       let f = f\<lparr>f_lifetime := f_lifetime f - 1\<rparr>;
       s \<leftarrow> put_fault current f s;
       if f_lifetime f = 0 then do {
         s \<leftarrow> reverse_fault e (Some current) s;
         f \<leftarrow> get_fault current s;
         l \<leftarrow> live_faults s;
         l \<leftarrow> arr_set l (unat (trignum (f_trigger f))) None;
         Some (s\<lparr>live_faults := Some l\<rparr>)
       }
       else Some s
     }
     else Some s
   }"

section \<open>The first block\<close>

text \<open>
  The walk over the list of faults; the body leaves the list as it is.  The store of the nodes is
  the one the body may change.
\<close>

definition insert_first_fault ::
  "'g env \<Rightarrow> ref \<Rightarrow> ('g, 'z) trigger_state_scheme \<Rightarrow> ('g, 'z) trigger_state_scheme option" where
  "insert_first_fault e current s = do {
     f \<leftarrow> get_fault current s;
     s \<leftarrow> (if hitcounter (f_trigger f) = 0 \<and> f_type f = INSTRUCTION then do {
             s \<leftarrow> inject_fault e (Some current) (add_singlestep_req e s);
             f \<leftarrow> get_fault current s;
             v \<leftarrow> fault_trigger_addresses s;
             v \<leftarrow> arr_set v (unat (trignum (f_trigger f))) 0;
             Some (s\<lparr>fault_trigger_addresses := Some v\<rparr>)
           } else Some s);
     f \<leftarrow> get_fault current s;
     Some (if hitcounter (f_trigger f) = 1 then add_singlestep_req e s else s)
   }"

partial_function (option) insert_first_faults ::
  "'g env \<Rightarrow> ref option \<Rightarrow> ('g, 'z) trigger_state_scheme \<Rightarrow> ('g, 'z) trigger_state_scheme option" where
  "insert_first_faults e current s =
     (case current of
        None \<Rightarrow> Some s
      | Some r \<Rightarrow> do {
          s \<leftarrow> insert_first_fault e r s;
          next \<leftarrow> return_next current s;
          insert_first_faults e next s
        })"

definition handle_first_tb_fault_insertion ::
  "'g env \<Rightarrow> ('g, 'z) trigger_state_scheme \<Rightarrow> ('g, 'z) trigger_state_scheme option" where
  "handle_first_tb_fault_insertion e s = insert_first_faults e (return_first_fault s) s"

section \<open>Triggers and live faults of a block\<close>

definition covers_insn :: "u64 \<Rightarrow> insn \<Rightarrow> bool" where
  "covers_insn a i \<longleftrightarrow> a \<ge> insn_vaddr i \<and> a < insn_vaddr i + insn_size i"

definition register_at ::
  "(insn \<Rightarrow> bool) \<Rightarrow> (insn \<Rightarrow> callback) \<Rightarrow> tb \<Rightarrow> ('g, 'z) machine_scheme \<Rightarrow> ('g, 'z) machine_scheme" where
  "register_at test c tb s = fold (\<lambda>i s. if test i then register_cb (c i) s else s) (tb_insns tb) s"

definition evaluate_trigger ::
  "tb \<Rightarrow> nat \<Rightarrow> ('g, 'z) trigger_state_scheme \<Rightarrow> ('g, 'z) trigger_state_scheme option" where
  "evaluate_trigger tb trigger_address_number s = do {
     v \<leftarrow> fault_trigger_addresses s;
     a \<leftarrow> arr_get v trigger_address_number;
     current \<leftarrow> get_fault_struct_by_trigger a (of_nat trigger_address_number) s;
     (case current of
        None \<Rightarrow> Some s
      | Some r \<Rightarrow> do {
          f \<leftarrow> get_fault r s;
          Some (register_at (covers_insn (trig_address (f_trigger f)))
                  (\<lambda>i. Trigger_insn_cb (insn_vaddr i) r) tb s)
        })
   }"

definition eval_live_fault_callback ::
  "'g env \<Rightarrow> tb \<Rightarrow> nat \<Rightarrow> ('g, 'z) trigger_state_scheme \<Rightarrow> ('g, 'z) trigger_state_scheme option" where
  "eval_live_fault_callback e tb live_fault_callback_number s = do {
     l \<leftarrow> live_faults s;
     current \<leftarrow> arr_get l live_fault_callback_number;
     (case current of
        None \<Rightarrow> Some s
      | Some r \<Rightarrow> do {
          f \<leftarrow> get_fault r s;
          if f_lifetime f = 0 then do {
            l \<leftarrow> arr_set l live_fault_callback_number None;
            Some (rem_singlestep_req e (s\<lparr>live_faults := Some l\<rparr>))
          }
          else Some (register_at (\<lambda>_. True) (\<lambda>i. Tb_exec_cb (insn_vaddr i) r) tb s)
        })
   }"

fun check_trigger_vector ::
  "tb \<Rightarrow> u64 \<Rightarrow> nat list \<Rightarrow> ('g, 'z) trigger_state_scheme \<Rightarrow> ('g, 'z) trigger_state_scheme option" where
  "check_trigger_vector tb tb_size [] s = Some s"
| "check_trigger_vector tb tb_size (i # is) s = do {
     v \<leftarrow> fault_trigger_addresses s;
     a \<leftarrow> arr_get v i;
     s \<leftarrow> (if tb_vaddr tb \<le> a \<and> tb_vaddr tb + tb_size > a then evaluate_trigger tb i s else Some s);
     check_trigger_vector tb tb_size is s
   }"

fun check_live_vector ::
  "'g env \<Rightarrow> tb \<Rightarrow> nat list \<Rightarrow> ('g, 'z) trigger_state_scheme \<Rightarrow> ('g, 'z) trigger_state_scheme option" where
  "check_live_vector e tb [] s = Some s"
| "check_live_vector e tb (i # is) s = do {
     l \<leftarrow> live_faults s;
     p \<leftarrow> arr_get l i;
     s \<leftarrow> (if p \<noteq> None then eval_live_fault_callback e tb i s else Some s);
     check_live_vector e tb is s
   }"

definition handle_tb_translate_event ::
  "'g env \<Rightarrow> tb \<Rightarrow> ('g, 'z) trigger_state_scheme \<Rightarrow> ('g, 'z) trigger_state_scheme option" where
  "handle_tb_translate_event e tb s = do {
     tb_size \<leftarrow> calculate_bytesize_instructions tb;
     s \<leftarrow> check_trigger_vector tb tb_size [0..<nat (fault_number s)] s;
     check_live_vector e tb [0..<nat (live_faults_number s)] s
   }"

section \<open>Data collection for a block\<close>

definition handle_tb_translate_data ::
  "'g env \<Rightarrow> tb \<Rightarrow> ('g, 'z) plugin_state_scheme \<Rightarrow> ('g, 'z) plugin_state_scheme option" where
  "handle_tb_translate_data e tb s = do {
     (tb_information, s) \<leftarrow> (if tb_info_enabled s = 1 then add_tb_info e tb s else Some (None, s));
     let s = (if tb_exec_order_enabled s = 1
              then register_cb (Tb_exec_data_event (tb_vaddr tb) tb_information) s else s);
     let s = register_cb (Tb_exec_end_max_event (tb_vaddr tb) (of_nat (length (tb_insns tb)))) s;
     Some (if mem_info_list_enabled s = 1
           then register_at (\<lambda>_. True) (\<lambda>i. Memaccess_data_cb (insn_vaddr i)) tb s else s)
   }"

section \<open>Translation of a block\<close>

text \<open>One end point of the list.\<close>

definition register_end_point ::
  "tb \<Rightarrow> ref \<Rightarrow> end_point_node \<Rightarrow> ('g, 'z) plugin_state_scheme option \<Rightarrow> ('g, 'z) plugin_state_scheme option"
where
  "register_end_point tb cur n s =
     (if trignum (ep_location n) = 3 then do {
        s \<leftarrow> s;
        tb_size \<leftarrow> calculate_bytesize_instructions tb;
        let a = trig_address (ep_location n);
        Some (if tb_vaddr tb \<le> a \<and> tb_vaddr tb + tb_size > a
              then register_at (covers_insn a) (\<lambda>i. Tb_exec_end_cb (insn_vaddr i) cur) tb s
              else s)
      } else s)"

definition vcpu_translateblock_translation_event ::
  "'g env \<Rightarrow> tb \<Rightarrow> ('g, 'z) plugin_state_scheme \<Rightarrow> ('g, 'z) plugin_state_scheme option" where
  "vcpu_translateblock_translation_event e tb s =
     (if trignum (start_point s) \<noteq> 3 then do {
        s \<leftarrow> (if first_tb s \<noteq> 0 then handle_tb_translate_event e tb s
               else handle_first_tb_fault_insertion e (s\<lparr>first_tb := 1\<rparr>));
        s \<leftarrow> handle_tb_translate_data e tb s;
        s \<leftarrow> check_tb_faulted e tb s;
        s \<leftarrow> walk ep_next (end_point_heap s) (register_end_point tb) (end_point s) (Some s);
        s
      }
      else do {
        tb_size \<leftarrow> calculate_bytesize_instructions tb;
        let a = trig_address (start_point s);
        Some (if tb_vaddr tb \<le> a \<and> tb_vaddr tb + tb_size > a
              then register_cb (Tb_exec_start_cb (tb_vaddr tb)) s else s)
      })"

end
