(* ===== verification/EndDump.thy ===== *)
theory EndDump
  imports Handlers
begin

text \<open>
  The end of a run: \<^verbatim>\<open>faultplugin/memmap_collection.c\<close>, the final dump and the callbacks that lead to it,
  from \<^verbatim>\<open>faultplugin/faultplugin.c\<close>.
\<close>

section \<open>The memory map\<close>

text \<open>\<^verbatim>\<open>int128_get64\<close> stops in an assertion when the value does not fit.\<close>

definition int128_get64 :: "int \<Rightarrow> u64 option" where
  "int128_get64 a = (if 0 \<le> a \<and> a < 2 ^ 64 then Some (of_int a) else None)"

text \<open>The callback never stops the walk over the ranges; its \<^verbatim>\<open>malloc\<close> is not checked.\<close>

definition add_memmap_entry ::
  "'g env \<Rightarrow> flat_range \<Rightarrow> mem_map_info_msg list \<times> ('g, 'z) machine_scheme \<Rightarrow>
   (mem_map_info_msg list \<times> ('g, 'z) machine_scheme) option" where
  "add_memmap_entry e fr = (\<lambda>(infos, s).
     (if fr_ram fr then
        (case malloc e s of
           (None, s) \<Rightarrow> None
         | (Some _, s) \<Rightarrow> do {
             a \<leftarrow> int128_get64 (fr_start fr);
             n \<leftarrow> int128_get64 (fr_size fr);
             Some (infos @ [\<lparr>mmi_address = a, mmi_size = n\<rparr>], s)
           })
      else Some (infos, s)))"

fun flatview_for_each_range ::
  "(flat_range \<Rightarrow> 'a \<Rightarrow> 'a option) \<Rightarrow> flat_range list \<Rightarrow> 'a \<Rightarrow> 'a option" where
  "flatview_for_each_range cb [] a = Some a"
| "flatview_for_each_range cb (fr # frs) a = do {
     a \<leftarrow> cb fr a;
     flatview_for_each_range cb frs a
   }"

definition plugin_dump_memmap_information ::
  "'g env \<Rightarrow> 'g io \<Rightarrow> data_msg \<Rightarrow> ('g, 'z) plugin_state_scheme \<Rightarrow>
   (int \<times> data_msg \<times> ('g, 'z) plugin_state_scheme) option" where
  "plugin_dump_memmap_information e io msg s =
     (case malloc e s of
        (None, s) \<Rightarrow> Some (-1, msg, s\<lparr>mem_map_infos := None\<rparr>)
      | (Some _, s) \<Rightarrow> do {
          (infos, s) \<leftarrow> flatview_for_each_range (add_memmap_entry e) (io_ranges io (guest s)) ([], s);
          Some (0, msg\<lparr>dm_mem_map_infos := infos\<rparr>,
                s\<lparr>mem_map_infos := Some infos, mem_map_size := length infos\<rparr>)
        })"

text \<open>The pointer keeps its value; it is recorded as gone.\<close>

definition free_memmap_info ::
  "('g, 'z) plugin_state_scheme \<Rightarrow> ('g, 'z) plugin_state_scheme option" where
  "free_memmap_info s =
     (if 0 < mem_map_size s \<and> mem_map_infos s = None then None else Some (s\<lparr>mem_map_infos := None\<rparr>))"

section \<open>Steps that may end the process\<close>

text \<open>
  \<open>Inl (c, s)\<close>: the process ended in the state \<open>s\<close> with the exit code \<open>c\<close>.
\<close>

type_synonym 's outcome = "(int \<times> 's) + 's"

text \<open>The pattern \<^verbatim>\<open>status = f(msg); if (status != 0) exit(EXIT_FAILURE);\<close>.\<close>

definition checked ::
  "(int \<times> 'm \<times> 's) option \<Rightarrow> ('m \<Rightarrow> 's \<Rightarrow> 's outcome option) \<Rightarrow> 's outcome option" where
  "checked r k = do {
     (status, msg, s) \<leftarrow> r;
     if status \<noteq> 0 then Some (Inl (1, s)) else k msg s
   }"

section \<open>The final dump\<close>

definition page_of :: "u64 \<Rightarrow> u64" where
  "page_of a = a AND 0xfffffffffffff000"

text \<open>The pages that were written to, each with one \<^verbatim>\<open>malloc\<close> for the key that is put in the table.\<close>

definition written_pages ::
  "'g env \<Rightarrow> ('g, 'z) plugin_state_scheme \<Rightarrow> (u64 list \<times> ('g, 'z) plugin_state_scheme) option" where
  "written_pages e s = do {
     a \<leftarrow> walk mei_next (mem_info_heap s)
            (\<lambda>r item a.
               if mei_direction item = 1
               then do {
                 (pages, s) \<leftarrow> a;
                 (case malloc e s of
                    (None, s) \<Rightarrow> None
                  | (Some _, s) \<Rightarrow> Some (pages @ [page_of (mei_memmory_address item)], s))
               } else a)
            (mem_info_list s) (Some ([], s));
     a
   }"

fun memmap_dump_register_pages ::
  "'g env \<Rightarrow> u64 list \<Rightarrow> ('g, 'z) memdump_state_scheme \<Rightarrow> ('g, 'z) memdump_state_scheme option" where
  "memmap_dump_register_pages e [] s = Some s"
| "memmap_dump_register_pages e (key # keys) s = do {
     (_, s) \<leftarrow> insert_memorydump_config e key 0x1000 s;
     memmap_dump_register_pages e keys s
   }"

definition dump_written_pages ::
  "'g env \<Rightarrow> 'g io \<Rightarrow> ('g, 'z) plugin_state_scheme \<Rightarrow> ('g, 'z) plugin_state_scheme option" where
  "dump_written_pages e io s =
     (if full_mem_dump_enabled s \<noteq> 0 then do {
        (pages, s) \<leftarrow> written_pages e s;
        memmap_dump_register_pages e (io_pages io pages) s
      } else Some s)"

text \<open>
  The head of the list of end points tells whether an end point was reached; then the list is
  freed, but the pointer to it stays.
\<close>

definition report_end_point ::
  "data_msg \<Rightarrow> ('g, 'z) plugin_state_scheme \<Rightarrow> (data_msg \<times> ('g, 'z) plugin_state_scheme) option" where
  "report_end_point msg s = do {
     r \<leftarrow> end_point s;
     n \<leftarrow> end_point_heap s r;
     h \<leftarrow> free_chain ep_next (end_point s) (end_point_heap s);
     Some (msg\<lparr>dm_end_point := (if trignum (ep_location n) = 4 then 1 else 0)\<rparr>, s\<lparr>end_point_heap := h\<rparr>)
   }"

text \<open>The last part: the message is packed and written, and all data is released.\<close>

definition release_all ::
  "('g, 'z) plugin_state_scheme \<Rightarrow> ('g, 'z) plugin_state_scheme option" where
  "release_all s = do {
     s \<leftarrow> free_memmap_info s;
     s \<leftarrow> tb_info_free s;
     s \<leftarrow> tb_exec_order_free s;
     s \<leftarrow> mem_info_free s;
     s \<leftarrow> delete_memory_dump s;
     tb_faulted_free s
   }"

definition send_message ::
  "'g env \<Rightarrow> 'g io \<Rightarrow> data_msg \<Rightarrow> ('g, 'z) plugin_state_scheme \<Rightarrow>
   ('g, 'z) plugin_state_scheme outcome option" where
  "send_message e io msg s =
     (case malloc e s of
        (None, s) \<Rightarrow> Some (Inl (1, s))
      | (Some _, s) \<Rightarrow> do {
          (status, s) \<leftarrow> plugin_write_to_data_pipe io (io_pack_data io msg) s;
          if status \<noteq> 0 then Some (Inl (1, s))
          else do {
            s \<leftarrow> release_all s;
            register_info \<leftarrow> dm_register_info msg;
            Some (Inr s)
          }
        })"

text \<open>The readout of all regions, where the process may end inside as well.\<close>

definition dump_regions ::
  "'g env \<Rightarrow> data_msg \<Rightarrow> ('g, 'z) plugin_state_scheme \<Rightarrow>
   (data_msg \<Rightarrow> ('g, 'z) plugin_state_scheme \<Rightarrow> ('g, 'z) plugin_state_scheme outcome option) \<Rightarrow>
   ('g, 'z) plugin_state_scheme outcome option" where
  "dump_regions e msg s k =
     (if memory_module_configured s \<noteq> 0 then do {
        (r, s) \<leftarrow> readout_all_memorydump e msg s;
        (case r of
           Inl code \<Rightarrow> Some (Inl (code, s))
         | Inr (status, msg) \<Rightarrow> if status \<noteq> 0 then Some (Inl (1, s)) else k msg s)
      } else k msg s)"

definition plugin_end_information_dump ::
  "'g env \<Rightarrow> 'g io \<Rightarrow> string \<Rightarrow> ('g, 'z) plugin_state_scheme \<Rightarrow>
   ('g, 'z) plugin_state_scheme outcome option" where
  "plugin_end_information_dump e io end_reason s =
     (case malloc e s of
        (None, s) \<Rightarrow> Some (Inl (1, s))
      | (Some _, s) \<Rightarrow>
          (let msg = data_msg_init\<lparr>dm_architecture := architecture s\<rparr> in
           checked (if memmap_dump_enabled s \<noteq> 0 then plugin_dump_memmap_information e io msg s
                    else Some (0, msg, s)) (\<lambda>msg s. do {
             s \<leftarrow> dump_written_pages e io s;
             (msg, s) \<leftarrow> report_end_point msg s;
             let msg = msg\<lparr>dm_end_reason := end_reason\<rparr>;
             checked (if memory_module_configured s \<noteq> 0
                      then map_option (\<lambda>(c, s). (c, msg, s)) (read_all_memory e s)
                      else Some (0, msg, s)) (\<lambda>msg s.
             checked (map_option (\<lambda>(c, s). (c, msg, s))
                        (add_new_registerdump e (of_int (tb_counter s)) s)) (\<lambda>msg s.
             checked (plugin_dump_tb_information e msg s) (\<lambda>msg s.
             checked (if tb_exec_order_enabled s = 1 then plugin_dump_tb_exec_order e msg s
                      else Some (0, msg, s)) (\<lambda>msg s.
             checked (plugin_dump_mem_information e msg s) (\<lambda>msg s.
             dump_regions e msg s (\<lambda>msg s.
             checked (read_register_module e msg s) (\<lambda>msg s.
             checked (dump_tb_faulted_data e msg s) (\<lambda>msg s.
             send_message e io msg s))))))))
           })))"

definition plugin_end_information_dump_and_exit ::
  "'g env \<Rightarrow> 'g io \<Rightarrow> string \<Rightarrow> ('g, 'z) plugin_state_scheme \<Rightarrow>
   ('g, 'z) plugin_state_scheme outcome option" where
  "plugin_end_information_dump_and_exit e io end_reason s =
     map_option (\<lambda>r. case r of Inl x \<Rightarrow> Inl x | Inr s \<Rightarrow> Inl (0, s))
       (plugin_end_information_dump e io end_reason s)"

section \<open>The callbacks of start and end\<close>

definition tb_exec_end_max_event ::
  "'g env \<Rightarrow> 'g io \<Rightarrow> u64 \<Rightarrow> ('g, 'z) plugin_state_scheme \<Rightarrow> ('g, 'z) plugin_state_scheme outcome option"
where
  "tb_exec_end_max_event e io ins_count s =
     (if trignum (start_point s) \<noteq> 3 then
        if tb_counter s \<ge> tb_counter_max s
        then plugin_end_information_dump_and_exit e io ''max tb'' s
        else Some (Inr (s\<lparr>tb_counter := u64_to_int (of_int (tb_counter s) + ins_count)\<rparr>))
      else Some (Inr s))"

text \<open>\<^verbatim>\<open>%PRIu64\<close>\<close>

fun decimal :: "nat \<Rightarrow> string" where
  "decimal n = (if n < 10 then [''0123456789'' ! n] else decimal (n div 10) @ [''0123456789'' ! (n mod 10)])"

declare decimal.simps [simp del]

text \<open>The name \<^verbatim>\<open>end_point\<close> is here the node that was given to the callback.\<close>

definition tb_exec_end_cb ::
  "'g env \<Rightarrow> 'g io \<Rightarrow> ref \<Rightarrow> ('g, 'z) plugin_state_scheme \<Rightarrow> ('g, 'z) plugin_state_scheme outcome option"
where
  "tb_exec_end_cb e io cur s =
     (if trignum (start_point s) \<noteq> 3 then do {
        n \<leftarrow> end_point_heap s cur;
        if hitcounter (ep_location n) = 1 then
          (let s = s\<lparr>end_point_heap := (end_point_heap s)
                      (cur \<mapsto> n\<lparr>ep_location := (ep_location n)\<lparr>trignum := 4\<rparr>\<rparr>)\<rparr>
           in plugin_end_information_dump_and_exit e io
                (''endpoint '' @ decimal (unat (trig_address (ep_location n))) @ ''/'' @
                 decimal (unat (hitcounter (ep_location n)))) s)
        else Some (Inr (s\<lparr>end_point_heap := (end_point_heap s)
                (cur \<mapsto> n\<lparr>ep_location := (ep_location n)\<lparr>hitcounter := hitcounter (ep_location n) - 1\<rparr>\<rparr>)\<rparr>))
      } else Some (Inr s))"

definition tb_exec_start_cb ::
  "'g env \<Rightarrow> ('g, 'z) plugin_state_scheme \<Rightarrow> ('g, 'z) plugin_state_scheme" where
  "tb_exec_start_cb e s =
     (let s = (if hitcounter (start_point s) = 1
               then flush_guest e (s\<lparr>start_point := (start_point s)\<lparr>trignum := 0\<rparr>\<rparr>) else s)
      in s\<lparr>start_point := (start_point s)\<lparr>hitcounter := hitcounter (start_point s) - 1\<rparr>\<rparr>)"

end
