(* ===== verification/Install.thy ===== *)
theory Install
  imports EndDump
begin

text \<open>
  The start of the plugin in \<^verbatim>\<open>faultplugin/faultplugin.c\<close>: \<^verbatim>\<open>initialise_plugin\<close>,
  \<^verbatim>\<open>qemu_plugin_install\<close> and the handler of the abort signal.
\<close>

section \<open>Signals\<close>

definition SA_SIGINFO :: u32 where "SA_SIGINFO = 4"

text \<open>How the handler that was installed before is called.\<close>

datatype old_call = No_call | Call_handler nat | Call_sigaction nat

text \<open>
  \<^verbatim>\<open>sa_flags & SA_SIGINFO == SA_SIGINFO\<close> is \<^verbatim>\<open>sa_flags & (SA_SIGINFO == SA_SIGINFO)\<close> in C.
\<close>

definition old_abort_call :: "sig_action \<Rightarrow> old_call" where
  "old_abort_call a =
     (case sa_handler a of
        Handler h \<Rightarrow>
          if sa_flags a AND of_bool (SA_SIGINFO = SA_SIGINFO) \<noteq> 0 then Call_sigaction h else Call_handler h
      | _ \<Rightarrow> No_call)"

definition handle_abort ::
  "'g env \<Rightarrow> 'g io \<Rightarrow> ('g, 'z) plugin_state_scheme \<Rightarrow>
   (old_call \<times> ('g, 'z) plugin_state_scheme) outcome option" where
  "handle_abort e io s =
     map_option (\<lambda>r. case r of
         Inl (c, s) \<Rightarrow> Inl (c, No_call, s)
       | Inr s \<Rightarrow> Inr (old_abort_call (old_abort_action s), s))
       (plugin_end_information_dump e io ''QEMU aborted'' s)"

definition initialise_signal_handlers ::
  "'g io \<Rightarrow> ('g, 'z) plugin_state_scheme \<Rightarrow> int \<times> ('g, 'z) plugin_state_scheme" where
  "initialise_signal_handlers io s =
     (case io_sigaction io (guest s) of
        (ret, old, g) \<Rightarrow>
          if ret < 0 then (-1, s\<lparr>guest := g\<rparr>) else (0, s\<lparr>guest := g, old_abort_action := old\<rparr>))"

section \<open>Initialisation\<close>

text \<open>
  The variables set before anything can fail.  The address and the hit counter of the first end
  point are what \<^verbatim>\<open>malloc\<close> left there.
\<close>

definition init_variables ::
  "'g env \<Rightarrow> ('g, 'z) plugin_state_scheme \<Rightarrow> ('g, 'z) plugin_state_scheme option" where
  "init_variables e s =
     (let s = (init_fault_list (s\<lparr>pipes := None\<rparr>))
                \<lparr>fault_number := 0, fault_trigger_addresses := None, live_faults := None,
                 mem_info_list := None, live_faults_number := 0, first_tb := 0, tb_counter := 0,
                 tb_counter_max := 1000,
                 start_point := \<lparr>trig_address = 0, hitcounter = 0, trignum = 0\<rparr>\<rparr>
      in case malloc e s of
           (None, s) \<Rightarrow> None
         | (Some r, s) \<Rightarrow>
             (let s = s\<lparr>end_point := Some r, end_point_heap := (end_point_heap s)(r \<mapsto>
                       \<lparr>ep_location = \<lparr>trig_address = malloc_junk e r 0, hitcounter = malloc_junk e r 1,
                                      trignum = 0\<rparr>, ep_next = None\<rparr>)\<rparr>
              in Some ((tb_info_init s)\<lparr>mem_info_list_enabled := 1, tb_info_enabled := 1,
                         tb_exec_order_enabled := 1, tb_exec_order_ring_buffer := 0\<rparr>)))"

definition initialise_plugin ::
  "'g env \<Rightarrow> 'g io \<Rightarrow> string list \<Rightarrow> int \<Rightarrow> ('g, 'z) plugin_state_scheme \<Rightarrow>
   (int \<times> ('g, 'z) plugin_state_scheme) option" where
  "initialise_plugin e io argv architecture_id s = do {
     s \<leftarrow> init_variables e s;
     (case malloc e s of
        (None, s) \<Rightarrow> Some (-1, s)
      | (Some _, s) \<Rightarrow> do {
          (status, s) \<leftarrow>
            parse_args io argv (s\<lparr>pipes := Some \<lparr>fifo_control = -1, fifo_config = -1, fifo_data = -1\<rparr>\<rparr>);
          if status \<noteq> 0 then Some (-1, s)
          else Some (0, init_singlestep_req (init_register_module architecture_id (init_memory_module s)))
        })
   }"

definition architecture_of :: "string \<Rightarrow> int" where
  "architecture_of name =
     (if name = ''aarch64'' then ARM64
      else if name = ''arm'' then ARM
      else if name = ''riscv32'' \<or> name = ''riscv64'' then RISCV
      else -1)"

text \<open>The code at the label \<^verbatim>\<open>ABORT\<close>.  The destroyed tree is recorded as gone.\<close>

definition abort_install ::
  "('g, 'z) plugin_state_scheme \<Rightarrow> (int \<times> ('g, 'z) plugin_state_scheme) option" where
  "abort_install s = do {
     let s = (if mem_avl_root s \<noteq> None then s\<lparr>mem_avl_root := None\<rparr> else s);
     s \<leftarrow> tb_info_free s;
     s \<leftarrow> delete_fault_queue (delete_fault_trigger_addresses s);
     s \<leftarrow> tb_faulted_free s;
     s \<leftarrow> tb_exec_order_free s;
     Some (-1, s)
   }"

definition qemu_plugin_install ::
  "'g env \<Rightarrow> 'g io \<Rightarrow> string \<Rightarrow> string list \<Rightarrow> ('g, 'z) plugin_state_scheme \<Rightarrow>
   (int \<times> ('g, 'z) plugin_state_scheme) option" where
  "qemu_plugin_install e io target_name argv s = do {
     let s = s\<lparr>architecture := target_name\<rparr>;
     let valid_architecture = architecture_of target_name;
     if valid_architecture = -1 then Some (-1, s)
     else do {
       (status, s) \<leftarrow> initialise_plugin e io argv valid_architecture s;
       if status = -1 then abort_install s
       else do {
         (status, s) \<leftarrow> readout_control_qemu e io s;
         if status < 0 then abort_install s
         else do {
           s \<leftarrow> tb_faulted_init e (fault_number s) s;
           (status, s) \<leftarrow> register_fault_trigger_addresses e s;
           if status < 0 then abort_install s
           else
             (case tb_info_avl_init e (s\<lparr>tb_trans_registered := True\<rparr>) of
                (status, s) \<Rightarrow>
                  if status = -1 then abort_install s
                  else
                    (case mem_avl_init e s of
                       (created, s) \<Rightarrow>
                         if \<not> created then abort_install s
                         else
                           (case initialise_signal_handlers io s of
                              (status, s) \<Rightarrow>
                                if status < 0 then abort_install s
                                else
                                  (case tb_exec_order_init e s of
                                     (status, s) \<Rightarrow>
                                       if status \<noteq> 0 then Some (-1, s) else Some (0, s)))))
         }
       }
     }
   }"

end
