(* ===== verification/Engine.thy ===== *)
theory Engine
  imports Install
begin

text \<open>
  What keeps the injection engine - the triggers, the live faults and the recording around them -
  memory safe: an invariant of its state, and that injection, reversal and the callbacks that lead
  to them run without undefined behaviour and keep it.
\<close>

section \<open>The environment\<close>

text \<open>A read fills the whole buffer, whether or not it succeeds.\<close>

definition mem_sane :: "'g env \<Rightarrow> bool" where
  "mem_sane e \<longleftrightarrow> (\<forall>a n g. length (fst (snd (read_mem e a n g))) = n)"

lemma mem_saneD: "mem_sane e \<Longrightarrow> read_mem e a n g = (ret, bs, g') \<Longrightarrow> length bs = n"
  unfolding mem_sane_def by (metis fst_conv snd_conv)

lemma flat_mem_sane: "mem_sane flat_env"
  by (simp add: mem_sane_def flat_env_def)

section \<open>The invariant\<close>

definition fault_ok :: "nat \<Rightarrow> fault \<Rightarrow> bool" where
  "fault_ok n f \<longleftrightarrow>
     length (f_mask f) = 16 \<and> length (f_restoremask f) = 16 \<and> f_address f \<noteq> trigger_done \<and>
     unat (trignum (f_trigger f)) < n"

definition records_ok :: "('g, 'z) trigger_state_scheme \<Rightarrow> bool" where
  "records_ok s \<longleftrightarrow>
     memdump_ok s \<and> (\<exists>ms. register_log s ms) \<and> known_arch (arch s) \<and> faulted_ok s"

text \<open>
  The faults \<open>rs\<close> are well-formed, and both vectors have a place for each of them.
\<close>

definition vectors_ok :: "ref list \<Rightarrow> ('g, 'z) trigger_state_scheme \<Rightarrow> bool" where
  "vectors_ok rs s \<longleftrightarrow>
     (\<exists>v. fault_trigger_addresses s = Some v \<and> length v = length rs) \<and>
     (\<exists>l. live_faults s = Some l \<and> length l = length rs \<and> (\<forall>r. Some r \<in> set l \<longrightarrow> r \<in> set rs)) \<and>
     fault_number s = int (length rs) \<and> length rs < 2 ^ 31 \<and>
     0 \<le> live_faults_number s \<and> live_faults_number s \<le> int (length rs)"

definition faults_ok :: "ref list \<Rightarrow> ('g, 'z) trigger_state_scheme \<Rightarrow> bool" where
  "faults_ok rs s \<longleftrightarrow>
     fault_refs s rs \<and> (\<forall>r \<in> set rs. \<exists>f. get_fault r s = Some f \<and> fault_ok (length rs) f)"

definition engine_ok :: "ref list \<Rightarrow> ('g, 'z) trigger_state_scheme \<Rightarrow> bool" where
  "engine_ok rs s \<longleftrightarrow> records_ok s \<and> faults_ok rs s \<and> vectors_ok rs s"

text \<open>How often each fault is still to be hit.\<close>

definition hits :: "('g, 'z) trigger_state_scheme \<Rightarrow> ref \<Rightarrow> u64" where
  "hits s r = hitcounter (f_trigger (the (get_fault r s)))"

section \<open>Frame\<close>

text \<open>What lies outside the engine, except the callbacks.\<close>

definition engine_only :: "('g, 'z) trigger_state_scheme \<Rightarrow> ('g, 'z) trigger_state_scheme \<Rightarrow> bool" where
  "engine_only s s' \<longleftrightarrow>
     mallocs s \<le> mallocs s' \<and>
     tb_info_list s' = tb_info_list s \<and> tb_info_heap s' = tb_info_heap s \<and> tb_avl_root s' = tb_avl_root s \<and>
     tb_exec_order_ring_buffer s' = tb_exec_order_ring_buffer s \<and>
     tb_exec_order_list s' = tb_exec_order_list s \<and> tb_exec_heap s' = tb_exec_heap s \<and>
     num_exec_order s' = num_exec_order s \<and> tb_exec_rb_list s' = tb_exec_rb_list s \<and>
     tb_exec_rb_list_index s' = tb_exec_rb_list_index s \<and>
     trigger_state.more s' = trigger_state.more s"

lemma engine_only_refl [simp]: "engine_only s s"
  by (simp add: engine_only_def)

lemma engine_only_trans: "engine_only s t \<Longrightarrow> engine_only t u \<Longrightarrow> engine_only s u"
  by (simp add: engine_only_def)

text \<open>A step of the engine that injects nothing.\<close>

definition engine_step ::
  "ref list \<Rightarrow> ('g, 'z) trigger_state_scheme \<Rightarrow> ('g, 'z) trigger_state_scheme \<Rightarrow> bool" where
  "engine_step rs s s' \<longleftrightarrow>
     engine_ok rs s' \<and> engine_only s s' \<and> cbs s' = cbs s \<and>
     live_faults_number s' = live_faults_number s \<and> hits s' = hits s"

lemma engine_step_trans: "engine_step rs s t \<Longrightarrow> engine_step rs t u \<Longrightarrow> engine_step rs s u"
  using engine_only_trans by (auto simp: engine_step_def)

lemma engine_step_ok: "engine_step rs s s' \<Longrightarrow> engine_ok rs s'"
  by (simp add: engine_step_def)

section \<open>What the invariant depends on\<close>

lemma faulted_ok_cong:
  "faulted_ok s \<Longrightarrow> mallocs s \<le> mallocs s' \<Longrightarrow> tb_faulted_list s' = tb_faulted_list s \<Longrightarrow>
   tb_faulted_heap s' = tb_faulted_heap s \<Longrightarrow> active_triggers s' = active_triggers s \<Longrightarrow>
   max_triggers s' = max_triggers s \<Longrightarrow> current_triggers s' = current_triggers s \<Longrightarrow> faulted_ok s'"
  unfolding faulted_ok_def faulted_refs_def faulted_addresses_def by (auto elim: below_mono)

lemma records_ok_cong:
  assumes "records_ok s" "mallocs s \<le> mallocs s'"
    and "memdump s' = memdump s" "num_memdump s' = num_memdump s" "used_memdump s' = used_memdump s"
    and "first_registerdump s' = first_registerdump s" "register_heap s' = register_heap s" "arch s' = arch s"
    and "tb_faulted_list s' = tb_faulted_list s" "tb_faulted_heap s' = tb_faulted_heap s"
    and "active_triggers s' = active_triggers s" "max_triggers s' = max_triggers s"
    and "current_triggers s' = current_triggers s"
  shows "records_ok s'"
proof -
  obtain ms where ms: "register_log s ms" using assms(1) by (auto simp: records_ok_def)
  have "memdump_ok s'" using assms(1) memdump_ok_same [OF assms(3-5)] by (simp add: records_ok_def)
  moreover have "register_log s' ms" by (rule register_log_cong [OF ms assms(7,8,6,2)])
  moreover have "faulted_ok s'"
    by (rule faulted_ok_cong [OF _ assms(2,9-13)]) (use assms(1) in \<open>simp add: records_ok_def\<close>)
  moreover have "known_arch (arch s')" using assms(1,8) by (simp add: records_ok_def)
  ultimately show ?thesis unfolding records_ok_def by blast
qed

lemma faults_ok_cong:
  "faults_ok rs s \<Longrightarrow> mallocs s \<le> mallocs s' \<Longrightarrow> first_fault s' = first_fault s \<Longrightarrow>
   fault_heap s' = fault_heap s \<Longrightarrow> faults_ok rs s'"
  unfolding faults_ok_def using fault_refs_same [of s rs s'] by (simp add: get_fault_def)

lemma vectors_ok_cong:
  "vectors_ok rs s \<Longrightarrow> fault_trigger_addresses s' = fault_trigger_addresses s \<Longrightarrow>
   live_faults s' = live_faults s \<Longrightarrow> fault_number s' = fault_number s \<Longrightarrow>
   live_faults_number s' = live_faults_number s \<Longrightarrow> vectors_ok rs s'"
  by (simp add: vectors_ok_def)

lemma hits_cong: "fault_heap s' = fault_heap s \<Longrightarrow> hits s' = hits s"
  by (simp add: hits_def get_fault_def fun_eq_iff)

lemma engine_stepI:
  assumes "engine_ok rs s" "records_ok s'" "engine_only s s'" "cbs s' = cbs s"
    and "first_fault s' = first_fault s" "fault_heap s' = fault_heap s"
    and "fault_trigger_addresses s' = fault_trigger_addresses s" "live_faults s' = live_faults s"
    and "fault_number s' = fault_number s" "live_faults_number s' = live_faults_number s"
  shows "engine_step rs s s'"
proof -
  have "mallocs s \<le> mallocs s'" using assms(3) by (simp add: engine_only_def)
  then have "faults_ok rs s'"
    using assms(1) faults_ok_cong [OF _ _ assms(5,6)] by (simp add: engine_ok_def)
  moreover have "vectors_ok rs s'"
    using assms(1) vectors_ok_cong [OF _ assms(7-10)] by (simp add: engine_ok_def)
  ultimately show ?thesis
    using assms(2-4,10) hits_cong [OF assms(6)] by (simp add: engine_step_def engine_ok_def)
qed

text \<open>Only the guest or the counter of requests changed.\<close>

lemma engine_step_guest:
  assumes "engine_ok rs s"
  shows "engine_step rs s (s\<lparr>guest := g, req_singlestep := q\<rparr>)" (is "engine_step rs s ?t")
proof (rule engine_stepI [OF assms])
  show "records_ok ?t"
    by (rule records_ok_cong [of s]) (use assms in \<open>simp_all add: engine_ok_def\<close>)
qed (simp_all add: engine_only_def)

lemma engine_step_refl: "engine_ok rs s \<Longrightarrow> engine_step rs s s"
  by (simp add: engine_step_def)

lemma engine_step_singlestep:
  assumes "engine_ok rs s"
  shows "engine_step rs s (add_singlestep_req e s)" "engine_step rs s (rem_singlestep_req e s)"
proof -
  obtain g where g: "add_singlestep_req e s = s\<lparr>guest := g, req_singlestep := req_singlestep s + 1\<rparr>"
    by (rule add_singlestep_req_update)
  show "engine_step rs s (add_singlestep_req e s)"
    unfolding g by (rule engine_step_guest [OF assms])
  obtain g where g: "rem_singlestep_req e s =
      s\<lparr>guest := g, req_singlestep := (if req_singlestep s = 0 then 0 else req_singlestep s - 1)\<rparr>"
    by (rule rem_singlestep_req_update)
  show "engine_step rs s (rem_singlestep_req e s)"
    unfolding g by (rule engine_step_guest [OF assms])
qed

lemma engine_step_flush: "engine_ok rs s \<Longrightarrow> engine_step rs s (flush_guest e s)"
  using engine_step_guest [of rs s "req_singlestep s" "flush_tb e (guest s)"] by (simp add: flush_guest_def)

text \<open>A fault of the list is replaced by a well-formed one.\<close>

lemma put_fault_ok:
  assumes "engine_ok rs s" "r \<in> set rs" "fault_ok (length rs) f"
  shows "\<exists>s'. put_fault r f s = Some s' \<and> engine_ok rs s' \<and> engine_only s s' \<and> cbs s' = cbs s \<and>
    live_faults_number s' = live_faults_number s \<and> get_fault r s' = Some f \<and>
    hits s' = (hits s)(r := hitcounter (f_trigger f)) \<and> guest s' = guest s"
proof -
  obtain k where "get_fault r s = Some k"
    using assms(1,2) by (auto simp: engine_ok_def faults_ok_def)
  then obtain n where n: "fault_heap s r = Some n" by (auto simp: get_fault_def)
  let ?s' = "s\<lparr>fault_heap := (fault_heap s)(r \<mapsto> n\<lparr>fn_fault := f\<rparr>)\<rparr>"
  have put: "put_fault r f s = Some ?s'" using n by (simp add: put_fault_def)
  have get: "get_fault q ?s' = (if q = r then Some f else get_fault q s)" for q
    by (simp add: get_fault_def)
  have ok: "records_ok s" "faults_ok rs s" "vectors_ok rs s" using assms(1) by (simp_all add: engine_ok_def)
  have "faults_ok rs ?s'"
    using ok(2) assms(3) put_fault_refs [OF put] by (auto simp: faults_ok_def get)
  moreover have "records_ok ?s'" by (rule records_ok_cong [OF ok(1)]) simp_all
  moreover have "vectors_ok rs ?s'" by (rule vectors_ok_cong [OF ok(3)]) simp_all
  moreover have "hits ?s' = (hits s)(r := hitcounter (f_trigger f))"
    by (simp add: hits_def get fun_eq_iff)
  ultimately show ?thesis using put get by (simp add: engine_ok_def engine_only_def)
qed

lemma engine_get:
  assumes "engine_ok rs s" "r \<in> set rs"
  obtains f where "get_fault r s = Some f" "fault_ok (length rs) f" "hits s r = hitcounter (f_trigger f)"
  using assms that by (auto simp: engine_ok_def faults_ok_def hits_def)


section \<open>Memory dumps\<close>

text \<open>The fields that taking a snapshot may change.\<close>

definition snapshot_only ::
  "('g, 'z) memdump_state_scheme \<Rightarrow> ('g, 'z) memdump_state_scheme \<Rightarrow> bool" where
  "snapshot_only s s' \<longleftrightarrow>
     (\<exists>g k v. mallocs s \<le> k \<and> s' = s\<lparr>guest := g, mallocs := k, memdump := v\<rparr>) \<and> memdump_ok s'"

lemma snapshot_only_refl: "memdump_ok s \<Longrightarrow> snapshot_only s s"
proof -
  have "s = s\<lparr>guest := guest s, mallocs := mallocs s, memdump := memdump s\<rparr>" by simp
  then show "memdump_ok s \<Longrightarrow> snapshot_only s s" unfolding snapshot_only_def by blast
qed

lemma snapshot_only_trans:
  assumes "snapshot_only s t" "snapshot_only t u"
  shows "snapshot_only s u"
proof -
  obtain g k v where t: "mallocs s \<le> k" "t = s\<lparr>guest := g, mallocs := k, memdump := v\<rparr>"
    using assms(1) by (auto simp: snapshot_only_def)
  obtain g' k' v' where u: "mallocs t \<le> k'" "u = t\<lparr>guest := g', mallocs := k', memdump := v'\<rparr>" "memdump_ok u"
    using assms(2) by (auto simp: snapshot_only_def)
  have "u = s\<lparr>guest := g', mallocs := k', memdump := v'\<rparr>" "mallocs s \<le> k'" using t u by simp_all
  with u(3) show ?thesis unfolding snapshot_only_def by blast
qed

lemma snapshot_only_used: "snapshot_only s s' \<Longrightarrow> used_memdump s' = used_memdump s"
  by (auto simp: snapshot_only_def)

lemma read_memoryregion_total:
  assumes "plenty e" "mem_sane e" "memdump_ok s" "i < used_memdump s"
  shows "\<exists>c s'. read_memoryregion e i s = Some (c, s') \<and> snapshot_only s s'"
proof -
  obtain v m where v: "memdump s = Some v" "i < length v" "v ! i = Some m" "region_ok m"
    using memdump_ok_get [OF assms(3,4)] by blast
  obtain t m' b where t: "(if md_num_dumps m = md_used_dumps m then grow_region e m s else Some (0, m, s)) =
             Some (0, m', t)"
    "memdump_only s t" "memdump t = memdump s" "num_memdump t = num_memdump s"
    "used_memdump t = used_memdump s" "region_ok m'" "md_buf m' = Some b" "md_used_dumps m' < length b"
    using region_ok_grow [OF assms(1) v(4)] by blast
  obtain ret bs g where r: "read_mem e (md_address m') (unat (md_len m')) (guest t) = (ret, bs, g)"
    by (metis prod_cases3)
  let ?m' = "m'\<lparr>md_buf := Some (b[md_used_dumps m' := bs]), md_used_dumps := Suc (md_used_dumps m')\<rparr>"
  let ?u = "t\<lparr>memdump := Some (v[i := Some ?m'])\<rparr>"
  have "region_ok ?m'"
    using region_log_snapshot(1) [OF t(6-8) mem_saneD [OF assms(2) r]] .
  moreover have "memdump_ok t" using assms(3) memdump_ok_same [OF t(3-5)] by simp
  ultimately have ok: "memdump_ok ?u"
    using memdump_ok_write(1) [of t v i ?m'] v(1) t(3,5) assms(4) by simp
  let ?s' = "t\<lparr>guest := g, memdump := Some (v[i := Some ?m'])\<rparr>"
  have run: "read_memoryregion e i s = Some (ret, ?s')"
    using v(1-3) t(1,7,8) r by (simp add: read_memoryregion_def)
  obtain k where k: "mallocs s \<le> k" "t = s\<lparr>mallocs := k\<rparr>"
  proof -
    obtain k w n u where k: "mallocs s \<le> k"
      "t = s\<lparr>mallocs := k, memdump := w, num_memdump := n, used_memdump := u\<rparr>"
      using t(2) by (auto simp: memdump_only_def)
    have "t = s\<lparr>mallocs := k\<rparr>" using k(2) t(3-5) by simp
    with k(1) that show ?thesis by blast
  qed
  have "memdump_ok ?s'" using ok memdump_ok_same [of ?s' ?u] by simp
  moreover have "?s' = s\<lparr>guest := g, mallocs := k, memdump := Some (v[i := Some ?m'])\<rparr>"
    using k(2) by simp
  ultimately have "snapshot_only s ?s'" using k(1) unfolding snapshot_only_def by blast
  with run show ?thesis by blast
qed

lemma read_specific_total:
  assumes "plenty e" "mem_sane e"
  shows "memdump_ok s \<Longrightarrow> set is \<subseteq> {..<used_memdump s} \<Longrightarrow>
    \<exists>s'. read_specific_from e base is s = Some s' \<and> snapshot_only s s'"
proof (induction "is" arbitrary: s)
  case Nil
  then show ?case by (simp add: snapshot_only_refl)
next
  case (Cons i "is")
  then have i: "i < used_memdump s" by simp
  obtain v m where v: "memdump s = Some v" "i < length v" "v ! i = Some m"
    using memdump_ok_get [OF Cons.prems(1) i] by blast
  show ?case
  proof (cases "md_address m = base")
    case True
    obtain c t where t: "read_memoryregion e i s = Some (c, t)" "snapshot_only s t"
      using read_memoryregion_total [OF assms Cons.prems(1) i] by blast
    have "memdump_ok t" using t(2) by (simp add: snapshot_only_def)
    then obtain u where "read_specific_from e base is t = Some u" "snapshot_only t u"
      using Cons.IH [of t] Cons.prems(2) snapshot_only_used [OF t(2)] by auto
    then show ?thesis using t v True snapshot_only_trans [OF t(2)] by auto
  next
    case False
    then show ?thesis using Cons v by auto
  qed
qed

lemma engine_step_snapshot:
  assumes "engine_ok rs s" "snapshot_only s s'"
  shows "engine_step rs s s'"
proof -
  obtain g k v where s': "mallocs s \<le> k" "s' = s\<lparr>guest := g, mallocs := k, memdump := v\<rparr>" "memdump_ok s'"
    using assms(2) by (auto simp: snapshot_only_def)
  have r: "records_ok s" using assms by (simp add: engine_ok_def)
  obtain ms where ms: "register_log s ms" using r by (auto simp: records_ok_def)
  have "register_log s' ms" by (rule register_log_cong [OF ms]) (use s' in simp_all)
  moreover have "faulted_ok s'"
    by (rule faulted_ok_cong [of s]) (use s' r in \<open>simp_all add: records_ok_def\<close>)
  ultimately have "records_ok s'" using s' r by (auto simp: records_ok_def)
  then show ?thesis by (rule engine_stepI [OF assms(1)]) (use s' in \<open>simp_all add: engine_only_def\<close>)
qed

lemma read_specific_memoryregion_step:
  assumes "plenty e" "mem_sane e" "engine_ok rs s"
  shows "\<exists>s'. read_specific_memoryregion e a s = Some s' \<and> engine_step rs s s'"
proof -
  have "memdump_ok s" using assms(3) by (simp add: engine_ok_def records_ok_def)
  then obtain s' where "read_specific_memoryregion e a s = Some s'" "snapshot_only s s'"
    using read_specific_total [OF assms(1,2), of s "[0..<used_memdump s]" a]
    by (auto simp: read_specific_memoryregion_def lessThan_atLeast0)
  with engine_step_snapshot [OF assms(3)] show ?thesis by blast
qed

lemma insert_memorydump_config_step:
  assumes "plenty e" "engine_ok rs s"
  shows "\<exists>s'. insert_memorydump_config e a 16 s = Some (1, s') \<and> engine_step rs s s'"
proof -
  have r: "records_ok s" using assms(2) by (simp add: engine_ok_def)
  then have "memdump_ok s" by (simp add: records_ok_def)
  then obtain s' where s': "insert_memorydump_config e a 16 s = Some (1, s')" "memdump_only s s'" "memdump_ok s'"
    using insert_memorydump_config_logs [OF assms(1), of s 16 a] by auto
  obtain k v n u where k: "mallocs s \<le> k"
    "s' = s\<lparr>mallocs := k, memdump := v, num_memdump := n, used_memdump := u\<rparr>"
    using s'(2) by (auto simp: memdump_only_def)
  obtain ms where ms: "register_log s ms" using r by (auto simp: records_ok_def)
  have "register_log s' ms" by (rule register_log_cong [OF ms]) (use k in simp_all)
  moreover have "faulted_ok s'"
    by (rule faulted_ok_cong [of s]) (use k r in \<open>simp_all add: records_ok_def\<close>)
  ultimately have "records_ok s'" using s'(3) k r by (auto simp: records_ok_def)
  then have "engine_step rs s s'"
    by (rule engine_stepI [OF assms(2)]) (use k in \<open>simp_all add: engine_only_def\<close>)
  with s'(1) show ?thesis by blast
qed


section \<open>Recording of faulted blocks and registers\<close>

lemma trigger_fields_of_more:
  assumes "tb_faulted_state.more s' = tb_faulted_state.more s"
  shows "fault_trigger_addresses s' = fault_trigger_addresses s" "live_faults s' = live_faults s"
    "fault_number s' = fault_number s" "live_faults_number s' = live_faults_number s"
    "trigger_state.more s' = trigger_state.more s"
  using assms by (cases s, cases s', simp)+

lemma faulted_only_step:
  assumes "engine_ok rs s" "faulted_only s s'" "faulted_ok s'"
  shows "engine_step rs s s'"
proof -
  have r: "records_ok s" using assms(1) by (simp add: engine_ok_def)
  then obtain ms where ms: "register_log s ms" by (auto simp: records_ok_def)
  have "register_log s' ms" by (rule register_log_cong [OF ms]) (use assms(2) in \<open>simp_all add: faulted_only_def\<close>)
  moreover have "memdump_ok s'"
    using memdump_ok_same [of s' s] assms(2) r by (simp add: faulted_only_def records_ok_def)
  moreover have "known_arch (arch s')" using assms(2) r by (simp add: faulted_only_def records_ok_def)
  ultimately have "records_ok s'" using assms(3) by (auto simp: records_ok_def)
  moreover have more: "tb_faulted_state.more s' = tb_faulted_state.more s"
    using assms(2) by (simp add: faulted_only_def)
  ultimately show ?thesis
    by (intro engine_stepI [OF assms(1)])
      (use assms(2) trigger_fields_of_more [OF more] in \<open>simp_all add: engine_only_def faulted_only_def\<close>)
qed

lemma tb_faulted_register_step:
  assumes "plenty e" "engine_ok rs s" "a \<noteq> trigger_done"
  shows "\<exists>s'. tb_faulted_register e a s = Some s' \<and> engine_step rs s s'"
proof -
  have "faulted_ok s" using assms(2) by (simp add: engine_ok_def records_ok_def)
  then obtain s' where "tb_faulted_register e a s = Some s'" "faulted_only s s'" "faulted_ok s'"
    using tb_faulted_register_ok [OF assms(1) _ assms(3)] by blast
  with faulted_only_step [OF assms(2)] show ?thesis by blast
qed

lemma check_tb_faulted_step:
  assumes "engine_ok rs s" "tb_insns tb \<noteq> []"
  shows "\<exists>s'. check_tb_faulted e tb s = Some s' \<and> engine_step rs s s'"
proof -
  have "faulted_ok s" using assms(1) by (simp add: engine_ok_def records_ok_def)
  then obtain s' where "check_tb_faulted e tb s = Some s'" "faulted_only s s'" "faulted_ok s'"
    using check_tb_faulted_ok [OF _ assms(2)] by blast
  with faulted_only_step [OF assms(1)] show ?thesis by blast
qed

lemma add_new_registerdump_step:
  assumes "plenty e" "engine_ok rs s"
  shows "\<exists>s'. add_new_registerdump e k s = Some (0, s') \<and> engine_step rs s s'"
proof -
  have r: "records_ok s" using assms(2) by (simp add: engine_ok_def)
  then obtain ms where ms: "register_log s ms" "known_arch (arch s)" by (auto simp: records_ok_def)
  obtain s' ms' where s': "add_new_registerdump e k s = Some (0, s')" "register_only s s'" "register_log s' ms'"
    using add_new_registerdump_log [OF assms(1) ms(2,1)] by blast
  obtain j p h where u: "mallocs s \<le> j" "s' = s\<lparr>mallocs := j, first_registerdump := p, register_heap := h\<rparr>"
    using s'(2) by (auto simp: register_only_def)
  have "memdump_ok s'" using memdump_ok_same [of s' s] u(2) r by (simp add: records_ok_def)
  moreover have "faulted_ok s'"
    by (rule faulted_ok_cong [of s]) (use u r in \<open>simp_all add: records_ok_def\<close>)
  ultimately have "records_ok s'" using s'(3) u(2) ms(2) by (auto simp: records_ok_def)
  then have "engine_step rs s s'"
    by (rule engine_stepI [OF assms(2)]) (use u in \<open>simp_all add: engine_only_def\<close>)
  with s'(1) show ?thesis by blast
qed

section \<open>Changes of memory and registers\<close>

lemma per_byte_total: "n \<le> length value \<Longrightarrow> n \<le> length fmask \<Longrightarrow> \<exists>bs. per_byte f n value fmask = Some bs \<and> length bs = n"
  by (simp add: per_byte_in)

lemma process_memory_total:
  assumes "mem_sane e" "length fmask = 16"
  shows "\<exists>rm g. process_set0_memory e a fmask s = Some (rm, s\<lparr>guest := g\<rparr>) \<and> length rm = 16"
    and "\<exists>rm g. process_set1_memory e a fmask s = Some (rm, s\<lparr>guest := g\<rparr>) \<and> length rm = 16"
    and "\<exists>rm g. process_toggle_memory e a fmask s = Some (rm, s\<lparr>guest := g\<rparr>) \<and> length rm = 16"
proof -
  obtain ret bs g where r: "read_mem e a 16 (guest s) = (ret, bs, g)" by (metis prod_cases3)
  have "length bs = 16" by (rule mem_saneD [OF assms(1) r])
  then have t: "\<exists>xs. per_byte f 16 bs fmask = Some xs \<and> length xs = 16" for f
    using assms(2) by (intro per_byte_total) simp_all
  show "\<exists>rm g. process_set0_memory e a fmask s = Some (rm, s\<lparr>guest := g\<rparr>) \<and> length rm = 16"
    using t [of "\<lambda>v m. v AND m"] t [of "\<lambda>v m. v AND NOT m"] by (auto simp: process_set0_memory_def r)
  show "\<exists>rm g. process_set1_memory e a fmask s = Some (rm, s\<lparr>guest := g\<rparr>) \<and> length rm = 16"
    using t [of "\<lambda>v m. v AND m"] t [of "\<lambda>v m. v OR m"] by (auto simp: process_set1_memory_def r)
  show "\<exists>rm g. process_toggle_memory e a fmask s = Some (rm, s\<lparr>guest := g\<rparr>) \<and> length rm = 16"
    using t [of "\<lambda>v m. v AND m"] t [of "\<lambda>v m. v XOR m"] by (auto simp: process_toggle_memory_def r)
qed

lemma process_overwrite_total:
  assumes "mem_sane e" "length fmask = 16"
  shows "\<exists>rm g. process_overwrite_memory e a k fmask s = Some (rm, s\<lparr>guest := g\<rparr>) \<and> length rm = 16"
proof -
  let ?n = "overwritten k"
  obtain ret bs g where r: "read_mem e a ?n (guest s) = (ret, bs, g)" by (metis prod_cases3)
  have n: "?n \<le> 16" by (rule overwritten_le)
  have "length bs = ?n" by (rule mem_saneD [OF assms(1) r])
  then have t: "\<exists>xs. per_byte f ?n bs fmask = Some xs \<and> length xs = ?n" for f
    using assms(2) n by (intro per_byte_total) simp_all
  show ?thesis
    using t [of "\<lambda>v m. v"] t [of "\<lambda>v m. m"] n
    by (auto simp: process_overwrite_memory_def r simp flip: overwritten_def)
qed

lemma process_reverse_total:
  assumes "mem_sane e" "length fmask = 16" "length rm = 16"
  shows "\<exists>g. process_reverse_fault e a fmask rm s = Some (s\<lparr>guest := g\<rparr>)"
proof -
  obtain ret bs g where r: "read_mem e a 16 (guest s) = (ret, bs, g)" by (metis prod_cases3)
  have "length bs = 16" by (rule mem_saneD [OF assms(1) r])
  then obtain xs where xs: "per_byte (\<lambda>v m. v AND NOT m) 16 bs fmask = Some xs" "length xs = 16"
    using per_byte_total [of 16 bs fmask] assms(2) by auto
  then obtain ys where "per_byte (\<lambda>v r. v OR r) 16 xs rm = Some ys"
    using per_byte_total [of 16 xs rm] assms(3) by auto
  with xs show ?thesis by (auto simp: process_reverse_fault_def r)
qed


lemma put_fault_step:
  assumes "engine_ok rs s" "r \<in> set rs" "fault_ok (length rs) f" "hitcounter (f_trigger f) = hits s r"
  shows "\<exists>s'. put_fault r f s = Some s' \<and> engine_step rs s s' \<and> get_fault r s' = Some f \<and> guest s' = guest s"
  using put_fault_ok [OF assms(1-3)] assms(4) by (auto simp: engine_step_def)

lemma inject_memory_fault_step:
  assumes "mem_sane e" "engine_ok rs s" "r \<in> set rs"
  shows "\<exists>s'. inject_memory_fault e r s = Some s' \<and> engine_step rs s s'"
proof -
  obtain f where f: "get_fault r s = Some f" "fault_ok (length rs) f" "hits s r = hitcounter (f_trigger f)"
    using assms(2,3) by (rule engine_get)
  have len: "length (f_mask f) = 16" "length (f_restoremask f) = 16" using f(2) by (simp_all add: fault_ok_def)
  have "\<exists>rm g. (if f_model f = SET0 then process_set0_memory e (f_address f) (f_mask f) s
        else if f_model f = SET1 then process_set1_memory e (f_address f) (f_mask f) s
        else if f_model f = TOGGLE then process_toggle_memory e (f_address f) (f_mask f) s
        else if f_model f = OVERWRITE
          then process_overwrite_memory e (f_address f) (f_num_bytes f) (f_mask f) s
        else Some (f_restoremask f, s)) = Some (rm, s\<lparr>guest := g\<rparr>) \<and> length rm = 16" (is "\<exists>rm g. ?p = _ \<and> _")
  proof -
    have "Some (f_restoremask f, s) = Some (f_restoremask f, s\<lparr>guest := guest s\<rparr>)" by simp
    then show ?thesis
      using process_memory_total [OF assms(1) len(1), of "f_address f" s]
        process_overwrite_total [OF assms(1) len(1), of "f_address f" "f_num_bytes f" s] len(2)
      by (simp only: split: if_split) blast
  qed
  then obtain rm g where p: "?p = Some (rm, s\<lparr>guest := g\<rparr>)" "length rm = 16" by blast
  let ?t = "s\<lparr>guest := g\<rparr>"
  have t: "engine_step rs s ?t" using engine_step_guest [OF assms(2), of "req_singlestep s" g] by simp
  have "hits ?t r = hitcounter (f_trigger f)" using t f(3) by (simp add: engine_step_def)
  then obtain s' where s': "put_fault r (f\<lparr>f_restoremask := rm\<rparr>) ?t = Some s'" "engine_step rs ?t s'"
    using put_fault_step [OF engine_step_ok [OF t] assms(3), of "f\<lparr>f_restoremask := rm\<rparr>"] f(2) p(2)
    by (auto simp: fault_ok_def)
  have "inject_memory_fault e r s = Some s'"
    unfolding inject_memory_fault_def f(1) using p(1) s'(1) by simp
  with engine_step_trans [OF t s'(2)] show ?thesis by blast
qed

lemma register_masks_total:
  "length fmask = 16 \<Longrightarrow> length rm = 16 \<Longrightarrow> set is \<subseteq> {..<16} \<Longrightarrow>
   \<exists>rm' m. register_masks e reg fmask is rm msk = Some (rm', m) \<and> length rm' = 16"
  by (induction "is" arbitrary: rm msk) auto

lemma overwrite_register_total:
  "length fmask = 16 \<Longrightarrow> length rm = 16 \<Longrightarrow> set is \<subseteq> {..<16} \<Longrightarrow>
   \<exists>rm' reg' m. overwrite_register e fmask is rm reg msk = Some (rm', reg', m) \<and> length rm' = 16"
  by (induction "is" arbitrary: rm reg msk) (auto simp: Let_def)

lemma inject_register_fault_step:
  assumes "engine_ok rs s" "r \<in> set rs"
  shows "\<exists>s'. inject_register_fault e r s = Some s' \<and> engine_step rs s s'"
proof -
  obtain f where f: "get_fault r s = Some f" "fault_ok (length rs) f" "hits s r = hitcounter (f_trigger f)"
    using assms by (rule engine_get)
  have len: "length (f_mask f) = 16" "length (f_restoremask f) = 16" using f(2) by (simp_all add: fault_ok_def)
  let ?reg = "read_reg e (f_address f) (guest s)"
  have eight: "set [0..<8] \<subseteq> {..<16 :: nat}" by auto
  obtain rm m where rm: "register_masks e ?reg (f_mask f) [0..<8] (f_restoremask f) 0 = Some (rm, m)" "length rm = 16"
    using register_masks_total [OF len eight, of e ?reg 0] by blast
  let ?f = "f\<lparr>f_restoremask := rm\<rparr>"
  let ?g = "if f_num_bytes ?f > 8 then ?f\<lparr>f_num_bytes := 8\<rparr> else ?f"
  have eight: "unat (f_num_bytes ?g) \<le> 8"
  proof (cases "f_num_bytes f > 8")
    case False
    then have "f_num_bytes f \<le> 8" by simp
    then have "unat (f_num_bytes f) \<le> unat (8 :: u8)" by (simp only: word_le_nat_alt)
    then show ?thesis using False by simp
  qed simp
  have sub: "set [0..<unat (f_num_bytes ?g)] \<subseteq> {..<16}" using eight by auto
  have glen: "length (f_restoremask ?g) = 16" using rm(2) by simp
  have flen: "length (f_mask ?f) = 16" using len(1) by simp
  obtain rm' reg' m' where ov: "overwrite_register e (f_mask ?f) [0..<unat (f_num_bytes ?g)] (f_restoremask ?g) ?reg 0 =
      Some (rm', reg', m')" "length rm' = 16"
    using overwrite_register_total [OF _ glen sub, of "f_mask ?f" e ?reg 0] flen by blast
  have "\<exists>k reg''. (if f_model ?f = SET0 then Some (?f, ?reg AND NOT m)
        else if f_model ?f = SET1 then Some (?f, ?reg OR m)
        else if f_model ?f = TOGGLE then Some (?f, ?reg XOR m)
        else if f_model ?f = OVERWRITE then do {
          let f = ?g;
          (restoremask, reg, msk) \<leftarrow>
            overwrite_register e (f_mask f) [0..<unat (f_num_bytes f)] (f_restoremask f) ?reg 0;
          Some (f\<lparr>f_restoremask := restoremask\<rparr>, reg)
        } else Some (?f, ?reg)) = Some (k, reg'') \<and> fault_ok (length rs) k \<and>
        hitcounter (f_trigger k) = hitcounter (f_trigger f) \<and> f_address k = f_address f"
  proof -
    have ok: "fault_ok (length rs) ?f" using f(2) rm(2) by (simp add: fault_ok_def)
    have ok': "fault_ok (length rs) (?g\<lparr>f_restoremask := rm'\<rparr>)" using f(2) ov(2) by (simp add: fault_ok_def)
    have "f_mask ?g = f_mask ?f" by simp
    then have "(let f = ?g in
          overwrite_register e (f_mask f) [0..<unat (f_num_bytes f)] (f_restoremask f) ?reg 0 \<bind>
          (\<lambda>(restoremask, reg, msk). Some (f\<lparr>f_restoremask := restoremask\<rparr>, reg))) =
        Some (?g\<lparr>f_restoremask := rm'\<rparr>, reg')"
      unfolding Let_def using ov(1) by (simp only: bind.bind_lunit prod.case)
    then show ?thesis using ok ok' by (simp only: split: if_split) auto
  qed
  then obtain k reg'' where k: "(if f_model ?f = SET0 then Some (?f, ?reg AND NOT m)
        else if f_model ?f = SET1 then Some (?f, ?reg OR m)
        else if f_model ?f = TOGGLE then Some (?f, ?reg XOR m)
        else if f_model ?f = OVERWRITE then do {
          let f = ?g;
          (restoremask, reg, msk) \<leftarrow>
            overwrite_register e (f_mask f) [0..<unat (f_num_bytes f)] (f_restoremask f) ?reg 0;
          Some (f\<lparr>f_restoremask := restoremask\<rparr>, reg)
        } else Some (?f, ?reg)) = Some (k, reg'')"
    "fault_ok (length rs) k" "hitcounter (f_trigger k) = hitcounter (f_trigger f)" by blast
  obtain t where t: "put_fault r k s = Some t" "engine_step rs s t"
    using put_fault_step [OF assms k(2)] k(3) f(3) by auto
  let ?s' = "t\<lparr>guest := write_reg e (f_address k) reg'' (guest t)\<rparr>"
  have "inject_register_fault e r s = Some ?s'"
    unfolding inject_register_fault_def f(1) bind.bind_lunit Let_def rm(1) prod.case
    using k(1) t(1) unfolding Let_def by (simp only: bind.bind_lunit prod.case)
  moreover have "engine_step rs t ?s'"
    using engine_step_guest [OF engine_step_ok [OF t(2)], of "req_singlestep t"] by simp
  ultimately show ?thesis using engine_step_trans [OF t(2)] by blast
qed

lemma reverse_register_fault_step:
  assumes "engine_ok rs s" "r \<in> set rs"
  shows "\<exists>s'. reverse_register_fault e r s = Some s' \<and> engine_step rs s s'"
proof -
  obtain f where f: "get_fault r s = Some f" "fault_ok (length rs) f" using assms by (rule engine_get)
  have "8 \<le> length (f_mask f)" "8 \<le> length (f_restoremask f)" using f(2) by (simp_all add: fault_ok_def)
  from restore_register_loop [OF this le_refl]
  obtain reg where "restore_register (f_mask f) (f_restoremask f) [0..<8] (read_reg e (f_address f) (guest s)) = Some reg"
    by blast
  then have "reverse_register_fault e r s = Some (s\<lparr>guest := write_reg e (f_address f) reg (guest s)\<rparr>)"
    by (simp add: reverse_register_fault_def f(1) del: upt_rec_numeral)
  moreover have "engine_step rs s (s\<lparr>guest := write_reg e (f_address f) reg (guest s)\<rparr>)"
    using engine_step_guest [OF assms(1), of "req_singlestep s"] by simp
  ultimately show ?thesis by blast
qed

end
