(* ===== verification/EngineRun.thy ===== *)
theory EngineRun
  imports Engine
begin

text \<open>
  Whole injections, reversals and the callbacks that lead to them: they run without undefined
  behaviour as long as a place is left in the vector of live faults, and each injection takes at most
  one.
\<close>

section \<open>The vectors\<close>

lemma engine_vectors:
  assumes "engine_ok rs s"
  obtains v l where "fault_trigger_addresses s = Some v" "length v = length rs"
    "live_faults s = Some l" "length l = length rs"
    "fault_number s = int (length rs)" "length rs < 2 ^ 31"
    "0 \<le> live_faults_number s" "live_faults_number s \<le> int (length rs)"
  using assms that by (auto simp: engine_ok_def vectors_ok_def)

lemma update_vectors_ok:
  assumes "engine_ok rs s" "length v = length rs" "length l = length rs" "\<And>r. Some r \<in> set l \<Longrightarrow> r \<in> set rs"
    and "0 \<le> k" "k \<le> int (length rs)"
  shows "engine_ok rs (s\<lparr>fault_trigger_addresses := Some v, live_faults := Some l, live_faults_number := k\<rparr>)"
    (is "engine_ok rs ?t")
proof -
  have ok: "records_ok s" "faults_ok rs s" "vectors_ok rs s" using assms(1) by (simp_all add: engine_ok_def)
  have "records_ok ?t" by (rule records_ok_cong [OF ok(1)]) simp_all
  moreover have "faults_ok rs ?t" by (rule faults_ok_cong [OF ok(2)]) simp_all
  moreover have "vectors_ok rs ?t" using ok(3) assms(2-6) by (auto simp: vectors_ok_def)
  ultimately show ?thesis by (simp add: engine_ok_def)
qed

lemma invalidate_step:
  assumes "engine_ok rs s" "unat k < length rs"
  shows "\<exists>s'. invalidate_fault_trigger_address (u64_to_int k) s = Some s' \<and> engine_step rs s s'"
proof -
  obtain v l where v: "fault_trigger_addresses s = Some v" "length v = length rs"
    "live_faults s = Some l" "length rs < 2 ^ 31"
    using assms(1) by (rule engine_vectors) blast
  have "u64_to_int k = int (unat k)"
    using u64_to_int_small [of "unat k"] assms(2) v(4) by simp
  moreover have "arr_set_int v (int (unat k)) 0 = Some (v[unat k := 0])"
    using v(2) assms(2) by (simp only: arr_int_in)
  ultimately have run: "invalidate_fault_trigger_address (u64_to_int k) s =
      Some (s\<lparr>fault_trigger_addresses := Some (v[unat k := 0])\<rparr>)"
    by (simp only: invalidate_fault_trigger_address_def v(1) bind.bind_lunit)
  let ?t = "s\<lparr>fault_trigger_addresses := Some (v[unat k := 0])\<rparr>"
  have ok: "records_ok s" "faults_ok rs s" "vectors_ok rs s" using assms(1) by (simp_all add: engine_ok_def)
  have "records_ok ?t" by (rule records_ok_cong [OF ok(1)]) simp_all
  moreover have "faults_ok rs ?t" by (rule faults_ok_cong [OF ok(2)]) simp_all
  moreover have "vectors_ok rs ?t" using ok(3) v(2) by (auto simp: vectors_ok_def)
  moreover have "hits ?t = hits s" by (rule hits_cong) simp
  ultimately have "engine_step rs s ?t" by (simp add: engine_step_def engine_ok_def engine_only_def)
  with run show ?thesis by blast
qed

lemma set_live_ok:
  assumes "engine_ok rs s" "live_faults s = Some l" "p = None \<or> (\<exists>r\<in>set rs. p = Some r)"
  shows "engine_step rs s (s\<lparr>live_faults := Some (l[i := p])\<rparr>)" (is "engine_step rs s ?t")
proof -
  have ok: "records_ok s" "faults_ok rs s" "vectors_ok rs s" using assms(1) by (simp_all add: engine_ok_def)
  have "records_ok ?t" by (rule records_ok_cong [OF ok(1)]) simp_all
  moreover have "faults_ok rs ?t" by (rule faults_ok_cong [OF ok(2)]) simp_all
  moreover have "vectors_ok rs ?t"
    using ok(3) assms(2,3) set_update_subset_insert [of l i p] by (auto simp: vectors_ok_def)
  moreover have "hits ?t = hits s" by (rule hits_cong) simp
  ultimately show ?thesis by (simp add: engine_step_def engine_ok_def engine_only_def)
qed

section \<open>A fault becomes live\<close>

text \<open>A step of the engine that may take one place in the vector of live faults.\<close>

definition engine_take ::
  "ref list \<Rightarrow> ('g, 'z) trigger_state_scheme \<Rightarrow> ('g, 'z) trigger_state_scheme \<Rightarrow> bool" where
  "engine_take rs s s' \<longleftrightarrow>
     engine_ok rs s' \<and> engine_only s s' \<and> cbs s' = cbs s \<and> hits s' = hits s \<and>
     live_faults_number s \<le> live_faults_number s' \<and> live_faults_number s' \<le> live_faults_number s + 1"

lemma engine_take_step: "engine_step rs s s' \<Longrightarrow> engine_take rs s s'"
  by (simp add: engine_step_def engine_take_def)

lemma engine_step_take: "engine_step rs s t \<Longrightarrow> engine_take rs t u \<Longrightarrow> engine_take rs s u"
  using engine_only_trans by (auto simp: engine_step_def engine_take_def)

lemma engine_take_then: "engine_take rs s t \<Longrightarrow> engine_step rs t u \<Longrightarrow> engine_take rs s u"
  using engine_only_trans by (auto simp: engine_step_def engine_take_def)

lemma engine_take_ok: "engine_take rs s s' \<Longrightarrow> engine_ok rs s'"
  by (simp add: engine_take_def)

lemma register_live_take:
  assumes "engine_ok rs s" "r \<in> set rs" "live_faults_number s < int (length rs)"
  shows "\<exists>s'. register_live_faults_callback e r s = Some (live_faults_number s, s') \<and> engine_take rs s s'"
proof -
  let ?t = "add_singlestep_req e s"
  have t: "engine_step rs s ?t" by (rule engine_step_singlestep(1) [OF assms(1)])
  note tok = engine_step_ok [OF t]
  obtain v l where v: "fault_trigger_addresses ?t = Some v" "length v = length rs"
    "live_faults ?t = Some l" "length l = length rs" "fault_number ?t = int (length rs)"
    "0 \<le> live_faults_number ?t"
    using tok by (rule engine_vectors) blast
  obtain g where g: "?t = s\<lparr>guest := g, req_singlestep := req_singlestep s + 1\<rparr>"
    by (rule add_singlestep_req_update)
  have n: "live_faults_number ?t = live_faults_number s" "fault_number ?t = fault_number s"
    by (simp_all add: g)
  obtain i where i: "live_faults_number s = int i" "i < length rs"
    using assms(3) v(6) n(1) by (metis nonneg_int_cases of_nat_less_iff)
  let ?u = "?t\<lparr>live_faults := Some (l[i := Some r])\<rparr>"
  let ?s' = "?t\<lparr>live_faults := Some (l[i := Some r]), live_faults_number := live_faults_number s + 1\<rparr>"
  have "register_live_faults_callback e r s = Some (live_faults_number s, ?s')"
    using v(3-5) n i by (simp add: register_live_faults_callback_def Let_def)
  moreover have "engine_take rs s ?s'"
  proof -
    have u: "engine_step rs ?t ?u" by (rule set_live_ok [OF tok v(3)]) (use assms(2) in blast)
    have ok: "records_ok ?u" "faults_ok rs ?u" "vectors_ok rs ?u"
      using u by (simp_all add: engine_step_def engine_ok_def)
    have "records_ok ?s'" by (rule records_ok_cong [OF ok(1)]) simp_all
    moreover have "faults_ok rs ?s'" by (rule faults_ok_cong [OF ok(2)]) simp_all
    moreover have "vectors_ok rs ?s'" using ok(3) i by (simp add: vectors_ok_def)
    moreover have "hits ?s' = hits s" by (rule hits_cong) (simp add: g)
    moreover have "engine_only s ?s'" by (simp add: engine_only_def g)
    ultimately show ?thesis by (simp add: engine_take_def engine_ok_def g)
  qed
  ultimately show ?thesis by blast
qed

lemma set_trignum_step:
  assumes "engine_ok rs s" "r \<in> set rs" "unat k < length rs"
  shows "\<exists>s'. set_fault_trigger_num r k s = Some s' \<and> engine_step rs s s'"
proof -
  obtain f where f: "get_fault r s = Some f" "fault_ok (length rs) f" "hits s r = hitcounter (f_trigger f)"
    using assms(1,2) by (rule engine_get)
  then show ?thesis
    using put_fault_step [OF assms(1,2), of "f\<lparr>f_trigger := (f_trigger f)\<lparr>trignum := k\<rparr>\<rparr>"] assms(3)
    by (auto simp: set_fault_trigger_num_def fault_ok_def)
qed

section \<open>Injection\<close>

lemma inject_by_type_step:
  assumes "plenty e" "mem_sane e" "engine_ok rs s" "r \<in> set rs" "f_address f \<noteq> trigger_done"
  shows "\<exists>s'. inject_by_type e r f s = Some s' \<and> engine_step rs s s'"
proof -
  let ?a = "f_address f"
  obtain s1 where s1: "insert_memorydump_config e ?a 16 s = Some (1, s1)" "engine_step rs s s1"
    using insert_memorydump_config_step [OF assms(1,3)] by blast
  obtain s2 where s2: "read_specific_memoryregion e ?a s1 = Some s2" "engine_step rs s1 s2"
    using read_specific_memoryregion_step [OF assms(1,2) engine_step_ok [OF s1(2)]] by blast
  have tail: "\<exists>u. do { s \<leftarrow> inject_memory_fault e r t; read_specific_memoryregion e ?a (flush_guest e s) } = Some u \<and>
      engine_step rs t u" if tok: "engine_ok rs t" for t
  proof -
    obtain t1 where t1: "inject_memory_fault e r t = Some t1" "engine_step rs t t1"
      using inject_memory_fault_step [OF assms(2) tok assms(4)] by blast
    note fl = engine_step_flush [OF engine_step_ok [OF t1(2)], of e]
    obtain t2 where t2: "read_specific_memoryregion e ?a (flush_guest e t1) = Some t2"
      "engine_step rs (flush_guest e t1) t2"
      using read_specific_memoryregion_step [OF assms(1,2) engine_step_ok [OF fl]] by blast
    show ?thesis
      using t1(1) t2(1) engine_step_trans [OF engine_step_trans [OF t1(2) fl] t2(2)] by simp
  qed
  obtain s3 where s3: "tb_faulted_register e ?a s2 = Some s3" "engine_step rs s2 s3"
    using tb_faulted_register_step [OF assms(1) engine_step_ok [OF s2(2)] assms(5)] by blast
  note s12 = engine_step_trans [OF s1(2) s2(2)]
  have instr: "\<exists>s'. inject_by_type e r f s = Some s' \<and> engine_step rs s s'" if "f_type f = INSTRUCTION"
    using tail [OF engine_step_ok [OF s3(2)]] s1(1) s2(1) s3(1) that
      engine_step_trans [OF engine_step_trans [OF s12 s3(2)]] by (auto simp: inject_by_type_def)
  have data: "\<exists>s'. inject_by_type e r f s = Some s' \<and> engine_step rs s s'"
    if "f_type f \<noteq> INSTRUCTION" "f_type f = DATA"
    using tail [OF engine_step_ok [OF s2(2)]] s1(1) s2(1) that engine_step_trans [OF s12]
    by (auto simp: inject_by_type_def)
  have reg: "\<exists>s'. inject_by_type e r f s = Some s' \<and> engine_step rs s s'"
    if "f_type f \<noteq> INSTRUCTION" "f_type f \<noteq> DATA"
    using inject_register_fault_step [OF assms(3,4), of e] engine_step_refl [OF assms(3)] that
    by (auto simp: inject_by_type_def)
  from instr data reg show ?thesis by blast
qed

lemma inject_fault_take:
  assumes "plenty e" "mem_sane e" "engine_ok rs s" "r \<in> set rs"
    and "live_faults_number s < int (length rs)"
  shows "\<exists>s'. inject_fault e (Some r) s = Some s' \<and> engine_take rs s s'"
proof -
  obtain f where f: "get_fault r s = Some f" "fault_ok (length rs) f"
    using assms(3,4) by (rule engine_get) blast
  have a: "f_address f \<noteq> trigger_done" using f(2) by (simp add: fault_ok_def)
  obtain s1 where s1: "inject_by_type e r f s = Some s1" "engine_step rs s s1"
    using inject_by_type_step [OF assms(1-4) a] by blast
  note ok1 = engine_step_ok [OF s1(2)]
  obtain f1 where f1: "get_fault r s1 = Some f1" "fault_ok (length rs) f1"
    using ok1 assms(4) by (rule engine_get) blast
  obtain s2 where s2: "invalidate_fault_trigger_address (u64_to_int (trignum (f_trigger f1))) s1 = Some s2"
    "engine_step rs s1 s2"
    using invalidate_step [OF ok1] f1(2) by (auto simp: fault_ok_def)
  let ?s3 = "rem_singlestep_req e s2"
  have s3: "engine_step rs s2 ?s3" by (rule engine_step_singlestep(2) [OF engine_step_ok [OF s2(2)]])
  note s13 = engine_step_trans [OF engine_step_trans [OF s1(2) s2(2)] s3]
  have live: "live_faults_number ?s3 = live_faults_number s" using s13 by (simp add: engine_step_def)
  have "\<exists>s4. (if f_lifetime f1 \<noteq> 0 then do {
                  (n, s) \<leftarrow> register_live_faults_callback e r ?s3;
                  set_fault_trigger_num r (of_int n) s
                } else Some ?s3) = Some s4 \<and> engine_take rs ?s3 s4"
  proof (cases "f_lifetime f1 = 0")
    case True
    then show ?thesis using engine_take_step [OF engine_step_refl [OF engine_step_ok [OF s13]]] by auto
  next
    case False
    obtain t where t: "register_live_faults_callback e r ?s3 = Some (live_faults_number ?s3, t)"
      "engine_take rs ?s3 t"
      using register_live_take [OF engine_step_ok [OF s13] assms(4), of e] assms(5) live by auto
    obtain v l where v: "0 \<le> live_faults_number ?s3" "length rs < 2 ^ 31"
      using engine_step_ok [OF s13] by (rule engine_vectors) blast
    then obtain i where i: "live_faults_number ?s3 = int i" "i < length rs"
      using assms(5) live by (metis nonneg_int_cases of_nat_less_iff)
    have "unat (of_int (int i) :: u64) = i"
      using i(2) v(2) by (simp add: unat_of_nat)
    then obtain u where u: "set_fault_trigger_num r (of_int (int i)) t = Some u" "engine_step rs t u"
      using set_trignum_step [OF engine_take_ok [OF t(2)] assms(4), of "of_int (int i)"] i(2) by auto
    show ?thesis using False t(1) u(1) i(1) engine_take_then [OF t(2) u(2)] by simp
  qed
  then obtain s4 where s4: "(if f_lifetime f1 \<noteq> 0 then do {
                  (n, s) \<leftarrow> register_live_faults_callback e r ?s3;
                  set_fault_trigger_num r (of_int n) s
                } else Some ?s3) = Some s4" "engine_take rs ?s3 s4" by blast
  obtain f4 where f4: "get_fault r s4 = Some f4"
    using engine_take_ok [OF s4(2)] assms(4) by (rule engine_get) blast
  obtain s5 where s5: "add_new_registerdump e (trignum (f_trigger f4)) s4 = Some (0, s5)" "engine_step rs s4 s5"
    using add_new_registerdump_step [OF assms(1) engine_take_ok [OF s4(2)]] by blast
  have "inject_fault e (Some r) s = Some s5"
    unfolding inject_fault_def option.case f(1) bind.bind_lunit s1(1) f1(1) s2(1) Let_def s4(1) f4 s5(1) prod.case ..
  with engine_take_then [OF engine_step_take [OF s13 s4(2)] s5(2)] show ?thesis by blast
qed

section \<open>Reversal\<close>

lemma reverse_fault_step:
  assumes "plenty e" "mem_sane e" "engine_ok rs s" "r \<in> set rs"
  shows "\<exists>s'. reverse_fault e (Some r) s = Some s' \<and> engine_step rs s s'"
proof -
  obtain f where f: "get_fault r s = Some f" "fault_ok (length rs) f"
    using assms(3,4) by (rule engine_get) blast
  have "\<exists>s'. reverse_by_type e r f s = Some s' \<and> engine_step rs s s'"
  proof (cases "f_type f = INSTRUCTION \<or> f_type f = DATA")
    case True
    obtain g where g: "process_reverse_fault e (f_address f) (f_mask f) (f_restoremask f) s = Some (s\<lparr>guest := g\<rparr>)"
      using process_reverse_total [OF assms(2), of "f_mask f" "f_restoremask f" "f_address f" s] f(2)
      by (auto simp: fault_ok_def)
    have t: "engine_step rs s (s\<lparr>guest := g\<rparr>)"
      using engine_step_guest [OF assms(3), of "req_singlestep s" g] by simp
    note fl = engine_step_flush [OF engine_step_ok [OF t], of e]
    obtain u where "read_specific_memoryregion e (f_address f) (flush_guest e (s\<lparr>guest := g\<rparr>)) = Some u"
      "engine_step rs (flush_guest e (s\<lparr>guest := g\<rparr>)) u"
      using read_specific_memoryregion_step [OF assms(1,2) engine_step_ok [OF fl]] by blast
    then show ?thesis using True g engine_step_trans [OF engine_step_trans [OF t fl]] by (simp add: reverse_by_type_def)
  next
    case False
    then show ?thesis
      using reverse_register_fault_step [OF assms(3,4), of e] engine_step_refl [OF assms(3)]
      by (auto simp: reverse_by_type_def)
  qed
  then obtain s1 where s1: "reverse_by_type e r f s = Some s1" "engine_step rs s s1" by blast
  let ?s2 = "rem_singlestep_req e s1"
  have s2: "engine_step rs s1 ?s2" by (rule engine_step_singlestep(2) [OF engine_step_ok [OF s1(2)]])
  note s12 = engine_step_trans [OF s1(2) s2]
  obtain f2 where f2: "get_fault r ?s2 = Some f2"
    using engine_step_ok [OF s12] assms(4) by (rule engine_get) blast
  obtain s3 where s3: "add_new_registerdump e (trignum (f_trigger f2)) ?s2 = Some (0, s3)" "engine_step rs ?s2 s3"
    using add_new_registerdump_step [OF assms(1) engine_step_ok [OF s12]] by blast
  have "reverse_fault e (Some r) s = Some s3"
    unfolding reverse_fault_def option.case f(1) bind.bind_lunit s1(1) Let_def f2 s3(1) prod.case ..
  with engine_step_trans [OF s12 s3(2)] show ?thesis by blast
qed

section \<open>The budget of live faults\<close>

text \<open>
  Every fault is injected at most once: when its counter reaches 0, or in the first block when the
  counter is 0 from the start.  The faults whose counter is not 0 and the live ones never exceed the
  length of the vector.
\<close>

definition unfired :: "ref list \<Rightarrow> ('g, 'z) trigger_state_scheme \<Rightarrow> nat" where
  "unfired rs s = length (filter (\<lambda>r. hits s r \<noteq> 0) rs)"

definition budget :: "ref list \<Rightarrow> ('g, 'z) trigger_state_scheme \<Rightarrow> bool" where
  "budget rs s \<longleftrightarrow> live_faults_number s + int (unfired rs s) \<le> int (length rs)"

lemma unfired_le: "unfired rs s \<le> length rs"
  by (simp add: unfired_def)

lemma filter_length_mono: "(\<And>x. x \<in> set xs \<Longrightarrow> P x \<Longrightarrow> Q x) \<Longrightarrow> length (filter P xs) \<le> length (filter Q xs)"
  by (induction xs) auto

lemma filter_length_less:
  "r \<in> set xs \<Longrightarrow> Q r \<Longrightarrow> \<not> P r \<Longrightarrow> (\<And>x. x \<in> set xs \<Longrightarrow> P x \<Longrightarrow> Q x) \<Longrightarrow>
   length (filter P xs) < length (filter Q xs)"
proof (induction xs)
  case (Cons x xs)
  have le: "length (filter P xs) \<le> length (filter Q xs)"
    using Cons.prems(4) by (intro filter_length_mono) simp
  show ?case
  proof (cases "r = x")
    case True
    then show ?thesis using Cons.prems(2,3) le by simp
  next
    case False
    then have "length (filter P xs) < length (filter Q xs)" using Cons by simp
    moreover have "P x \<Longrightarrow> Q x" using Cons.prems(4) by simp
    ultimately show ?thesis by auto
  qed
qed simp

lemma unfired_hit:
  assumes "r \<in> set rs" "hits s r \<noteq> 0" "hits s' = (hits s)(r := h)"
  shows "unfired rs s' \<le> unfired rs s" "h = 0 \<Longrightarrow> unfired rs s' < unfired rs s"
proof -
  show "unfired rs s' \<le> unfired rs s"
    unfolding unfired_def using assms by (intro filter_length_mono) (simp split: if_splits)
  show "h = 0 \<Longrightarrow> unfired rs s' < unfired rs s"
    unfolding unfired_def using assms by (intro filter_length_less [of r]) (simp_all split: if_splits)
qed

lemma budget_hits: "budget rs s \<Longrightarrow> hits s' = hits s \<Longrightarrow> live_faults_number s' = live_faults_number s \<Longrightarrow> budget rs s'"
  by (simp add: budget_def unfired_def)

section \<open>The callbacks\<close>

text \<open>What each callback of the engine preserves.\<close>

definition engine_run ::
  "ref list \<Rightarrow> ('g, 'z) trigger_state_scheme \<Rightarrow> ('g, 'z) trigger_state_scheme \<Rightarrow> bool" where
  "engine_run rs s s' \<longleftrightarrow> engine_ok rs s' \<and> budget rs s' \<and> engine_only s s'"

lemma engine_run_step: "engine_step rs s s' \<Longrightarrow> budget rs s \<Longrightarrow> engine_run rs s s'"
  by (simp add: engine_run_def engine_step_def budget_def unfired_def)

lemma trigger_insn_cb_run:
  assumes "plenty e" "mem_sane e" "engine_ok rs s" "budget rs s" "r \<in> set rs"
  shows "\<exists>s'. trigger_insn_cb e r s = Some s' \<and> engine_run rs s s' \<and> cbs s' = cbs s"
proof -
  obtain f where f: "get_fault r s = Some f" "fault_ok (length rs) f" "hits s r = hitcounter (f_trigger f)"
    using assms(3,5) by (rule engine_get)
  show ?thesis
  proof (cases "hitcounter (f_trigger f) = 0")
    case True
    then show ?thesis
      using f(1) engine_run_step [OF engine_step_refl [OF assms(3)] assms(4)] by (simp add: trigger_insn_cb_def)
  next
    case False
    let ?h = "hitcounter (f_trigger f) - 1"
    let ?f = "f\<lparr>f_trigger := (f_trigger f)\<lparr>hitcounter := ?h\<rparr>\<rparr>"
    have "fault_ok (length rs) ?f" using f(2) by (simp add: fault_ok_def)
    from put_fault_ok [OF assms(3,5) this]
    obtain t where t: "put_fault r ?f s = Some t" "engine_ok rs t" "engine_only s t" "cbs t = cbs s"
      "live_faults_number t = live_faults_number s" "hits t = (hits s)(r := ?h)"
      by auto
    have hit: "hits s r \<noteq> 0" using False f(3) by simp
    note pend = unfired_hit [OF assms(5) hit t(6)]
    have "\<exists>u. (if ?h = 0 then inject_fault e (Some r) t else Some t) = Some u \<and> engine_ok rs u \<and>
        engine_only t u \<and> cbs u = cbs t \<and> budget rs u"
    proof (cases "?h = 0")
      case True
      have less: "live_faults_number t + int (unfired rs t) < int (length rs)"
        using pend(2) [OF True] assms(4) t(5) by (simp add: budget_def)
      then obtain u where u: "inject_fault e (Some r) t = Some u" "engine_take rs t u"
        using inject_fault_take [OF assms(1,2) t(2) assms(5)] by auto
      have "unfired rs u = unfired rs t" using u(2) by (simp add: engine_take_def unfired_def)
      then have "budget rs u" using u(2) less by (simp add: engine_take_def budget_def)
      then show ?thesis using True u by (auto simp: engine_take_def)
    next
      case False
      have "budget rs t" using pend(1) assms(4) t(5) by (simp add: budget_def)
      then show ?thesis using False t(2) by simp
    qed
    then obtain u where u: "(if ?h = 0 then inject_fault e (Some r) t else Some t) = Some u"
      "engine_ok rs u" "engine_only t u" "cbs u = cbs t" "budget rs u" by blast
    obtain k where k: "get_fault r u = Some k" using u(2) assms(5) by (rule engine_get) blast
    let ?s' = "if hitcounter (f_trigger k) = 1 then add_singlestep_req e u else u"
    have s': "engine_step rs u ?s'"
      using engine_step_singlestep(1) [OF u(2)] engine_step_refl [OF u(2)] by simp
    have "trigger_insn_cb e r s = Some ?s'"
      using f(1) False t(1) u(1) k by (simp add: trigger_insn_cb_def Let_def)
    moreover have "engine_run rs s ?s' \<and> cbs ?s' = cbs s"
      using engine_run_step [OF s' u(5)] s' u(4) t(4) engine_only_trans [OF engine_only_trans [OF t(3) u(3)]]
      unfolding engine_run_def engine_step_def by simp
    ultimately show ?thesis by blast
  qed
qed

lemma tb_exec_cb_run:
  assumes "plenty e" "mem_sane e" "engine_ok rs s" "budget rs s" "r \<in> set rs"
  shows "\<exists>s'. tb_exec_cb e r s = Some s' \<and> engine_run rs s s' \<and> cbs s' = cbs s"
proof -
  obtain f where f: "get_fault r s = Some f" "fault_ok (length rs) f" "hits s r = hitcounter (f_trigger f)"
    using assms(3,5) by (rule engine_get)
  have done_: "engine_run rs s s' \<and> cbs s' = cbs s" if "engine_step rs s s'" for s'
    using engine_run_step [OF that assms(4)] that by (simp add: engine_step_def)
  show ?thesis
  proof (cases "f_lifetime f = 0")
    case True
    then show ?thesis using f(1) done_ [OF engine_step_refl [OF assms(3)]] by (simp add: tb_exec_cb_def)
  next
    case False
    let ?f = "f\<lparr>f_lifetime := f_lifetime f - 1\<rparr>"
    have "fault_ok (length rs) ?f" using f(2) by (simp add: fault_ok_def)
    then obtain t where t: "put_fault r ?f s = Some t" "engine_step rs s t"
      using put_fault_step [OF assms(3,5), of ?f] f(3) by auto
    show ?thesis
    proof (cases "f_lifetime ?f = 0")
      case True
      obtain u where u: "reverse_fault e (Some r) t = Some u" "engine_step rs t u"
        using reverse_fault_step [OF assms(1,2) engine_step_ok [OF t(2)] assms(5)] by blast
      note uok = engine_step_ok [OF u(2)]
      obtain k where k: "get_fault r u = Some k" "fault_ok (length rs) k"
        using uok assms(5) by (rule engine_get) blast
      obtain v l where l: "live_faults u = Some l" "length l = length rs"
        using uok by (rule engine_vectors) blast
      have arr: "arr_set l (unat (trignum (f_trigger k))) None = Some (l[unat (trignum (f_trigger k)) := None])"
        using k(2) l(2) by (simp add: fault_ok_def)
      let ?s' = "u\<lparr>live_faults := Some (l[unat (trignum (f_trigger k)) := None])\<rparr>"
      have "engine_step rs u ?s'" by (rule set_live_ok [OF uok l(1)]) simp
      then have "engine_step rs s ?s'" using engine_step_trans t(2) u(2) by blast
      moreover have "tb_exec_cb e r s = Some ?s'"
        using f(1) False True t(1) u(1) k(1) l(1) arr by (simp add: tb_exec_cb_def Let_def)
      ultimately show ?thesis using done_ by blast
    next
      case False
      then show ?thesis using f(1) \<open>f_lifetime f \<noteq> 0\<close> t(1) done_ [OF t(2)] by (simp add: tb_exec_cb_def Let_def)
    qed
  qed
qed

section \<open>The first block\<close>

lemma set_trigger_step:
  assumes "engine_ok rs s" "fault_trigger_addresses s = Some v" "length w = length v"
  shows "engine_step rs s (s\<lparr>fault_trigger_addresses := Some w\<rparr>)" (is "engine_step rs s ?t")
proof -
  have ok: "records_ok s" "faults_ok rs s" "vectors_ok rs s" using assms(1) by (simp_all add: engine_ok_def)
  have "records_ok ?t" by (rule records_ok_cong [OF ok(1)]) simp_all
  moreover have "faults_ok rs ?t" by (rule faults_ok_cong [OF ok(2)]) simp_all
  moreover have "vectors_ok rs ?t" using ok(3) assms(2,3) by (auto simp: vectors_ok_def)
  moreover have "hits ?t = hits s" by (rule hits_cong) simp
  ultimately show ?thesis by (simp add: engine_step_def engine_ok_def engine_only_def)
qed

lemma insert_first_fault_take:
  assumes "plenty e" "mem_sane e" "engine_ok rs s" "r \<in> set rs"
    and "hits s r = 0 \<Longrightarrow> live_faults_number s < int (length rs)"
  shows "\<exists>s'. insert_first_fault e r s = Some s' \<and> engine_take rs s s' \<and>
    (hits s r \<noteq> 0 \<longrightarrow> live_faults_number s' = live_faults_number s)"
proof -
  obtain f where f: "get_fault r s = Some f" "fault_ok (length rs) f" "hits s r = hitcounter (f_trigger f)"
    using assms(3,4) by (rule engine_get)
  have last_step: "\<exists>s'. do { f \<leftarrow> get_fault r t; Some (if hitcounter (f_trigger f) = 1 then add_singlestep_req e t else t) } =
      Some s' \<and> engine_step rs t s'" if tok: "engine_ok rs t" for t
  proof -
    obtain k where "get_fault r t = Some k" using tok assms(4) by (rule engine_get) blast
    then show ?thesis
      using engine_step_singlestep(1) [OF tok] engine_step_refl [OF tok] by auto
  qed
  show ?thesis
  proof (cases "hitcounter (f_trigger f) = 0 \<and> f_type f = INSTRUCTION")
    case True
    let ?t = "add_singlestep_req e s"
    have t: "engine_step rs s ?t" by (rule engine_step_singlestep(1) [OF assms(3)])
    have "live_faults_number ?t < int (length rs)"
      using True f(3) assms(5) t by (simp add: engine_step_def)
    then obtain u where u: "inject_fault e (Some r) ?t = Some u" "engine_take rs ?t u"
      using inject_fault_take [OF assms(1,2) engine_step_ok [OF t] assms(4)] by blast
    note uok = engine_take_ok [OF u(2)]
    obtain k where k: "get_fault r u = Some k" "fault_ok (length rs) k"
      using uok assms(4) by (rule engine_get) blast
    obtain v l where v: "fault_trigger_addresses u = Some v" "length v = length rs"
      using uok by (rule engine_vectors) blast
    have arr: "arr_set v (unat (trignum (f_trigger k))) 0 = Some (v[unat (trignum (f_trigger k)) := 0])"
      using k(2) v(2) by (simp add: fault_ok_def)
    let ?w = "u\<lparr>fault_trigger_addresses := Some (v[unat (trignum (f_trigger k)) := 0])\<rparr>"
    have w: "engine_step rs u ?w" by (rule set_trigger_step [OF uok v(1)]) simp
    obtain s' where s': "do { f \<leftarrow> get_fault r ?w; Some (if hitcounter (f_trigger f) = 1 then add_singlestep_req e ?w else ?w) } = Some s'"
      "engine_step rs ?w s'" using last_step [OF engine_step_ok [OF w]] by blast
    have "insert_first_fault e r s = Some s'"
      unfolding insert_first_fault_def f(1) bind.bind_lunit if_P [OF True] u(1) k(1) v(1) arr
      by (rule s'(1))
    moreover have "engine_take rs s s'"
      by (rule engine_step_take [OF t engine_take_then [OF u(2) engine_step_trans [OF w s'(2)]]])
    moreover have "hits s r = 0" using True f(3) by simp
    ultimately show ?thesis by (intro exI [of _ s']) (simp only: simp_thms)
  next
    case False
    obtain s' where s': "do { f \<leftarrow> get_fault r s; Some (if hitcounter (f_trigger f) = 1 then add_singlestep_req e s else s) } = Some s'"
      "engine_step rs s s'" using last_step [OF assms(3)] by blast
    have "insert_first_fault e r s = Some s'"
      unfolding insert_first_fault_def f(1) bind.bind_lunit if_not_P [OF False]
      using s'(1) unfolding f(1) bind.bind_lunit .
    then show ?thesis using engine_take_step [OF s'(2)] s'(2) by (auto simp: engine_step_def)
  qed
qed

lemma insert_first_faults_run:
  assumes "plenty e" "mem_sane e"
  shows "engine_ok rs s \<Longrightarrow> rs = xs @ ys \<Longrightarrow> current = (case ys of [] \<Rightarrow> None | y # _ \<Rightarrow> Some y) \<Longrightarrow>
    live_faults_number s \<le> int (length (filter (\<lambda>r. hits s r = 0) xs)) \<Longrightarrow>
    \<exists>s'. insert_first_faults e current s = Some s' \<and> engine_ok rs s' \<and> engine_only s s' \<and> cbs s' = cbs s \<and>
      hits s' = hits s \<and> live_faults_number s' \<le> int (length (filter (\<lambda>r. hits s r = 0) rs))"
proof (induction ys arbitrary: xs current s)
  case Nil
  then show ?case by (subst insert_first_faults.simps) simp
next
  case (Cons r ys)
  have r: "r \<in> set rs" using Cons.prems(2) by simp
  have room: "live_faults_number s < int (length rs)"
  proof -
    have "int (length (filter (\<lambda>r. hits s r = 0) xs)) \<le> int (length xs)" by simp
    with Cons.prems(4) have "live_faults_number s \<le> int (length xs)" by (rule order_trans)
    then show ?thesis using Cons.prems(2) by simp
  qed
  obtain t where t: "insert_first_fault e r s = Some t" "engine_take rs s t"
    "hits s r \<noteq> 0 \<longrightarrow> live_faults_number t = live_faults_number s"
    using insert_first_fault_take [OF assms Cons.prems(1) r] room by blast
  have "fault_refs t (xs @ r # ys)"
    using engine_take_ok [OF t(2)] Cons.prems(2) by (simp add: engine_ok_def faults_ok_def)
  note nx = return_next_refs [OF this]
  have ht: "hits t = hits s" using t(2) by (simp add: engine_take_def)
  have "live_faults_number t \<le> int (length (filter (\<lambda>r. hits t r = 0) (xs @ [r])))"
    using t(2,3) Cons.prems(4) ht by (auto simp: engine_take_def)
  from Cons.IH [OF engine_take_ok [OF t(2)] _ refl this]
  obtain u where u: "insert_first_faults e (case ys of [] \<Rightarrow> None | y # _ \<Rightarrow> Some y) t = Some u"
    "engine_ok rs u" "engine_only t u" "cbs u = cbs t" "hits u = hits t"
    "live_faults_number u \<le> int (length (filter (\<lambda>r. hits t r = 0) rs))"
    using Cons.prems(2) by auto
  have "insert_first_faults e current s = Some u"
    using Cons.prems(3) t(1) nx u(1) by (subst insert_first_faults.simps) simp
  then show ?case
    using u(2-6) t(2) engine_only_trans ht by (auto simp: engine_take_def)
qed

lemma handle_first_run:
  assumes "plenty e" "mem_sane e" "engine_ok rs s" "live_faults_number s = 0"
  shows "\<exists>s'. handle_first_tb_fault_insertion e s = Some s' \<and> engine_run rs s s' \<and> cbs s' = cbs s"
proof -
  have "return_first_fault s = (case rs of [] \<Rightarrow> None | y # _ \<Rightarrow> Some y)"
    using assms(3) by (cases rs) (auto simp: engine_ok_def faults_ok_def fault_refs_def return_first_fault_def
        split: option.splits)
  then obtain s' where s': "handle_first_tb_fault_insertion e s = Some s'" "engine_ok rs s'" "engine_only s s'"
    "cbs s' = cbs s" "hits s' = hits s" "live_faults_number s' \<le> int (length (filter (\<lambda>r. hits s r = 0) rs))"
    using insert_first_faults_run [OF assms(1-3), of "[]" rs] assms(4)
    by (auto simp: handle_first_tb_fault_insertion_def)
  have "length (filter (\<lambda>r. hits s r = 0) rs) + unfired rs s' = length rs"
    using sum_length_filter_compl [of "\<lambda>r. hits s r = 0" rs] s'(5) by (simp add: unfired_def)
  then have "budget rs s'" using s'(6) by (simp add: budget_def)
  with s' show ?thesis by (auto simp: engine_run_def)
qed

section \<open>Later blocks\<close>

text \<open>The callbacks of the engine, with one of its faults as user data.\<close>

definition engine_cb :: "ref list \<Rightarrow> callback \<Rightarrow> bool" where
  "engine_cb rs c \<longleftrightarrow> (\<exists>a. \<exists>r \<in> set rs. c = Trigger_insn_cb a r \<or> c = Tb_exec_cb a r)"

definition engine_more ::
  "ref list \<Rightarrow> ('g, 'z) trigger_state_scheme \<Rightarrow> ('g, 'z) trigger_state_scheme \<Rightarrow> bool" where
  "engine_more rs s s' \<longleftrightarrow>
     engine_ok rs s' \<and> engine_only s s' \<and> hits s' = hits s \<and>
     live_faults_number s' = live_faults_number s \<and>
     (\<exists>cs. cbs s' = cbs s @ cs \<and> (\<forall>c \<in> set cs. engine_cb rs c))"

lemma engine_more_step: "engine_step rs s s' \<Longrightarrow> engine_more rs s s'"
  by (simp add: engine_step_def engine_more_def)

lemma engine_more_trans:
  assumes "engine_more rs s t" "engine_more rs t u"
  shows "engine_more rs s u"
proof -
  obtain cs where cs: "cbs t = cbs s @ cs" "\<forall>c \<in> set cs. engine_cb rs c"
    using assms(1) by (auto simp: engine_more_def)
  obtain ds where ds: "cbs u = cbs t @ ds" "\<forall>c \<in> set ds. engine_cb rs c"
    using assms(2) by (auto simp: engine_more_def)
  have "cbs u = cbs s @ (cs @ ds)" "\<forall>c \<in> set (cs @ ds). engine_cb rs c" using cs ds by auto
  then show ?thesis
    using assms engine_only_trans [of s t u] unfolding engine_more_def by metis
qed

lemma engine_more_ok: "engine_more rs s s' \<Longrightarrow> engine_ok rs s'"
  by (simp add: engine_more_def)

lemma register_at_cbs:
  "\<exists>cs. register_at test c tb s = s\<lparr>cbs := cbs s @ cs\<rparr> \<and> (\<forall>x \<in> set cs. \<exists>i. x = c i)"
proof -
  have "\<exists>cs. fold (\<lambda>i s. if test i then register_cb (c i) s else s) is s = s\<lparr>cbs := cbs s @ cs\<rparr> \<and>
      (\<forall>x \<in> set cs. \<exists>i. x = c i)" for "is" and s :: "('a, 'b) machine_scheme"
  proof (induction "is" arbitrary: s)
    case Nil
    have "s = s\<lparr>cbs := cbs s @ []\<rparr>" by simp
    then show ?case by (intro exI [of _ "[]"]) simp
  next
    case (Cons i "is")
    show ?case
    proof (cases "test i")
      case True
      obtain cs where "fold (\<lambda>i s. if test i then register_cb (c i) s else s) is (register_cb (c i) s) =
          (register_cb (c i) s)\<lparr>cbs := cbs (register_cb (c i) s) @ cs\<rparr>" "\<forall>x \<in> set cs. \<exists>i. x = c i"
        using Cons.IH by blast
      with True show ?thesis by (intro exI [of _ "c i # cs"]) (auto simp: register_cb_def)
    next
      case False
      with Cons.IH [of s] show ?thesis by simp
    qed
  qed
  then show ?thesis unfolding register_at_def .
qed

lemma engine_cbs_ok: "engine_ok rs s \<Longrightarrow> engine_ok rs (s\<lparr>cbs := cs\<rparr>)"
proof -
  assume "engine_ok rs s"
  then have ok: "records_ok s" "faults_ok rs s" "vectors_ok rs s" by (simp_all add: engine_ok_def)
  have "records_ok (s\<lparr>cbs := cs\<rparr>)" by (rule records_ok_cong [OF ok(1)]) simp_all
  moreover have "faults_ok rs (s\<lparr>cbs := cs\<rparr>)" by (rule faults_ok_cong [OF ok(2)]) simp_all
  moreover have "vectors_ok rs (s\<lparr>cbs := cs\<rparr>)" by (rule vectors_ok_cong [OF ok(3)]) simp_all
  ultimately show ?thesis by (simp add: engine_ok_def)
qed

lemma register_at_more:
  assumes "engine_ok rs s" "\<And>i. engine_cb rs (c i)"
  shows "engine_more rs s (register_at test c tb s)"
proof -
  obtain cs where cs: "register_at test c tb s = s\<lparr>cbs := cbs s @ cs\<rparr>" "\<forall>x \<in> set cs. \<exists>i. x = c i"
    using register_at_cbs by blast
  have "hits (s\<lparr>cbs := cbs s @ cs\<rparr>) = hits s" by (rule hits_cong) simp
  then show ?thesis
    unfolding cs(1) engine_more_def using engine_cbs_ok [OF assms(1)] assms(2) cs(2)
    by (auto simp: engine_only_def)
qed

lemma evaluate_trigger_more:
  assumes "engine_ok rs s" "i < length rs"
  shows "\<exists>s'. evaluate_trigger tb i s = Some s' \<and> engine_more rs s s'"
proof -
  obtain v l where v: "fault_trigger_addresses s = Some v" "length v = length rs"
    using assms(1) by (rule engine_vectors) blast
  have refs: "fault_refs s rs" using assms(1) by (simp add: engine_ok_def faults_ok_def)
  let ?found = "List.find (\<lambda>r. \<exists>f. get_fault r s = Some f \<and> trig_address (f_trigger f) = v ! i \<and>
      trignum (f_trigger f) = of_nat i) rs"
  show ?thesis
  proof (cases ?found)
    case None
    then show ?thesis
      using v assms engine_more_step [OF engine_step_refl [OF assms(1)]]
        get_fault_struct_by_trigger_find [OF refs, of "v ! i" "of_nat i"]
      by (simp add: evaluate_trigger_def)
  next
    case (Some r)
    then have r: "r \<in> set rs" by (auto simp: find_Some_iff)
    obtain f where f: "get_fault r s = Some f" using assms(1) r by (rule engine_get)
    let ?s' = "register_at (covers_insn (trig_address (f_trigger f))) (\<lambda>i. Trigger_insn_cb (insn_vaddr i) r) tb s"
    have "engine_more rs s ?s'"
      by (rule register_at_more [OF assms(1)]) (use r in \<open>auto simp: engine_cb_def\<close>)
    moreover have "evaluate_trigger tb i s = Some ?s'"
      using v assms(2) Some f get_fault_struct_by_trigger_find [OF refs, of "v ! i" "of_nat i"]
      by (simp add: evaluate_trigger_def)
    ultimately show ?thesis by blast
  qed
qed

lemma check_trigger_vector_more:
  "engine_ok rs s \<Longrightarrow> set is \<subseteq> {..<length rs} \<Longrightarrow>
   \<exists>s'. check_trigger_vector tb sz is s = Some s' \<and> engine_more rs s s'"
proof (induction "is" arbitrary: s)
  case Nil
  then show ?case using engine_more_step [OF engine_step_refl] by simp
next
  case (Cons i "is")
  have i: "i < length rs" using Cons.prems(2) by simp
  obtain v l where v: "fault_trigger_addresses s = Some v" "length v = length rs"
    using Cons.prems(1) by (rule engine_vectors) blast
  let ?body = "if tb_vaddr tb \<le> v ! i \<and> tb_vaddr tb + sz > v ! i then evaluate_trigger tb i s else Some s"
  obtain t where t: "?body = Some t" "engine_more rs s t"
    using evaluate_trigger_more [OF Cons.prems(1) i] engine_more_step [OF engine_step_refl [OF Cons.prems(1)]]
    by (cases "tb_vaddr tb \<le> v ! i \<and> tb_vaddr tb + sz > v ! i") auto
  obtain u where u: "check_trigger_vector tb sz is t = Some u" "engine_more rs t u"
    using Cons.IH [OF engine_more_ok [OF t(2)]] Cons.prems(2) by auto
  have "arr_get v i = Some (v ! i)" using v(2) i by simp
  then have "check_trigger_vector tb sz (i # is) s = Some u"
    unfolding check_trigger_vector.simps v(1) bind.bind_lunit using t(1) u(1) by (simp only: bind.bind_lunit)
  with engine_more_trans [OF t(2) u(2)] show ?case by blast
qed

lemma eval_live_more:
  assumes "engine_ok rs s" "live_faults s = Some l" "i < length l" "l ! i \<noteq> None"
  shows "\<exists>s'. eval_live_fault_callback e tb i s = Some s' \<and> engine_more rs s s'"
proof -
  obtain r where r: "l ! i = Some r" using assms(4) by auto
  have "Some r \<in> set l" using r assms(3) nth_mem by metis
  then have rs: "r \<in> set rs" using assms(1,2) by (auto simp: engine_ok_def vectors_ok_def)
  obtain f where f: "get_fault r s = Some f" using assms(1) rs by (rule engine_get)
  show ?thesis
  proof (cases "f_lifetime f = 0")
    case True
    let ?t = "s\<lparr>live_faults := Some (l[i := None])\<rparr>"
    have t: "engine_step rs s ?t" by (rule set_live_ok [OF assms(1,2)]) simp
    have "engine_step rs s (rem_singlestep_req e ?t)"
      by (rule engine_step_trans [OF t engine_step_singlestep(2) [OF engine_step_ok [OF t]]])
    then show ?thesis
      using assms(2,3) r f True engine_more_step by (auto simp: eval_live_fault_callback_def)
  next
    case False
    have "engine_more rs s (register_at (\<lambda>_. True) (\<lambda>i. Tb_exec_cb (insn_vaddr i) r) tb s)"
      by (rule register_at_more [OF assms(1)]) (use rs in \<open>auto simp: engine_cb_def\<close>)
    then show ?thesis using assms(2,3) r f False by (auto simp: eval_live_fault_callback_def)
  qed
qed

lemma check_live_vector_more:
  "engine_ok rs s \<Longrightarrow> set is \<subseteq> {..<length rs} \<Longrightarrow>
   \<exists>s'. check_live_vector e tb is s = Some s' \<and> engine_more rs s s'"
proof (induction "is" arbitrary: s)
  case Nil
  then show ?case using engine_more_step [OF engine_step_refl] by simp
next
  case (Cons i "is")
  obtain v l where l: "live_faults s = Some l" "length l = length rs"
    using Cons.prems(1) by (rule engine_vectors) blast
  have i: "i < length l" using Cons.prems(2) l(2) by simp
  obtain t where t: "(if l ! i \<noteq> None then eval_live_fault_callback e tb i s else Some s) = Some t" "engine_more rs s t"
    using eval_live_more [OF Cons.prems(1) l(1) i] engine_more_step [OF engine_step_refl [OF Cons.prems(1)]]
    by (cases "l ! i = None") auto
  obtain u where u: "check_live_vector e tb is t = Some u" "engine_more rs t u"
    using Cons.IH [OF engine_more_ok [OF t(2)]] Cons.prems(2) by auto
  have "check_live_vector e tb (i # is) s = Some u"
    using t(1) u(1) l(1) i by simp
  with engine_more_trans [OF t(2) u(2)] show ?case by blast
qed

lemma handle_tb_translate_event_more:
  assumes "engine_ok rs s" "tb_insns tb \<noteq> []"
  shows "\<exists>s'. handle_tb_translate_event e tb s = Some s' \<and> engine_more rs s s'"
proof -
  obtain sz where sz: "calculate_bytesize_instructions tb = Some sz"
    using bytesize_Some [OF assms(2)] by blast
  have n: "nat (fault_number s) = length rs" using assms(1) by (simp add: engine_ok_def vectors_ok_def)
  obtain t where t: "check_trigger_vector tb sz [0..<nat (fault_number s)] s = Some t" "engine_more rs s t"
    using check_trigger_vector_more [OF assms(1), of "[0..<nat (fault_number s)]" tb sz] n
    by (auto simp: lessThan_atLeast0)
  note tok = engine_more_ok [OF t(2)]
  have "live_faults_number t \<le> int (length rs)" using tok by (simp add: engine_ok_def vectors_ok_def)
  then have "nat (live_faults_number t) \<le> length rs" by (simp only: nat_le_iff)
  then have sub: "set [0..<nat (live_faults_number t)] \<subseteq> {..<length rs}" by auto
  obtain u where u: "check_live_vector e tb [0..<nat (live_faults_number t)] t = Some u" "engine_more rs t u"
    using check_live_vector_more [OF tok sub] by blast
  have "handle_tb_translate_event e tb s = Some u"
    unfolding handle_tb_translate_event_def sz bind.bind_lunit t(1) u(1) ..
  with engine_more_trans [OF t(2) u(2)] show ?thesis by blast
qed

end
