(* ===== verification/Safety.thy ===== *)
theory Safety
  imports EngineRun
begin

text \<open>
  The plugin while the guest runs: the events QEMU delivers as a transition system, an invariant of
  all of the plugin's globals, and that no event leads to undefined behaviour.
\<close>

section \<open>Events\<close>

text \<open>
  QEMU announces the translation of a block, or runs a callback that was registered before, for a
  memory access with its kind and address.
\<close>

datatype event = Translation tb | Callback callback meminfo u64

fun run_callback ::
  "'g env \<Rightarrow> 'g io \<Rightarrow> callback \<Rightarrow> meminfo \<Rightarrow> u64 \<Rightarrow> ('g, 'z) plugin_state_scheme \<Rightarrow>
   ('g, 'z) plugin_state_scheme outcome option" where
  "run_callback e io (Trigger_insn_cb a r) info vaddr s = map_option Inr (trigger_insn_cb e r s)"
| "run_callback e io (Tb_exec_cb a r) info vaddr s = map_option Inr (tb_exec_cb e r s)"
| "run_callback e io (Tb_exec_data_event a p) info vaddr s = map_option Inr (tb_exec_data_event e p s)"
| "run_callback e io (Tb_exec_end_max_event a n) info vaddr s = tb_exec_end_max_event e io n s"
| "run_callback e io (Memaccess_data_cb a) info vaddr s = map_option Inr (memaccess_data_cb e info vaddr a s)"
| "run_callback e io (Tb_exec_end_cb a r) info vaddr s = tb_exec_end_cb e io r s"
| "run_callback e io (Tb_exec_start_cb a) info vaddr s = Some (Inr (tb_exec_start_cb e s))"

fun handle_event ::
  "'g env \<Rightarrow> 'g io \<Rightarrow> event \<Rightarrow> ('g, 'z) plugin_state_scheme \<Rightarrow>
   ('g, 'z) plugin_state_scheme outcome option" where
  "handle_event e io (Translation tb) s = map_option Inr (vcpu_translateblock_translation_event e tb s)"
| "handle_event e io (Callback c info vaddr) s = run_callback e io c info vaddr s"

text \<open>
  What QEMU may deliver in a state.  Translated blocks have an instruction; the accessed addresses
  are those for which the comparison of memory accesses is an order; the counter of executed blocks
  does not overflow.
\<close>

fun enabled :: "('g, 'z) tb_exec_state_scheme \<Rightarrow> event \<Rightarrow> bool" where
  "enabled s (Translation tb) = (tb_insns tb \<noteq> [])"
| "enabled s (Callback c info vaddr) =
     (c \<in> set (cbs s) \<and>
      (case c of
         Memaccess_data_cb a \<Rightarrow> (a, vaddr) \<in> low31
       | Tb_exec_data_event a p \<Rightarrow> num_exec_order s \<noteq> -1
       | _ \<Rightarrow> True))"

text \<open>A run, with the events that were delivered, in their order.\<close>

inductive plugin_run ::
  "'g env \<Rightarrow> 'g io \<Rightarrow> ('g, 'z) plugin_state_scheme \<Rightarrow> event list \<Rightarrow> ('g, 'z) plugin_state_scheme \<Rightarrow> bool"
  for e io s where
  start: "plugin_run e io s [] s"
| more: "plugin_run e io s evs t \<Longrightarrow> enabled t ev \<Longrightarrow> handle_event e io ev t = Some (Inr u) \<Longrightarrow>
    plugin_run e io s (evs @ [ev]) u"

inductive_cases plugin_run_startE: "plugin_run e io s [] t"

section \<open>The invariant\<close>

definition cb_ok :: "ref list \<Rightarrow> ref list \<Rightarrow> ref list \<Rightarrow> callback \<Rightarrow> bool" where
  "cb_ok rs es ts c \<longleftrightarrow>
     (case c of
        Trigger_insn_cb a r \<Rightarrow> r \<in> set rs
      | Tb_exec_cb a r \<Rightarrow> r \<in> set rs
      | Tb_exec_data_event a p \<Rightarrow> (\<forall>r. p = Some r \<longrightarrow> r \<in> set ts)
      | Tb_exec_end_cb a r \<Rightarrow> r \<in> set es
      | _ \<Rightarrow> True)"

definition collected ::
  "ref list \<Rightarrow> ref list \<Rightarrow> ref list \<Rightarrow> u64 list \<Rightarrow> ref list \<Rightarrow> ('g, 'z) plugin_state_scheme \<Rightarrow> bool" where
  "collected rs es ts as ms s \<longleftrightarrow>
     tb_refs s ts \<and> exec_log s as \<and> length as < 2 ^ 64 \<and> mem_refs s ms \<and>
     chain ep_next (end_point_heap s) (end_point s) es \<and> es \<noteq> [] \<and> pipes s \<noteq> None \<and>
     (tb_exec_order_ring_buffer s \<noteq> 0 \<longrightarrow> tb_exec_order_list s = None) \<and>
     (mem_map_infos s = None \<longrightarrow> mem_map_size s = 0) \<and>
     (\<forall>c \<in> set (cbs s). cb_ok rs es ts c)"

text \<open>Until the first block of the observed part is translated, only the start is waited for.\<close>

definition waiting :: "('g, 'z) plugin_state_scheme \<Rightarrow> bool" where
  "waiting s \<longleftrightarrow> live_faults_number s = 0 \<and> (\<forall>c \<in> set (cbs s). \<exists>a. c = Tb_exec_start_cb a)"

definition plugin_ok :: "ref list \<Rightarrow> ref list \<Rightarrow> ('g, 'z) plugin_state_scheme \<Rightarrow> bool" where
  "plugin_ok rs es s \<longleftrightarrow>
     engine_ok rs s \<and> budget rs s \<and> (first_tb s = 0 \<longrightarrow> waiting s) \<and>
     (\<exists>ts as ms. collected rs es ts as ms s)"

section \<open>What the invariant depends on\<close>

lemma plugin_fields_of_more:
  assumes "trigger_state.more s' = trigger_state.more s"
  shows "mem_info_list s' = mem_info_list s" "mem_info_heap s' = mem_info_heap s"
    "mem_avl_root s' = mem_avl_root s" "pipes s' = pipes s" "first_tb s' = first_tb s"
    "tb_counter s' = tb_counter s" "tb_counter_max s' = tb_counter_max s" "start_point s' = start_point s"
    "end_point s' = end_point s" "end_point_heap s' = end_point_heap s"
    "mem_map_infos s' = mem_map_infos s" "mem_map_size s' = mem_map_size s"
    "tb_info_enabled s' = tb_info_enabled s" "tb_exec_order_enabled s' = tb_exec_order_enabled s"
    "architecture s' = architecture s" "mem_info_list_enabled s' = mem_info_list_enabled s"
    "old_abort_action s' = old_abort_action s"
  using assms by (cases s, cases s', simp)+

lemma exec_log_same:
  assumes "exec_log s as" "mallocs s \<le> mallocs s'"
    and "tb_info_heap s' = tb_info_heap s"
    and "tb_exec_order_ring_buffer s' = tb_exec_order_ring_buffer s"
    and "tb_exec_order_list s' = tb_exec_order_list s" "tb_exec_heap s' = tb_exec_heap s"
    and "num_exec_order s' = num_exec_order s" "tb_exec_rb_list s' = tb_exec_rb_list s"
    and "tb_exec_rb_list_index s' = tb_exec_rb_list_index s"
  shows "exec_log s' as"
proof -
  have "exec_refs s' rs" if "exec_refs s rs" for rs
    by (rule exec_refs_mono [OF that assms(6,5,2)])
  then have "list_log s as \<Longrightarrow> list_log s' as"
    unfolding list_log_def exec_address_cong [OF assms(3)] assms(6) by blast
  moreover have "ring_log s as \<Longrightarrow> ring_log s' as"
    unfolding ring_log_def exec_address_cong [OF assms(3)] assms(8,9) .
  ultimately show ?thesis using assms(1,4,7) by (simp add: exec_log_def split: if_splits)
qed

lemma tb_refs_same:
  assumes "tb_refs s ts" "tb_info_list s' = tb_info_list s" "tb_info_heap s' = tb_info_heap s"
    and "tb_avl_root s' = tb_avl_root s" "mallocs s \<le> mallocs s'"
  shows "tb_refs s' ts"
proof (rule tb_refs_same_keys [OF assms(1,2,4)])
  show "tb_key s' = tb_key s" by (simp add: tb_key_def fun_eq_iff assms(3))
qed (simp_all add: assms)

lemma mem_refs_same:
  assumes "mem_refs s ms" "mem_info_list s' = mem_info_list s" "mem_info_heap s' = mem_info_heap s"
    and "mem_avl_root s' = mem_avl_root s" "mallocs s \<le> mallocs s'"
  shows "mem_refs s' ms"
proof -
  have "mem_key s' = mem_key s" by (simp add: mem_key_def fun_eq_iff assms(3))
  then show ?thesis using assms by (auto simp: mem_refs_def elim: below_mono)
qed

text \<open>The engine leaves the collected data alone.\<close>

lemma collected_engine:
  assumes "collected rs es ts as ms s" "engine_only s s'" "\<forall>c \<in> set (cbs s'). cb_ok rs es ts c"
  shows "collected rs es ts as ms s'"
proof -
  have only: "mallocs s \<le> mallocs s'" "tb_info_list s' = tb_info_list s" "tb_info_heap s' = tb_info_heap s"
    "tb_avl_root s' = tb_avl_root s" "tb_exec_order_ring_buffer s' = tb_exec_order_ring_buffer s"
    "tb_exec_order_list s' = tb_exec_order_list s" "tb_exec_heap s' = tb_exec_heap s"
    "num_exec_order s' = num_exec_order s" "tb_exec_rb_list s' = tb_exec_rb_list s"
    "tb_exec_rb_list_index s' = tb_exec_rb_list_index s"
    "trigger_state.more s' = trigger_state.more s"
    using assms(2) by (simp_all add: engine_only_def)
  note more = plugin_fields_of_more [OF only(11)]
  have c: "tb_refs s ts" "exec_log s as" "mem_refs s ms" using assms(1) by (simp_all add: collected_def)
  have "tb_refs s' ts" by (rule tb_refs_same [OF c(1) only(2,3,4,1)])
  moreover have "exec_log s' as" by (rule exec_log_same [OF c(2) only(1,3,5-10)])
  moreover have "mem_refs s' ms" by (rule mem_refs_same [OF c(3) more(1-3) only(1)])
  ultimately show ?thesis using assms(1,3) more only(5,6) unfolding collected_def by simp
qed

text \<open>The collections leave the engine alone.\<close>

lemma engine_ok_same:
  assumes "engine_ok rs s" "mallocs s \<le> mallocs s'"
    and "memdump s' = memdump s" "num_memdump s' = num_memdump s" "used_memdump s' = used_memdump s"
    and "first_registerdump s' = first_registerdump s" "register_heap s' = register_heap s" "arch s' = arch s"
    and "tb_faulted_list s' = tb_faulted_list s" "tb_faulted_heap s' = tb_faulted_heap s"
    and "active_triggers s' = active_triggers s" "max_triggers s' = max_triggers s"
    and "current_triggers s' = current_triggers s"
    and "first_fault s' = first_fault s" "fault_heap s' = fault_heap s"
    and "fault_trigger_addresses s' = fault_trigger_addresses s" "live_faults s' = live_faults s"
    and "fault_number s' = fault_number s" "live_faults_number s' = live_faults_number s"
  shows "engine_ok rs s' \<and> hits s' = hits s"
proof -
  have ok: "records_ok s" "faults_ok rs s" "vectors_ok rs s" using assms(1) by (simp_all add: engine_ok_def)
  have "records_ok s'" by (rule records_ok_cong [OF ok(1) assms(2-13)])
  moreover have "faults_ok rs s'" by (rule faults_ok_cong [OF ok(2) assms(2,14,15)])
  moreover have "vectors_ok rs s'" by (rule vectors_ok_cong [OF ok(3) assms(16-19)])
  ultimately show ?thesis using hits_cong [OF assms(15)] by (simp add: engine_ok_def)
qed

section \<open>What is recorded\<close>

text \<open>
  The run as the collections see it: the table of translated blocks, the addresses of the executed
  blocks in their order and the memory accesses.  The callback of a block belongs to its table entry.
\<close>

type_synonym record_of_run = "(u64 \<rightharpoonup> tb_information_msg) \<times> u64 list \<times> mem_info_msg list"

definition linked :: "('g, 'z) tb_info_state_scheme \<Rightarrow> callback \<Rightarrow> bool" where
  "linked s c \<longleftrightarrow> (\<forall>a r. c = Tb_exec_data_event a (Some r) \<longrightarrow> tb_key s r = Some a)"

definition recorded :: "('g, 'z) plugin_state_scheme \<Rightarrow> record_of_run \<Rightarrow> bool" where
  "recorded s x \<longleftrightarrow>
     (case x of (tab, as, accesses) \<Rightarrow>
        tb_table s = tab \<and> exec_log s as \<and> length as < 2 ^ 64 \<and> (\<exists>ms. mem_refs s ms \<and> mem_view s ms = accesses) \<and>
        (\<forall>c \<in> set (cbs s). linked s c))"

text \<open>What an event adds to the record; \<open>info\<close> tells whether block information is collected.\<close>

definition add_block :: "bool \<Rightarrow> tb \<Rightarrow> record_of_run \<Rightarrow> record_of_run" where
  "add_block info tb x =
     (case x of (tab, y) \<Rightarrow>
        (if info \<and> tab (tb_vaddr tb) = None then tab(tb_vaddr tb \<mapsto> block_msg tb) else tab, y))"

definition add_execution :: "u64 option \<Rightarrow> record_of_run \<Rightarrow> record_of_run" where
  "add_execution ao x =
     (case x of (tab, as, accesses) \<Rightarrow>
        (count_execution ao tab, as @ [case ao of None \<Rightarrow> 0 | Some a \<Rightarrow> a], accesses))"

definition add_access :: "meminfo \<Rightarrow> u64 \<Rightarrow> u64 \<Rightarrow> record_of_run \<Rightarrow> record_of_run" where
  "add_access info a pc x = (case x of (tab, as, accesses) \<Rightarrow> (tab, as, count_access info a pc accesses))"

fun record_event :: "bool \<Rightarrow> event \<Rightarrow> record_of_run \<Rightarrow> record_of_run" where
  "record_event info (Translation tb) x = add_block info tb x"
| "record_event info (Callback (Tb_exec_data_event a p) i v) x = add_execution (map_option (\<lambda>_. a) p) x"
| "record_event info (Callback (Memaccess_data_cb pc) i v) x = add_access i v pc x"
| "record_event info (Callback c i v) x = x"

lemma tb_table_same:
  assumes "tb_info_heap s' = tb_info_heap s" "tb_avl_root s' = tb_avl_root s"
  shows "tb_table s' = tb_table s" "tb_key s' = tb_key s" "linked s' = linked s"
proof -
  show k: "tb_key s' = tb_key s" by (simp add: tb_key_def fun_eq_iff assms(1))
  have "tb_lookup s' = tb_lookup s" by (simp add: tb_lookup_def k assms(2) fun_eq_iff split: option.split)
  then show "tb_table s' = tb_table s" by (simp add: tb_table_def assms(1) fun_eq_iff split: option.split)
  show "linked s' = linked s" by (simp add: linked_def k fun_eq_iff)
qed

text \<open>Steps that do not touch the collections keep the record.\<close>

lemma recorded_same:
  assumes "recorded s x" "mallocs s \<le> mallocs s'" "cbs s' = cbs s @ cs" "\<And>c. c \<in> set cs \<Longrightarrow> linked s c"
    and "tb_info_heap s' = tb_info_heap s" "tb_avl_root s' = tb_avl_root s"
    and "tb_exec_order_ring_buffer s' = tb_exec_order_ring_buffer s"
    and "tb_exec_order_list s' = tb_exec_order_list s" "tb_exec_heap s' = tb_exec_heap s"
    and "num_exec_order s' = num_exec_order s" "tb_exec_rb_list s' = tb_exec_rb_list s"
    and "tb_exec_rb_list_index s' = tb_exec_rb_list_index s"
    and "mem_info_list s' = mem_info_list s" "mem_info_heap s' = mem_info_heap s" "mem_avl_root s' = mem_avl_root s"
  shows "recorded s' x"
proof -
  obtain tab as accesses where x: "x = (tab, as, accesses)" by (metis prod_cases3)
  obtain ms where r: "tb_table s = tab" "exec_log s as" "mem_refs s ms" "mem_view s ms = accesses"
    "\<forall>c \<in> set (cbs s). linked s c" "length as < 2 ^ 64"
    using assms(1) by (auto simp: recorded_def x)
  have "exec_log s' as" by (rule exec_log_same [OF r(2) assms(2,5,7-12)])
  moreover have "mem_refs s' ms" by (rule mem_refs_same [OF r(3) assms(13-15,2)])
  moreover have "mem_view s' ms = accesses" using r(4) by (simp add: mem_view_def assms(14))
  moreover have "\<forall>c \<in> set (cbs s'). linked s' c"
    using r(5) assms(3,4) tb_table_same(3) [OF assms(5,6)] by auto
  ultimately show ?thesis using r(1,6) tb_table_same(1) [OF assms(5,6)] by (auto simp: recorded_def x)
qed

lemma recorded_engine:
  assumes "recorded s x" "engine_only s s'" "cbs s' = cbs s @ cs" "\<And>c. c \<in> set cs \<Longrightarrow> linked s c"
  shows "recorded s' x"
proof -
  have "trigger_state.more s' = trigger_state.more s" using assms(2) by (simp add: engine_only_def)
  note more = plugin_fields_of_more [OF this]
  show ?thesis
    by (rule recorded_same [OF assms(1) _ assms(3,4)]) (use assms(2) more in \<open>simp_all add: engine_only_def\<close>)
qed

lemma linked_if_ok: "cb_ok rs es [] c \<Longrightarrow> linked s c"
  by (auto simp: cb_ok_def linked_def)

section \<open>While the guest is observed\<close>

definition observing :: "ref list \<Rightarrow> ref list \<Rightarrow> ('g, 'z) plugin_state_scheme \<Rightarrow> bool" where
  "observing rs es s \<longleftrightarrow>
     engine_ok rs s \<and> budget rs s \<and> first_tb s \<noteq> 0 \<and> (\<exists>ts as ms. collected rs es ts as ms s)"

lemma observing_plugin_ok: "observing rs es s \<Longrightarrow> plugin_ok rs es s"
  by (simp add: observing_def plugin_ok_def)

text \<open>What no event but the end of the run and the start of the observation changes.\<close>

definition same_run :: "('g, 'z) plugin_state_scheme \<Rightarrow> ('g, 'z) plugin_state_scheme \<Rightarrow> bool" where
  "same_run s s' \<longleftrightarrow>
     tb_counter s' = tb_counter s \<and> tb_counter_max s' = tb_counter_max s \<and> start_point s' = start_point s \<and>
     end_point_heap s' = end_point_heap s"

text \<open>The settings, which never change; and no callback is ever taken back.\<close>

definition same_settings :: "('g, 'z) plugin_state_scheme \<Rightarrow> ('g, 'z) plugin_state_scheme \<Rightarrow> bool" where
  "same_settings s s' \<longleftrightarrow>
     tb_info_enabled s' = tb_info_enabled s \<and> tb_exec_order_enabled s' = tb_exec_order_enabled s \<and>
     tb_exec_order_ring_buffer s' = tb_exec_order_ring_buffer s \<and>
     mem_info_list_enabled s' = mem_info_list_enabled s \<and>
     architecture s' = architecture s \<and> pipes s' = pipes s \<and> old_abort_action s' = old_abort_action s \<and>
     set (cbs s) \<subseteq> set (cbs s')"

definition unchanged :: "record_of_run \<Rightarrow> record_of_run" where
  "unchanged x = x"

lemma unchanged_comp [simp]: "unchanged \<circ> f = f" "f \<circ> unchanged = f"
  by (simp_all add: unchanged_def fun_eq_iff)

text \<open>A step that adds \<open>f\<close> to what is recorded.\<close>

definition observe_step ::
  "ref list \<Rightarrow> ref list \<Rightarrow> (record_of_run \<Rightarrow> record_of_run) \<Rightarrow>
   ('g, 'z) plugin_state_scheme \<Rightarrow> ('g, 'z) plugin_state_scheme \<Rightarrow> bool" where
  "observe_step rs es f s s' \<longleftrightarrow>
     observing rs es s' \<and> same_run s s' \<and> same_settings s s' \<and> (\<forall>x. recorded s x \<longrightarrow> recorded s' (f x))"

lemma observe_step_refl: "observing rs es s \<Longrightarrow> observe_step rs es unchanged s s"
  by (simp add: observe_step_def same_run_def same_settings_def unchanged_def)

lemma observe_step_trans:
  "observe_step rs es f s t \<Longrightarrow> observe_step rs es g t u \<Longrightarrow> observe_step rs es (g \<circ> f) s u"
  by (auto simp: observe_step_def same_run_def same_settings_def simp del: split_paired_All)

lemma observe_step_then: "observe_step rs es f s t \<Longrightarrow> observe_step rs es unchanged t u \<Longrightarrow> observe_step rs es f s u"
  using observe_step_trans [of rs es f s t unchanged u] by simp

lemma observe_step_after: "observe_step rs es unchanged s t \<Longrightarrow> observe_step rs es f t u \<Longrightarrow> observe_step rs es f s u"
  using observe_step_trans [of rs es unchanged s t f u] by simp

lemma observe_step_observing: "observe_step rs es f s s' \<Longrightarrow> observing rs es s'"
  by (simp add: observe_step_def)

lemma observe_engine:
  assumes "observing rs es s" "engine_ok rs s'" "budget rs s'" "engine_only s s'"
    and "cbs s' = cbs s @ cs" "\<And>c ts. c \<in> set cs \<Longrightarrow> cb_ok rs es ts c"
  shows "observe_step rs es unchanged s s'"
proof -
  obtain ts as ms where c: "collected rs es ts as ms s" using assms(1) by (auto simp: observing_def)
  have "linked s c" if "c \<in> set cs" for c using linked_if_ok [OF assms(6)] that by blast
  then have rec: "recorded s' x" if "recorded s x" for x by (rule recorded_engine [OF that assms(4,5)])
  have "\<forall>c \<in> set (cbs s'). cb_ok rs es ts c" using c assms(5,6) by (auto simp: collected_def)
  then have "collected rs es ts as ms s'" by (rule collected_engine [OF c assms(4)])
  then have "\<exists>ts as ms. collected rs es ts as ms s'" by blast
  moreover have "trigger_state.more s' = trigger_state.more s" using assms(4) by (simp add: engine_only_def)
  note more = plugin_fields_of_more [OF this]
  ultimately show ?thesis
    using assms(1-5) more rec
    by (simp add: observe_step_def observing_def same_run_def same_settings_def engine_only_def unchanged_def)
qed

lemma observe_engine_run:
  "observing rs es s \<Longrightarrow> engine_run rs s s' \<Longrightarrow> cbs s' = cbs s \<Longrightarrow> observe_step rs es unchanged s s'"
  using observe_engine [of rs es s s' "[]"] by (simp add: engine_run_def)

lemma observe_engine_more:
  assumes "observing rs es s" "engine_more rs s s'"
  shows "observe_step rs es unchanged s s'"
proof -
  obtain cs where cs: "cbs s' = cbs s @ cs" "\<forall>c \<in> set cs. engine_cb rs c"
    using assms(2) by (auto simp: engine_more_def)
  have "budget rs s'"
    by (rule budget_hits [of rs s]) (use assms in \<open>simp_all add: observing_def engine_more_def\<close>)
  moreover have "cb_ok rs es ts c" if "c \<in> set cs" for c ts
    using cs(2) that by (auto simp: engine_cb_def cb_ok_def)
  ultimately show ?thesis using assms(2) by (intro observe_engine [OF assms(1) _ _ _ cs(1)]) (simp_all add: engine_more_def)
qed

lemma observe_register_at:
  assumes "observing rs es s" "\<And>i ts. cb_ok rs es ts (c i)"
  shows "observe_step rs es unchanged s (register_at test c tb s)"
proof -
  obtain cs where cs: "register_at test c tb s = s\<lparr>cbs := cbs s @ cs\<rparr>" "\<forall>x \<in> set cs. \<exists>i. x = c i"
    using register_at_cbs by blast
  let ?t = "s\<lparr>cbs := cbs s @ cs\<rparr>"
  have ok: "engine_ok rs s" using assms(1) by (simp add: observing_def)
  have "hits ?t = hits s" by (rule hits_cong) simp
  then have "budget rs ?t"
    by (rule_tac budget_hits [of rs s]) (use assms(1) in \<open>simp_all add: observing_def\<close>)
  moreover have "cb_ok rs es ts x" if "x \<in> set cs" for x ts
    using cs(2) that assms(2) by auto
  ultimately show ?thesis unfolding cs(1)
    by (rule_tac observe_engine [where cs = cs, OF assms(1)])
      (simp_all add: engine_only_def engine_cbs_ok [OF ok])
qed

text \<open>A change of the collected data.\<close>

lemma observe_collect:
  assumes "observing rs es s" "collected rs es ts as ms s'" "mallocs s \<le> mallocs s'"
    and "memdump s' = memdump s" "num_memdump s' = num_memdump s" "used_memdump s' = used_memdump s"
    and "first_registerdump s' = first_registerdump s" "register_heap s' = register_heap s" "arch s' = arch s"
    and "tb_faulted_list s' = tb_faulted_list s" "tb_faulted_heap s' = tb_faulted_heap s"
    and "active_triggers s' = active_triggers s" "max_triggers s' = max_triggers s"
    and "current_triggers s' = current_triggers s"
    and "first_fault s' = first_fault s" "fault_heap s' = fault_heap s"
    and "fault_trigger_addresses s' = fault_trigger_addresses s" "live_faults s' = live_faults s"
    and "fault_number s' = fault_number s" "live_faults_number s' = live_faults_number s"
    and "first_tb s' = first_tb s" "same_run s s'" "same_settings s s'"
    and "\<And>x. recorded s x \<Longrightarrow> recorded s' (f x)"
  shows "observe_step rs es f s s'"
proof -
  have e: "engine_ok rs s' \<and> hits s' = hits s"
    by (rule engine_ok_same [OF _ assms(3-20)]) (use assms(1) in \<open>simp add: observing_def\<close>)
  moreover have "budget rs s'"
    by (rule budget_hits [of rs s]) (use assms(1,20) e in \<open>simp_all add: observing_def\<close>)
  moreover have "\<exists>ts as ms. collected rs es ts as ms s'" using assms(2) by blast
  ultimately show ?thesis using assms(1,21-24) by (simp add: observe_step_def observing_def)
qed

lemma observe_register_cb:
  assumes "observing rs es s" "collected rs es ts as ms s" "cb_ok rs es ts c" "linked s c"
  shows "observe_step rs es unchanged s (register_cb c s)" "collected rs es ts as ms (register_cb c s)"
proof -
  have "engine_only s (register_cb c s)" by (simp add: engine_only_def register_cb_def)
  then show c: "collected rs es ts as ms (register_cb c s)"
    by (rule collected_engine [OF assms(2)])
      (use assms(2,3) in \<open>auto simp: register_cb_def collected_def\<close>)
  have "recorded (register_cb c s) x" if "recorded s x" for x
    by (rule recorded_same [OF that, where cs = "[c]"]) (use assms(4) in \<open>simp_all add: register_cb_def\<close>)
  then show "observe_step rs es unchanged s (register_cb c s)"
    by (intro observe_collect [OF assms(1) c])
      (auto simp: register_cb_def same_run_def same_settings_def unchanged_def)
qed

section \<open>Blocks, their executions and memory accesses\<close>

lemma later_fields_of_tb_info_more:
  assumes "tb_info_state.more s' = tb_info_state.more s"
  shows "tb_exec_order_ring_buffer s' = tb_exec_order_ring_buffer s"
    "tb_exec_order_list s' = tb_exec_order_list s" "tb_exec_heap s' = tb_exec_heap s"
    "num_exec_order s' = num_exec_order s" "tb_exec_rb_list s' = tb_exec_rb_list s"
    "tb_exec_rb_list_index s' = tb_exec_rb_list_index s" "tb_exec_state.more s' = tb_exec_state.more s"
  using assms by (cases s, cases s', simp)+

lemma later_fields_of_exec_more:
  assumes "tb_exec_state.more s' = tb_exec_state.more s"
  shows "tb_faulted_list s' = tb_faulted_list s" "tb_faulted_heap s' = tb_faulted_heap s"
    "active_triggers s' = active_triggers s" "max_triggers s' = max_triggers s"
    "current_triggers s' = current_triggers s" "done_triggers s' = done_triggers s"
    "fault_trigger_addresses s' = fault_trigger_addresses s" "live_faults s' = live_faults s"
    "fault_number s' = fault_number s" "live_faults_number s' = live_faults_number s"
    "trigger_state.more s' = trigger_state.more s"
  using assms by (cases s, cases s', simp)+

lemma observe_add_tb_info:
  assumes "plenty e" "observing rs es s" "collected rs es ts as ms s" "tb_insns tb \<noteq> []"
  shows "\<exists>r s' ts'. add_tb_info e tb s = Some (Some r, s') \<and> r \<in> set ts' \<and>
    collected rs es ts' as ms s' \<and> tb_key s' r = Some (tb_vaddr tb) \<and>
    observe_step rs es (add_block True tb) s s'"
proof -
  have c: "tb_refs s ts" "exec_log s as" "mem_refs s ms" using assms(3) by (simp_all add: collected_def)
  obtain r s' ts' where a: "add_tb_info e tb s = Some (Some r, s')" "tb_info_only s s'" "tb_refs s' ts'"
    "tb_lookup s' (tb_vaddr tb) = Some r" "\<forall>a q. tb_lookup s a = Some q \<longrightarrow> tb_lookup s' a = Some q"
    "\<forall>q a. tb_key s q = Some a \<longrightarrow> tb_key s' q = Some a"
    "tb_table s' = (if tb_table s (tb_vaddr tb) = None then (tb_table s)(tb_vaddr tb \<mapsto> block_msg tb) else tb_table s)"
    using add_tb_info_table [OF assms(1) c(1) assms(4)] by blast
  have r: "r \<in> set ts'" "tb_key s' r = Some (tb_vaddr tb)" using a(4) unfolding tb_lookup_iff [OF a(3)] by simp_all
  have sub: "set ts \<subseteq> set ts'"
  proof
    fix q
    assume q: "q \<in> set ts"
    from tb_refs_live [OF c(1) this] obtain n where "tb_info_heap s q = Some n" "tb_key s q = Some (tbi_base_address n)" by blast
    then have "tb_lookup s (tbi_base_address n) = Some q" unfolding tb_lookup_iff [OF c(1)] using q by simp
    then have "tb_lookup s' (tbi_base_address n) = Some q" using a(5) by blast
    then show "q \<in> set ts'" unfolding tb_lookup_iff [OF a(3)] by simp
  qed
  note m1 = tb_info_only_frame [OF a(2)]
  note m2 = later_fields_of_tb_info_more [OF m1(12)]
  note m3 = later_fields_of_exec_more [OF m2(7)]
  note m4 = plugin_fields_of_more [OF m3(11)]
  have "exec_log s' as" using exec_log_mono [OF c(2) _ a(2)] a(6) by blast
  moreover have "mem_refs s' ms" by (rule mem_refs_same [OF c(3) m4(1-3) m1(13)])
  moreover have "cb_ok rs es ts' cb" if "cb_ok rs es ts cb" for cb
    using that sub by (cases cb) (auto simp: cb_ok_def)
  ultimately have col: "collected rs es ts' as ms s'"
    using assms(3) a(3) m1(2) m2(1,2) m4 by (simp add: collected_def)
  have rec: "recorded s' (add_block True tb x)" if r: "recorded s x" for x
  proof -
    obtain tab bs accesses where x: "x = (tab, bs, accesses)" by (metis prod_cases3)
    obtain qs where q: "tb_table s = tab" "exec_log s bs" "mem_refs s qs" "mem_view s qs = accesses"
      "\<forall>c \<in> set (cbs s). linked s c" "length bs < 2 ^ 64"
      using r by (auto simp: recorded_def x)
    have "exec_log s' bs" using exec_log_mono [OF q(2) _ a(2)] a(6) by blast
    moreover have "mem_refs s' qs" by (rule mem_refs_same [OF q(3) m4(1-3) m1(13)])
    moreover have "mem_view s' qs = accesses" using q(4) by (simp add: mem_view_def m4(2))
    moreover have "\<forall>c \<in> set (cbs s'). linked s' c" using q(5) a(6) m1(2) by (simp add: linked_def)
    ultimately show ?thesis using q(1,6) a(7) by (auto simp: recorded_def x add_block_def)
  qed
  have "observe_step rs es (add_block True tb) s s'"
    by (rule observe_collect [OF assms(2) col]) (simp_all add: m1 m2 m3 m4 same_run_def same_settings_def rec)
  then show ?thesis using a(1) r col by blast
qed

lemma tb_exec_data_event_ring:
  "tb_exec_data_event e p s = Some s' \<Longrightarrow> tb_exec_order_ring_buffer s \<noteq> 0 \<Longrightarrow>
   tb_exec_order_list s' = tb_exec_order_list s"
  by (auto simp: tb_exec_data_event_def log_execution_def Let_def split: option.splits bind_splits)

lemma exec_room:
  assumes "exec_log s as" "length as < 2 ^ 64" "num_exec_order s \<noteq> -1"
  shows "length (as @ [x]) < 2 ^ 64"
proof (rule ccontr)
  assume "\<not> length (as @ [x]) < 2 ^ 64"
  then have "length as = 2 ^ 64 - 1" using assms(2) by simp
  moreover have "num_exec_order s = of_nat (length as)" using assms(1) by (simp add: exec_log_def)
  ultimately show False using assms(3) by simp
qed

lemma observe_exec_data:
  assumes "plenty e" "observing rs es s" "cb_ok rs es ts (Tb_exec_data_event a p)" "collected rs es ts as ms s"
    and "num_exec_order s \<noteq> -1" "Tb_exec_data_event a p \<in> set (cbs s)"
  shows "\<exists>s'. tb_exec_data_event e p s = Some s' \<and> observe_step rs es (add_execution (map_option (\<lambda>_. a) p)) s s'"
proof -
  have c: "tb_refs s ts" "exec_log s as" "mem_refs s ms" using assms(4) by (simp_all add: collected_def)
  have "\<exists>ao. p = Option.bind ao (tb_lookup s) \<and> known_block s ao \<and>
      (linked s (Tb_exec_data_event a p) \<longrightarrow> ao = map_option (\<lambda>_. a) p)"
  proof (cases p)
    case None
    then show ?thesis by (intro exI [of _ None]) (simp add: known_block_def)
  next
    case (Some r)
    then have r: "r \<in> set ts" using assms(3) by (simp add: cb_ok_def)
    from tb_refs_live [OF c(1) this] obtain n where n: "tb_info_heap s r = Some n" "tb_key s r = Some (tbi_base_address n)" by blast
    then have "tb_lookup s (tbi_base_address n) = Some r" unfolding tb_lookup_iff [OF c(1)] using r by simp
    then show ?thesis using Some n(2)
      by (intro exI [of _ "Some (tbi_base_address n)"]) (simp add: known_block_def linked_def)
  qed
  then obtain ao where ao: "p = Option.bind ao (tb_lookup s)" "known_block s ao"
    "linked s (Tb_exec_data_event a p) \<longrightarrow> ao = map_option (\<lambda>_. a) p" by blast
  let ?x = "case ao of None \<Rightarrow> 0 | Some a \<Rightarrow> a"
  obtain s' where s': "tb_exec_data_event e p s = Some s'" "exec_only s s'" "tb_refs s' ts"
    "tb_lookup s' = tb_lookup s" "tb_table s' = count_execution ao (tb_table s)" "exec_log s' (as @ [?x])"
    using tb_exec_data_event_log [OF assms(1) c(1,2) ao(2)] ao(1) by blast
  have m2: "tb_exec_state.more s' = tb_exec_state.more s" using s'(2) by (simp add: exec_only_def)
  note m3 = later_fields_of_exec_more [OF m2]
  note m4 = plugin_fields_of_more [OF m3(11)]
  have le: "mallocs s \<le> mallocs s'" using s'(2) by (simp add: exec_only_def)
  then have "mem_refs s' ms" by (rule mem_refs_same [OF c(3) m4(1-3)])
  moreover have "length (as @ [?x]) < 2 ^ 64"
    by (rule exec_room [OF c(2) _ assms(5)]) (use assms(4) in \<open>simp add: collected_def\<close>)
  moreover have "tb_exec_order_ring_buffer s \<noteq> 0 \<longrightarrow> tb_exec_order_list s' = None"
    using tb_exec_data_event_ring [OF s'(1)] assms(4) by (auto simp: collected_def)
  ultimately have col: "collected rs es ts (as @ [?x]) ms s'"
    using assms(4) s' m4 by (simp add: collected_def exec_only_def)
  have key: "tb_key s' q = Some b" if "tb_key s q = Some b" "q \<in> set ts" for q b
  proof -
    have "tb_lookup s' b = Some q" using that s'(4) tb_lookup_iff [OF c(1)] by simp
    then show ?thesis unfolding tb_lookup_iff [OF s'(3)] by simp
  qed
  have rec: "recorded s' (add_execution (map_option (\<lambda>_. a) p) x)" if r: "recorded s x" for x
  proof -
    obtain tab bs accesses where x: "x = (tab, bs, accesses)" by (metis prod_cases3)
    obtain qs where q: "tb_table s = tab" "exec_log s bs" "mem_refs s qs" "mem_view s qs = accesses"
      "\<forall>c \<in> set (cbs s). linked s c" "length bs < 2 ^ 64"
      using r by (auto simp: recorded_def x)
    have ao': "ao = map_option (\<lambda>_. a) p" using ao(3) q(5) assms(6) by blast
    obtain s'' where "tb_exec_data_event e p s = Some s''" "exec_log s'' (bs @ [?x])"
      using tb_exec_data_event_log [OF assms(1) c(1) q(2) ao(2)] ao(1) by blast
    then have "exec_log s' (bs @ [?x])" using s'(1) by simp
    moreover have "mem_refs s' qs" by (rule mem_refs_same [OF q(3) m4(1-3) le])
    moreover have "mem_view s' qs = accesses" using q(4) by (simp add: mem_view_def m4(2))
    moreover have "linked s' c" if "c \<in> set (cbs s')" for c
      using q(5) that key assms(4) s'(2)
      by (fastforce simp: linked_def collected_def cb_ok_def exec_only_def)
    ultimately show ?thesis using q(1) s'(5) exec_room [OF q(2,6) assms(5)] by (auto simp: recorded_def x add_execution_def ao')
  qed
  have "observe_step rs es (add_execution (map_option (\<lambda>_. a) p)) s s'"
    by (rule observe_collect [OF assms(2) col])
      (use s'(2) in \<open>simp_all add: m3 m4 same_run_def same_settings_def exec_only_def rec\<close>)
  with s'(1) show ?thesis by blast
qed

lemma observe_memaccess:
  assumes "plenty e" "observing rs es s" "(pc, a) \<in> low31"
  shows "\<exists>s'. memaccess_data_cb e info a pc s = Some s' \<and> observe_step rs es (add_access info a pc) s s'"
proof -
  obtain ts as ms where col: "collected rs es ts as ms s" using assms(2) by (auto simp: observing_def)
  then have c: "tb_refs s ts" "exec_log s as" "mem_refs s ms" by (simp_all add: collected_def)
  obtain s' ms' where s': "memaccess_data_cb e info a pc s = Some s'" "mem_only s s'" "mem_refs s' ms'"
    using memaccess_ok [OF assms(1) c(3) assms(3)] by blast
  obtain k l h t where u: "mallocs s \<le> k"
    "s' = s\<lparr>mallocs := k, mem_info_list := l, mem_info_heap := h, mem_avl_root := t\<rparr>"
    using s'(2) by (auto simp: mem_only_def)
  have "tb_refs s' ts" by (rule tb_refs_same [OF c(1)]) (simp_all add: u)
  moreover have "exec_log s' as" by (rule exec_log_same [OF c(2)]) (simp_all add: u)
  ultimately have col': "collected rs es ts as ms' s'"
    using col s'(3) by (simp add: collected_def u(2))
  have rec: "recorded s' (add_access info a pc x)" if r: "recorded s x" for x
  proof -
    obtain tab bs accesses where x: "x = (tab, bs, accesses)" by (metis prod_cases3)
    obtain qs where q: "tb_table s = tab" "exec_log s bs" "mem_refs s qs" "mem_view s qs = accesses"
      "\<forall>c \<in> set (cbs s). linked s c" "length bs < 2 ^ 64"
      using r by (auto simp: recorded_def x)
    obtain s'' qs' where "memaccess_data_cb e info a pc s = Some s''" "mem_refs s'' qs'"
      "mem_view s'' qs' = count_access info a pc accesses"
      using memaccess_ok [OF assms(1) q(3) assms(3)] q(4) by blast
    then have m: "mem_refs s' qs'" "mem_view s' qs' = count_access info a pc accesses" using s'(1) by simp_all
    have "exec_log s' bs" by (rule exec_log_same [OF q(2)]) (simp_all add: u)
    moreover have "tb_table s' = tab" "linked s' = linked s"
      using q(1) tb_table_same [of s' s] by (simp_all add: u(2))
    moreover have "cbs s' = cbs s" by (simp add: u(2))
    ultimately show ?thesis using q(5,6) m by (auto simp: recorded_def x add_access_def)
  qed
  have "observe_step rs es (add_access info a pc) s s'"
    by (rule observe_collect [OF assms(2) col']) (erule rec | simp add: u same_run_def same_settings_def)+
  with s'(1) show ?thesis by blast
qed

section \<open>Translation\<close>

text \<open>The callbacks of a block: its execution, its counting and its memory accesses.\<close>

definition block_registered :: "tb \<Rightarrow> ('g, 'z) plugin_state_scheme \<Rightarrow> ('g, 'z) plugin_state_scheme \<Rightarrow> bool" where
  "block_registered tb s s' \<longleftrightarrow>
     Tb_exec_end_max_event (tb_vaddr tb) (of_nat (length (tb_insns tb))) \<in> set (cbs s') \<and>
     (tb_exec_order_enabled s = 1 \<longrightarrow>
        (\<exists>p. Tb_exec_data_event (tb_vaddr tb) p \<in> set (cbs s') \<and> (p \<noteq> None \<longleftrightarrow> tb_info_enabled s = 1))) \<and>
     (mem_info_list_enabled s = 1 \<longrightarrow>
        (\<forall>i \<in> set (tb_insns tb). Memaccess_data_cb (insn_vaddr i) \<in> set (cbs s')))"

lemma block_registered_mono:
  "block_registered tb s t \<Longrightarrow> set (cbs t) \<subseteq> set (cbs u) \<Longrightarrow> block_registered tb s u"
  by (auto simp: block_registered_def)

lemma set_register_at:
  "set (cbs (register_at test c tb s)) = set (cbs s) \<union> c ` {i \<in> set (tb_insns tb). test i}"
proof -
  have "set (cbs (fold (\<lambda>i s. if test i then register_cb (c i) s else s) is s)) = set (cbs s) \<union> c ` {i \<in> set is. test i}"
    for "is"
    by (induction "is" arbitrary: s) (auto simp: register_cb_def)
  then show ?thesis by (simp add: register_at_def)
qed

lemma observe_translate_data:
  assumes "plenty e" "observing rs es s" "tb_insns tb \<noteq> []"
  shows "\<exists>s'. handle_tb_translate_data e tb s = Some s' \<and> block_registered tb s s' \<and>
    observe_step rs es (add_block (tb_info_enabled s = 1) tb) s s'"
proof -
  obtain ts as ms where col: "collected rs es ts as ms s" using assms(2) by (auto simp: observing_def)
  have "\<exists>p t ts'. (if tb_info_enabled s = 1 then add_tb_info e tb s else Some (None, s)) = Some (p, t) \<and>
      collected rs es ts' as ms t \<and> observe_step rs es (add_block (tb_info_enabled s = 1) tb) s t \<and>
      cb_ok rs es ts' (Tb_exec_data_event (tb_vaddr tb) p) \<and> linked t (Tb_exec_data_event (tb_vaddr tb) p) \<and>
      (p \<noteq> None \<longleftrightarrow> tb_info_enabled s = 1)"
  proof (cases "tb_info_enabled s = 1")
    case True
    obtain r t ts' where "add_tb_info e tb s = Some (Some r, t)" "r \<in> set ts'" "collected rs es ts' as ms t"
      "tb_key t r = Some (tb_vaddr tb)" "observe_step rs es (add_block True tb) s t"
      using observe_add_tb_info [OF assms(1,2) col assms(3)] by blast
    with True show ?thesis
      by (intro exI [of _ "Some r"] exI [of _ t] exI [of _ ts']) (simp add: cb_ok_def linked_def)
  next
    case False
    have "add_block False tb = unchanged" by (simp add: add_block_def unchanged_def fun_eq_iff)
    then have "observe_step rs es (add_block False tb) s s" using observe_step_refl [OF assms(2)] by (simp only:)
    with False col show ?thesis
      by (intro exI [of _ None] exI [of _ s] exI [of _ ts]) (simp add: cb_ok_def linked_def)
  qed
  then obtain p t ts' where t: "(if tb_info_enabled s = 1 then add_tb_info e tb s else Some (None, s)) = Some (p, t)"
    "collected rs es ts' as ms t" "observe_step rs es (add_block (tb_info_enabled s = 1) tb) s t"
    "cb_ok rs es ts' (Tb_exec_data_event (tb_vaddr tb) p)" "linked t (Tb_exec_data_event (tb_vaddr tb) p)" "p \<noteq> None \<longleftrightarrow> tb_info_enabled s = 1"
    by blast
  let ?u = "if tb_exec_order_enabled t = 1 then register_cb (Tb_exec_data_event (tb_vaddr tb) p) t else t"
  have u: "observe_step rs es unchanged t ?u" "collected rs es ts' as ms ?u"
    using observe_register_cb [OF observe_step_observing [OF t(3)] t(2,4,5)] t(2)
      observe_step_refl [OF observe_step_observing [OF t(3)]] by simp_all
  let ?v = "register_cb (Tb_exec_end_max_event (tb_vaddr tb) (of_nat (length (tb_insns tb)))) ?u"
  have v: "observe_step rs es unchanged ?u ?v"
    by (rule observe_register_cb(1) [OF observe_step_observing [OF u(1)] u(2)]) (simp_all add: cb_ok_def linked_def)
  let ?w = "if mem_info_list_enabled ?v = 1
    then register_at (\<lambda>_. True) (\<lambda>i. Memaccess_data_cb (insn_vaddr i)) tb ?v else ?v"
  have w: "observe_step rs es unchanged ?v ?w"
    using observe_register_at [OF observe_step_observing [OF v], of "\<lambda>i. Memaccess_data_cb (insn_vaddr i)"]
      observe_step_refl [OF observe_step_observing [OF v]] by (simp add: cb_ok_def)
  have "handle_tb_translate_data e tb s = Some ?w"
    unfolding handle_tb_translate_data_def t(1) bind.bind_lunit prod.case Let_def ..
  moreover have "block_registered tb s ?w"
    using t(3,6) by (auto simp: block_registered_def set_register_at register_cb_def observe_step_def same_settings_def)
  ultimately show ?thesis
    using observe_step_then [OF t(3) observe_step_then [OF u(1) observe_step_then [OF v w]]] by blast
qed

lemma observe_end_points:
  assumes "tb_insns tb \<noteq> []"
  shows "observing rs es s \<Longrightarrow> set qs \<subseteq> set es \<Longrightarrow>
    \<exists>s'. fold (\<lambda>r. register_end_point tb r (f r)) qs (Some s) = Some s' \<and> observe_step rs es unchanged s s'"
proof (induction qs arbitrary: s)
  case Nil
  from observe_step_refl [OF Nil(1)] show ?case by (intro exI conjI) (simp, assumption)
next
  case (Cons q qs)
  obtain sz where sz: "calculate_bytesize_instructions tb = Some sz"
    using bytesize_Some [OF assms] by blast
  have reg: "observe_step rs es unchanged s (register_at test (\<lambda>i. Tb_exec_end_cb (insn_vaddr i) q) tb s)" for test
    by (rule observe_register_at [OF Cons.prems(1)]) (use Cons.prems(2) in \<open>simp add: cb_ok_def\<close>)
  let ?a = "trig_address (ep_location (f q))"
  let ?t = "if trignum (ep_location (f q)) = 3 \<and> tb_vaddr tb \<le> ?a \<and> tb_vaddr tb + sz > ?a
    then register_at (covers_insn ?a) (\<lambda>i. Tb_exec_end_cb (insn_vaddr i) q) tb s else s"
  have t: "register_end_point tb q (f q) (Some s) = Some ?t" "observe_step rs es unchanged s ?t"
    using sz reg observe_step_refl [OF Cons.prems(1)] by (simp_all add: register_end_point_def Let_def)
  obtain u where "fold (\<lambda>r. register_end_point tb r (f r)) qs (Some ?t) = Some u" "observe_step rs es unchanged ?t u"
    using Cons.IH [OF observe_step_observing [OF t(2)]] Cons.prems(2) by auto
  with t observe_step_then [OF t(2)] show ?case by auto
qed

text \<open>The translation of a block while the guest is observed, and of the first one.\<close>

lemma translation_safe:
  assumes "plenty e" "mem_sane e" "plugin_ok rs es s" "tb_insns tb \<noteq> []" "trignum (start_point s) \<noteq> 3"
  shows "\<exists>s'. vcpu_translateblock_translation_event e tb s = Some s' \<and>
    block_registered tb s s' \<and> observe_step rs es (add_block (tb_info_enabled s = 1) tb) s s'"
proof -
  obtain ts as ms where col: "collected rs es ts as ms s" using assms(3) by (auto simp: plugin_ok_def)
  have ok: "engine_ok rs s" "budget rs s" using assms(3) by (simp_all add: plugin_ok_def)
  have "\<exists>t. (if first_tb s \<noteq> 0 then handle_tb_translate_event e tb s
             else handle_first_tb_fault_insertion e (s\<lparr>first_tb := 1\<rparr>)) = Some t \<and> observe_step rs es unchanged s t"
  proof (cases "first_tb s = 0")
    case True
    let ?s = "s\<lparr>first_tb := 1\<rparr>"
    have eok: "engine_ok rs ?s \<and> hits ?s = hits s" by (rule engine_ok_same [OF ok(1)]) simp_all
    have bud: "budget rs ?s" by (rule budget_hits [OF ok(2)]) (use eok in simp_all)
    have live: "live_faults_number ?s = 0" using assms(3) True by (simp add: plugin_ok_def waiting_def)
    have c: "tb_refs s ts" "exec_log s as" "mem_refs s ms" using col by (simp_all add: collected_def)
    have "collected rs es ts as ms ?s"
      using col tb_refs_same [OF c(1), of ?s] exec_log_same [OF c(2), of ?s] mem_refs_same [OF c(3), of ?s]
      by (simp add: collected_def)
    then have obs: "observing rs es ?s" using eok bud unfolding observing_def by auto
    have "recorded ?s x" if "recorded s x" for x by (rule recorded_same [OF that, where cs = "[]"]) simp_all
    with obs have first: "observe_step rs es unchanged s ?s"
      by (simp add: observe_step_def same_run_def same_settings_def unchanged_def)
    obtain t where t: "handle_first_tb_fault_insertion e ?s = Some t" "engine_run rs ?s t" "cbs t = cbs ?s"
      using handle_first_run [OF assms(1,2) conjunct1 [OF eok] live] by blast
    from observe_engine_run [OF obs t(2,3)] have "observe_step rs es unchanged ?s t" .
    with True t(1) observe_step_then [OF first this] show ?thesis by auto
  next
    case False
    then have obs: "observing rs es s" using ok col by (auto simp: observing_def)
    obtain t where "handle_tb_translate_event e tb s = Some t" "engine_more rs s t"
      using handle_tb_translate_event_more [OF ok(1) assms(4)] by blast
    with observe_engine_more [OF obs] False show ?thesis by auto
  qed
  then obtain t where t: "(if first_tb s \<noteq> 0 then handle_tb_translate_event e tb s
             else handle_first_tb_fault_insertion e (s\<lparr>first_tb := 1\<rparr>)) = Some t" "observe_step rs es unchanged s t"
    by blast
  have tobs: "observing rs es t" by (rule observe_step_observing [OF t(2)])
  have info: "tb_info_enabled t = tb_info_enabled s" using t(2) by (simp add: observe_step_def same_settings_def)
  obtain u where u: "handle_tb_translate_data e tb t = Some u" "block_registered tb t u"
    "observe_step rs es (add_block (tb_info_enabled s = 1) tb) t u"
    using observe_translate_data [OF assms(1) tobs assms(4)] unfolding info by blast
  have uobs: "observing rs es u" by (rule observe_step_observing [OF u(3)])
  then have ubud: "budget rs u" and uok: "engine_ok rs u" by (simp_all add: observing_def)
  obtain v where v: "check_tb_faulted e tb u = Some v" "engine_step rs u v"
    using check_tb_faulted_step [OF uok assms(4)] by blast
  have vo: "observe_step rs es unchanged u v"
    by (rule observe_engine_run [OF uobs engine_run_step [OF v(2) ubud]]) (use v(2) in \<open>simp add: engine_step_def\<close>)
  have vobs: "observing rs es v" by (rule observe_step_observing [OF vo])
  then have ch: "chain ep_next (end_point_heap v) (end_point v) es" by (auto simp: observing_def collected_def)
  obtain w where w: "fold (\<lambda>r. register_end_point tb r (the (end_point_heap v r))) es (Some v) = Some w"
    "observe_step rs es unchanged v w"
    using observe_end_points [where qs = es and f = "\<lambda>r. the (end_point_heap v r)", OF assms(4) vobs] by blast
  have "vcpu_translateblock_translation_event e tb s = Some w"
    unfolding vcpu_translateblock_translation_event_def if_P [OF assms(5)] t(1) u(1) v(1) bind.bind_lunit
      walk_chain [OF ch] w(1) ..
  moreover have "observe_step rs es (add_block (tb_info_enabled s = 1) tb) s w"
    by (rule observe_step_after [OF t(2) observe_step_then [OF u(3) observe_step_then [OF vo w(2)]]])
  moreover have "set (cbs u) \<subseteq> set (cbs w)"
    using observe_step_then [OF vo w(2)] by (simp add: observe_step_def same_settings_def)
  then have "block_registered tb t w" by (rule block_registered_mono [OF u(2)])
  then have "block_registered tb s w"
    using t(2) by (simp add: block_registered_def observe_step_def same_settings_def)
  ultimately show ?thesis by blast
qed

end
