(* ===== verification/PipeCorrect.thy ===== *)
theory PipeCorrect
  imports EndDump
begin

text \<open>
  The pipes: what arrives when a message is sent with its length in front, what happens when it is
  cut short, and that a message is written completely.
\<close>

section \<open>Pipes\<close>

text \<open>
  Contracts of \<^verbatim>\<open>read\<close> and \<^verbatim>\<open>write\<close> on a pipe.  \<open>content g\<close> is what is still to be read in the state
  \<open>g\<close>: a call delivers at least one of those bytes and at most as many as asked for, and nothing at
  the end.  \<open>sent g\<close> is what was written so far.
\<close>

definition reads_from :: "'g io \<Rightarrow> int \<Rightarrow> ('g \<Rightarrow> u8 list) \<Rightarrow> bool" where
  "reads_from io fd content \<longleftrightarrow>
     (\<forall>n g. 0 < n \<longrightarrow>
        (case io_read io fd n g of
           (ret, bytes, g') \<Rightarrow>
             ret = int (length bytes) \<and> length bytes \<le> n \<and> content g = bytes @ content g' \<and>
             (content g \<noteq> [] \<longrightarrow> bytes \<noteq> [])))"

definition writes_to :: "'g io \<Rightarrow> int \<Rightarrow> ('g \<Rightarrow> u8 list) \<Rightarrow> bool" where
  "writes_to io fd sent \<longleftrightarrow>
     (\<forall>str g. str \<noteq> [] \<longrightarrow>
        (case io_write io fd str g of
           (ret, g') \<Rightarrow> 0 < ret \<and> ret \<le> int (length str) \<and> sent g' = sent g @ take (nat ret) str))"

lemma reads_fromD:
  assumes "reads_from io fd content" "0 < n"
  shows "\<exists>bytes g'. io_read io fd n g = (int (length bytes), bytes, g') \<and> length bytes \<le> n \<and>
    content g = bytes @ content g' \<and> (content g \<noteq> [] \<longrightarrow> bytes \<noteq> [])"
proof -
  obtain ret bytes g' where r: "io_read io fd n g = (ret, bytes, g')" by (metis prod_cases3)
  have c: "ret = int (length bytes)" "length bytes \<le> n" "content g = bytes @ content g'"
    "content g \<noteq> [] \<longrightarrow> bytes \<noteq> []"
    using assms(1) [unfolded reads_from_def, rule_format, OF assms(2), of g]
    unfolding r prod.case by - (elim conjE, assumption)+
  have "io_read io fd n g = (int (length bytes), bytes, g')" using r c(1) by simp
  with c(2-4) show ?thesis by blast
qed

section \<open>A message is read completely\<close>

lemma readout_loop_delivers:
  assumes "reads_from io fd content" "unat n < 2 ^ 31"
  shows "content g = payload @ rest \<Longrightarrow> length buff + length payload = unat n \<Longrightarrow>
    \<exists>g'. readout_loop io fd n buff (int (length payload)) (int (length buff)) g =
      Some (int (unat n), buff @ payload, g') \<and> content g' = rest"
proof (induction payload arbitrary: buff g rule: length_induct)
  case (1 payload)
  have small: "length buff < 2 ^ 64" "length payload < 2 ^ 64" using "1.prems"(2) assms(2) by simp_all
  have total: "of_int (int (length buff)) < n \<longleftrightarrow> length buff < unat n"
    using small(1) by (simp add: word_less_nat_alt unat_of_nat take_bit_nat_eq_self)
  show ?case
  proof (cases payload)
    case Nil
    then show ?thesis using total "1.prems" by (subst readout_loop.simps) simp
  next
    case (Cons c cs)
    have ask: "unat (of_int (int (length payload)) :: u64) = length payload"
      using small(2) by (simp add: unat_of_nat take_bit_nat_eq_self)
    have "0 < length payload" using Cons by simp
    then obtain bytes g1 where r: "io_read io fd (length payload) g = (int (length bytes), bytes, g1)"
      "length bytes \<le> length payload" "content g = bytes @ content g1" "content g \<noteq> [] \<longrightarrow> bytes \<noteq> []"
      using reads_fromD [OF assms(1)] by blast
    have ne: "bytes \<noteq> []" using r(4) "1.prems"(1) Cons by simp
    have "take (length bytes) (payload @ rest) = bytes" using r(3) "1.prems"(1) by (metis append_eq_conv_conj)
    then have take: "take (length bytes) payload = bytes" using r(2) by simp
    let ?left = "drop (length bytes) payload"
    have split: "payload = bytes @ ?left" using take append_take_drop_id [of "length bytes" payload] by simp
    have "bytes @ ?left @ rest = bytes @ content g1" using r(3) "1.prems"(1) split by (metis append.assoc)
    then have c1: "content g1 = ?left @ rest" by simp
    have len: "length ?left < length payload" using ne Cons by (simp add: length_greater_0_conv)
    have "length (buff @ bytes) + length ?left = unat n" using "1.prems"(2) r(2) by simp
    then obtain g' where g': "readout_loop io fd n (buff @ bytes) (int (length ?left)) (int (length (buff @ bytes))) g1 =
        Some (int (unat n), (buff @ bytes) @ ?left, g')" "content g' = rest"
      using "1.IH" len c1 by blast
    have go: "of_int (int (length buff)) < n" using total "1.prems"(2) Cons by simp
    have room: "\<not> length buff + length bytes > unat n" using "1.prems"(2) r(2) by simp
    have got: "int (length bytes) \<noteq> -1" by simp
    have left: "int (length payload) - int (length bytes) = int (length ?left)"
      "int (length buff) + int (length bytes) = int (length (buff @ bytes))" using r(2) by simp_all
    have all: "(buff @ bytes) @ ?left = buff @ payload" using split by simp
    have "readout_loop io fd n buff (int (length payload)) (int (length buff)) g =
        readout_loop io fd n (buff @ bytes) (int (length ?left)) (int (length (buff @ bytes))) g1"
      by (subst readout_loop.simps)
        (simp only: if_P [OF go] ask r(1) prod.case if_not_P [OF got] if_not_P [OF room] left)
    with g' all show ?thesis by (simp only:) blast
  qed
qed

lemma readout_size_loop_delivers:
  assumes "reads_from io fd content"
  shows "content g = digits @ 10 # rest \<Longrightarrow> 10 \<notin> set digits \<Longrightarrow>
    \<exists>g'. readout_size_loop io fd str g = Some (strtoumax (str @ digits @ [10]), g') \<and> content g' = rest"
proof (induction digits arbitrary: str g)
  case Nil
  obtain bytes g1 where r: "io_read io fd 1 g = (int (length bytes), bytes, g1)" "length bytes \<le> 1"
      "content g = bytes @ content g1" "content g \<noteq> [] \<longrightarrow> bytes \<noteq> []"
    using reads_fromD [OF assms zero_less_one, of g] by blast
  from r(2-4) Nil.prems(1) have "bytes = [10]" "content g1 = rest" by (cases bytes; simp)+
  then show ?case using r(1) by (subst readout_size_loop.simps) simp
next
  case (Cons d ds)
  obtain bytes g1 where r: "io_read io fd 1 g = (int (length bytes), bytes, g1)" "length bytes \<le> 1"
      "content g = bytes @ content g1" "content g \<noteq> [] \<longrightarrow> bytes \<noteq> []"
    using reads_fromD [OF assms zero_less_one, of g] by blast
  from r(2-4) Cons.prems(1) have b: "bytes = [d]" "content g1 = ds @ 10 # rest" by (cases bytes; simp)+
  obtain g' where "readout_size_loop io fd (str @ [d]) g1 = Some (strtoumax ((str @ [d]) @ ds @ [10]), g')"
    "content g' = rest"
    using Cons.IH [OF b(2), of "str @ [d]"] Cons.prems(2) by auto
  then show ?case using r(1) b(1) Cons.prems(2) by (subst readout_size_loop.simps) simp
qed

section \<open>The length in decimal\<close>

definition ascii :: "string \<Rightarrow> u8 list" where
  "ascii str = map of_char str"

lemma ascii_digit:
  "d < 10 \<Longrightarrow> of_char (''0123456789'' ! d) = (of_nat (48 + d) :: u8)"
proof -
  have "\<forall>d < 10. of_char (''0123456789'' ! d) = (of_nat (48 + d) :: u8)" by code_simp
  then show "d < 10 \<Longrightarrow> ?thesis" by blast
qed

lemma digit_range: "d < 10 \<Longrightarrow> 48 \<le> (of_nat (48 + d) :: u8) \<and> (of_nat (48 + d) :: u8) \<le> 57"
proof -
  have "\<forall>d < 10. 48 \<le> (of_nat (48 + d) :: u8) \<and> (of_nat (48 + d) :: u8) \<le> 57" by code_simp
  then show "d < 10 \<Longrightarrow> ?thesis" by blast
qed

lemma digit_of: "d < 10 \<Longrightarrow> digit (of_nat (48 + d)) = d"
proof -
  have "\<forall>d < 10. digit (of_nat (48 + d)) = d" by code_simp
  then show "d < 10 \<Longrightarrow> ?thesis" by blast
qed

definition decimals :: "u8 list \<Rightarrow> nat \<Rightarrow> bool" where
  "decimals ds n \<longleftrightarrow>
     (\<forall>c \<in> set ds. 48 \<le> c \<and> c \<le> 57) \<and> ds \<noteq> [] \<and> (0 < n \<longrightarrow> hd ds \<noteq> 48) \<and>
     foldl (\<lambda>n c. n * 10 + digit c) 0 ds = n"

lemma decimal_decimals: "decimals (ascii (decimal n)) n"
proof (induction n rule: decimal.induct)
  case (1 n)
  show ?case
  proof (cases "n < 10")
    case True
    have "\<forall>d < 10. 0 < d \<longrightarrow> (of_nat (48 + d) :: u8) \<noteq> 48" by code_simp
    with True show ?thesis
      using ascii_digit [of n] digit_range [of n] digit_of [of n]
      by (subst decimal.simps) (simp add: decimals_def ascii_def)
  next
    case False
    have m: "n mod 10 < 10" by simp
    have "decimals (ascii (decimal (n div 10))) (n div 10)" using 1 False by blast
    moreover have "0 < n div 10" using False by simp
    moreover have "decimal n = decimal (n div 10) @ [''0123456789'' ! (n mod 10)]"
      using False by (subst decimal.simps) simp
    ultimately show ?thesis
      using ascii_digit [OF m] digit_range [OF m] digit_of [OF m]
      by (simp add: decimals_def ascii_def)
  qed
qed

lemma decimal_char:
  assumes "48 \<le> c" "c \<le> (57 :: u8)"
  shows "c \<noteq> 0" "c \<noteq> 10" "\<not> is_space c" "c \<noteq> 45" "c \<noteq> 43" "digit c < 10"
proof -
  have c: "48 \<le> unat c" "unat c \<le> 57" using assms by (simp_all add: word_le_nat_alt)
  then show "c \<noteq> 0" "c \<noteq> 10" "c \<noteq> 45" "c \<noteq> 43" by auto
  show "\<not> is_space c" using c by (auto simp: is_space_def word_le_nat_alt)
  show "digit c < 10" using assms c by (simp add: digit_def)
qed

lemma strtoumax_decimals:
  assumes "decimals ds n" "0 < n" "n < 2 ^ 64"
  shows "strtoumax (ds @ [10]) = of_nat n"
proof -
  have ds: "\<And>c. c \<in> set ds \<Longrightarrow> 48 \<le> c" "\<And>c. c \<in> set ds \<Longrightarrow> c \<le> 57" "ds \<noteq> []" "hd ds \<noteq> 48"
    "foldl (\<lambda>n c. n * 10 + digit c) 0 ds = n"
    using assms(1,2) by (simp_all add: decimals_def)
  note ch = decimal_char [OF ds(1) ds(2)]
  obtain d es where d: "ds = d # es" using ds(3) by (auto simp: neq_Nil_conv)
  have "takeWhile (\<lambda>c. c \<noteq> 0) (ds @ [10]) = ds @ [10]" using ch(1) by (simp add: takeWhile_eq_all_conv)
  moreover have "dropWhile is_space (ds @ [10]) = ds @ [10]"
    using ch(3) [of d] d by simp
  moreover have "hd (ds @ [10]) \<noteq> 45" "hd (ds @ [10]) \<noteq> 43" using ch(4,5) [of d] d by simp_all
  moreover have "magnitude (ds @ [10]) = number_in 10 (ds @ [10])"
    using d ds(4) by (cases es) (auto simp: magnitude_def split: list.split)
  moreover have "number_in 10 (ds @ [10]) = n"
  proof -
    have "takeWhile (\<lambda>c. digit c < 10) (ds @ [10]) = ds"
      using ch(6) by (simp add: takeWhile_append2 digit_def)
    then show ?thesis by (simp add: number_in_def ds(5))
  qed
  ultimately show ?thesis using assms(3) by (simp add: strtoumax_def)
qed

text \<open>A message as it is put in a pipe: its length in decimal, a newline, the bytes.\<close>

definition framed :: "u8 list \<Rightarrow> u8 list" where
  "framed payload = ascii (decimal (length payload)) @ 10 # payload"

lemma readout_pipe_framed:
  assumes "plenty e" "reads_from io fd content" "content (guest s) = framed payload @ rest"
    and "payload \<noteq> []" "length payload < 2 ^ 31"
  shows "\<exists>g. readout_pipe e io fd s = Some (int (length payload), Some payload, s\<lparr>guest := g, mallocs := Suc (mallocs s)\<rparr>) \<and>
    content g = rest"
proof -
  let ?ds = "ascii (decimal (length payload))"
  let ?n = "of_nat (length payload) :: u64"
  have dec: "decimals ?ds (length payload)" by (rule decimal_decimals)
  then have "10 \<notin> set ?ds" using decimal_char(2) by (fastforce simp: decimals_def)
  moreover have "content (guest s) = ?ds @ 10 # (payload @ rest)" using assms(3) by (simp add: framed_def)
  ultimately obtain g1 where g1: "readout_size_loop io fd [] (guest s) = Some (strtoumax ([] @ ?ds @ [10]), g1)"
    "content g1 = payload @ rest"
    using readout_size_loop_delivers [OF assms(2)] by blast
  have size: "strtoumax ([] @ ?ds @ [10]) = ?n"
    using strtoumax_decimals [OF dec] assms(4,5) by simp
  have un: "unat ?n = length payload" using assms(5) by (simp add: unat_of_nat take_bit_nat_eq_self)
  obtain g2 where g2: "readout_loop io fd ?n [] (int (length payload)) (int (length ([] :: u8 list))) g1 =
      Some (int (unat ?n), [] @ payload, g2)" "content g2 = rest"
    using readout_loop_delivers [OF assms(2), of ?n g1 payload rest "[]"] g1(2) un assms(5) by auto
  have "?n \<noteq> 0" using un assms(4) by (metis length_0_conv unat_0)
  moreover have "u64_to_int ?n = int (length payload)" by (rule u64_to_int_small [OF assms(5)])
  ultimately have "readout_pipe e io fd s =
      Some (int (length payload), Some payload, s\<lparr>guest := g2, mallocs := Suc (mallocs s)\<rparr>)"
    using g1(1) g2(1) assms(1) unfolding readout_pipe_def readout_pipe_size_def size
    by (simp add: plenty_malloc un)
  with g2(2) show ?thesis by blast
qed

section \<open>A message that is cut short\<close>

text \<open>At the end of the pipe \<^verbatim>\<open>read\<close> returns 0, and the loop does not end.\<close>

lemma readout_loop_short:
  assumes "reads_from io fd content" "unat n < 2 ^ 31"
    and "length buff + length (content g) < unat n"
  shows "readout_loop io fd n buff (int (unat n - length buff)) (int (length buff)) g = None"
proof -
  let ?P = "\<lambda>io' fd' n' buff left total g y. io' = io \<longrightarrow> fd' = fd \<longrightarrow> n' = n \<longrightarrow>
    left = int (unat n - length buff) \<longrightarrow> total = int (length buff) \<longrightarrow> unat n \<le> length buff + length (content g)"
  have "?P io fd n buff left total g y" if run: "readout_loop io fd n buff left total g = Some y"
    for buff left total g y
  proof (rule readout_loop.raw_induct [where P = ?P, OF _ run], intro impI)
    fix f io' fd' n' buff left total g y
    assume IH: "\<And>io' fd' n' buff left total g y. f io' fd' n' buff left total g = Some y \<Longrightarrow>
        ?P io' fd' n' buff left total g y"
      and body: "(if of_int total < n'
       then case io_read io' fd' (unat (of_int left :: u64)) g of
             (n_chars_received, bytes, g) \<Rightarrow>
               if n_chars_received = - 1 then Some (- 1, buff, g)
               else if unat n' < length buff + length bytes then None
               else f io' fd' n' (buff @ bytes) (left - n_chars_received) (total + n_chars_received) g
       else Some (total, buff, g)) = Some y"
      and eqs: "io' = io" "fd' = fd" "n' = n" "left = int (unat n - length buff)" "total = int (length buff)"
    show "unat n \<le> length buff + length (content g)"
    proof (rule ccontr)
      assume short: "\<not> unat n \<le> length buff + length (content g)"
      then have small: "length buff < 2 ^ 64" "unat n - length buff < 2 ^ 64" "0 < unat n - length buff"
        using assms(2) by simp_all
      have go: "of_int total < n'"
        using eqs short small(1) by (simp add: word_less_nat_alt unat_of_nat take_bit_nat_eq_self)
      have ask: "unat (of_int left :: u64) = unat n - length buff"
        using small(2) unfolding eqs(4) by (simp add: unat_of_nat take_bit_nat_eq_self)
      obtain bytes g1 where r: "io_read io fd (unat n - length buff) g = (int (length bytes), bytes, g1)"
        "length bytes \<le> unat n - length buff" "content g = bytes @ content g1"
        using reads_fromD [OF assms(1) small(3)] by blast
      have got: "int (length bytes) \<noteq> -1" by simp
      have room: "\<not> unat n < length buff + length bytes" using r(2) short by simp
      have "f io fd n (buff @ bytes) (left - int (length bytes)) (total + int (length bytes)) g1 = Some y"
        using body go unfolding ask eqs(1-3) r(1) prod.case if_not_P [OF got] if_not_P [OF room]
        by (simp only: if_True)
      from IH [OF this] have "unat n \<le> length (buff @ bytes) + length (content g1)"
        using eqs(4,5) r(2) by (simp add: of_nat_diff)
      with short r(3) show False by simp
    qed
  qed
  then show ?thesis using assms(3) by (metis linorder_not_less not_Some_eq)
qed

text \<open>So the plugin waits for ever for a message whose announced length is not reached.\<close>

lemma readout_pipe_short:
  assumes "plenty e" "reads_from io fd content" "content (guest s) = ascii (decimal n) @ 10 # payload"
    and "length payload < n" "n < 2 ^ 31"
  shows "readout_pipe e io fd s = None"
proof -
  let ?ds = "ascii (decimal n)"
  have dec: "decimals ?ds n" by (rule decimal_decimals)
  then have "10 \<notin> set ?ds" using decimal_char(2) by (fastforce simp: decimals_def)
  then obtain g1 where g1: "readout_size_loop io fd [] (guest s) = Some (strtoumax ([] @ ?ds @ [10]), g1)"
    "content g1 = payload"
    using readout_size_loop_delivers [OF assms(2,3)] by blast
  have size: "strtoumax ([] @ ?ds @ [10]) = of_nat n"
    using strtoumax_decimals [OF dec] assms(4,5) by simp
  have un: "unat (of_nat n :: u64) = n" using assms(5) by (simp add: unat_of_nat take_bit_nat_eq_self)
  have "readout_loop io fd (of_nat n) [] (int n) 0 g1 = None"
    using readout_loop_short [OF assms(2), of "of_nat n" "[]" g1] assms(4,5) g1(2) un by simp
  moreover have "(of_nat n :: u64) \<noteq> 0" using un assms(4) by (metis not_less_zero unat_0)
  moreover have "u64_to_int (of_nat n) = int n" by (rule u64_to_int_small [OF assms(5)])
  ultimately show ?thesis
    using g1(1) assms(1) unfolding readout_pipe_def readout_pipe_size_def size by (simp add: plenty_malloc)
qed

section \<open>A message is written completely\<close>

lemma write_loop_sends:
  assumes "writes_to io fd sent"
  shows "\<exists>g'. write_loop io fd str g = Some (0, g') \<and> sent g' = sent g @ str"
proof (induction str arbitrary: g rule: length_induct)
  case (1 str)
  show ?case
  proof (cases "str = []")
    case True
    then show ?thesis by (subst write_loop.simps) simp
  next
    case False
    obtain ret g1 where r: "io_write io fd str g = (ret, g1)" by (metis surj_pair)
    have w: "0 < ret" "ret \<le> int (length str)" "sent g1 = sent g @ take (nat ret) str"
      using assms [unfolded writes_to_def, rule_format, OF False, of g] unfolding r prod.case
      by - (elim conjE, assumption)+
    have "length (drop (nat ret) str) < length str" using False w(1,2) by simp
    with 1 obtain g' where g': "write_loop io fd (drop (nat ret) str) g1 = Some (0, g')"
      "sent g' = sent g1 @ drop (nat ret) str" by blast
    have "write_loop io fd str g = write_loop io fd (drop (nat ret) str) g1"
      using False r w(1,2) by (subst write_loop.simps) simp
    with g' w(3) show ?thesis by simp
  qed
qed

section \<open>The bytes of a mask\<close>

lemma split_mask_length [simp]: "length (split_mask lower upper) = 16"
  by (simp add: split_mask_def)

lemma split_mask_words:
  "word_of_bytes (take 8 (split_mask lower upper)) 8 = lower"
  "word_of_bytes (drop 8 (split_mask lower upper)) 8 = upper"
proof -
  have ff: "(0xFF :: u64) = mask 8" by (simp add: mask_eq_exp_minus_1)
  have "word_of_bytes (map (\<lambda>j. ucast (drop_bit (j * 8) w AND 0xFF)) [0..<8]) 8 = w" for w :: u64
    unfolding ff by (rule bit_word_eqI) (auto simp: bit_word_of_bytes bit_simps)
  then show "word_of_bytes (take 8 (split_mask lower upper)) 8 = lower"
    "word_of_bytes (drop 8 (split_mask lower upper)) 8 = upper"
    by (simp_all add: split_mask_def del: upt_rec_numeral)
qed

section \<open>The fault configuration\<close>

text \<open>The fault that a message asks for; only its number is what \<^verbatim>\<open>malloc\<close> left there.\<close>

definition configured :: "fault_msg \<Rightarrow> u64 \<Rightarrow> fault" where
  "configured m junk =
     \<lparr>f_address = fm_address m, f_type = fm_type m, f_model = fm_model m, f_lifetime = fm_lifespan m,
      f_num_bytes = ucast (fm_num_bytes m), f_mask = split_mask (fm_mask_lower m) (fm_mask_upper m),
      f_restoremask = replicate 16 0,
      f_trigger = \<lparr>trig_address = fm_trigger_address m, hitcounter = fm_trigger_hitcounter m, trignum = junk\<rparr>\<rparr>"

lemma copy_sixteen: "length xs = 16 \<Longrightarrow> map (\<lambda>i. xs ! i) [0..<16] = xs"
  by (metis map_nth)

lemma add_fault_configured:
  assumes "plenty e" "fault_refs s rs"
  shows "\<exists>s'. add_fault e (fm_address m) (fm_type m) (fm_model m) (fm_lifespan m)
      (split_mask (fm_mask_lower m) (fm_mask_upper m)) (fm_trigger_address m)
      (fm_trigger_hitcounter m) (ucast (fm_num_bytes m)) s = (0, s') \<and>
    fault_refs s' (mallocs s # rs) \<and> (\<forall>r \<in> set rs. get_fault r s' = get_fault r s) \<and>
    get_fault (mallocs s) s' = Some (configured m (malloc_junk e (mallocs s) 0)) \<and>
    (\<exists>k f h. mallocs s \<le> k \<and> s' = s\<lparr>mallocs := k, first_fault := f, fault_heap := h\<rparr>)"
proof -
  let ?mask = "split_mask (fm_mask_lower m) (fm_mask_upper m)"
  obtain c s' where a: "add_fault e (fm_address m) (fm_type m) (fm_model m) (fm_lifespan m) ?mask
      (fm_trigger_address m) (fm_trigger_hitcounter m) (ucast (fm_num_bytes m)) s = (c, s')"
    by (metis surj_pair)
  have "s' = s\<lparr>mallocs := Suc (mallocs s), first_fault := first_fault s', fault_heap := fault_heap s'\<rparr>"
    using a assms(1) by (auto simp: add_fault_def plenty_malloc)
  then have "\<exists>k f h. mallocs s \<le> k \<and> s' = s\<lparr>mallocs := k, first_fault := f, fault_heap := h\<rparr>"
    by (intro exI conjI) (rule le_SucI [OF order_refl])
  then show ?thesis
    using add_fault_refs [OF assms(2), where e = e and a = "fm_address m" and ty = "fm_type m" and
        mo = "fm_model m" and lt = "fm_lifespan m" and m = ?mask and ta = "fm_trigger_address m" and
        th = "fm_trigger_hitcounter m" and nb = "ucast (fm_num_bytes m)"] a assms(1)
    by (simp add: plenty_def configured_def copy_sixteen)
qed

lemma add_faults_list:
  assumes "plenty e"
  shows "fault_refs s rs \<Longrightarrow> (\<And>i. i \<in> set is \<Longrightarrow> fa i = Some (g i)) \<Longrightarrow>
    \<exists>s' qs. add_faults e fa is s = Some (0, s') \<and> fault_refs s' (rev qs @ rs) \<and>
      list_all2 (\<lambda>i r. get_fault r s' = Some (configured (g i) (malloc_junk e r 0))) is qs \<and>
      (\<forall>r \<in> set rs. get_fault r s' = get_fault r s) \<and>
      (\<exists>k f h. mallocs s \<le> k \<and> s' = s\<lparr>mallocs := k, first_fault := f, fault_heap := h\<rparr>)"
proof (induction "is" arbitrary: s rs)
  case Nil
  have "s = s\<lparr>mallocs := mallocs s, first_fault := first_fault s, fault_heap := fault_heap s\<rparr>" by simp
  then have "\<exists>k f h. mallocs s \<le> k \<and> s = s\<lparr>mallocs := k, first_fault := f, fault_heap := h\<rparr>" by blast
  with Nil show ?case by simp
next
  case (Cons i "is")
  obtain t where t: "add_fault e (fm_address (g i)) (fm_type (g i)) (fm_model (g i)) (fm_lifespan (g i))
      (split_mask (fm_mask_lower (g i)) (fm_mask_upper (g i))) (fm_trigger_address (g i))
      (fm_trigger_hitcounter (g i)) (ucast (fm_num_bytes (g i))) s = (0, t)"
    "fault_refs t (mallocs s # rs)" "\<forall>r \<in> set rs. get_fault r t = get_fault r s"
    "get_fault (mallocs s) t = Some (configured (g i) (malloc_junk e (mallocs s) 0))"
    "\<exists>k f h. mallocs s \<le> k \<and> t = s\<lparr>mallocs := k, first_fault := f, fault_heap := h\<rparr>"
    using add_fault_configured [OF assms Cons.prems(1)] by blast
  obtain u qs where u: "add_faults e fa is t = Some (0, u)" "fault_refs u (rev qs @ mallocs s # rs)"
    "list_all2 (\<lambda>i r. get_fault r u = Some (configured (g i) (malloc_junk e r 0))) is qs"
    "\<forall>r \<in> set (mallocs s # rs). get_fault r u = get_fault r t"
    "\<exists>k f h. mallocs t \<le> k \<and> u = t\<lparr>mallocs := k, first_fault := f, fault_heap := h\<rparr>"
    using Cons.IH [OF t(2) Cons.prems(2) [OF list.set_intros(2)]] by blast
  have "add_faults e fa (i # is) s = Some (0, u)" using Cons.prems(2) [of i] t(1) u(1) by simp
  moreover have "fault_refs u (rev (mallocs s # qs) @ rs)" using u(2) by simp
  moreover have "list_all2 (\<lambda>i r. get_fault r u = Some (configured (g i) (malloc_junk e r 0))) (i # is) (mallocs s # qs)"
    using u(3,4) t(4) by simp
  moreover have "\<forall>r \<in> set rs. get_fault r u = get_fault r s" using u(4) t(3) by simp
  moreover have "\<exists>k f h. mallocs s \<le> k \<and> u = s\<lparr>mallocs := k, first_fault := f, fault_heap := h\<rparr>"
  proof -
    obtain k f h where k: "mallocs s \<le> k" "t = s\<lparr>mallocs := k, first_fault := f, fault_heap := h\<rparr>"
      using t(5) by blast
    obtain k' f' h' where k': "mallocs t \<le> k'" "u = t\<lparr>mallocs := k', first_fault := f', fault_heap := h'\<rparr>"
      using u(5) by blast
    have "mallocs s \<le> k'" "u = s\<lparr>mallocs := k', first_fault := f', fault_heap := h'\<rparr>" using k k' by simp_all
    then show ?thesis by blast
  qed
  ultimately show ?case by blast
qed

text \<open>
  What \<^verbatim>\<open>qemu_setup_config\<close> finds at \<^verbatim>\<open>fault_array[i]\<close>, when the structs of the pack lie one behind the other.
\<close>

definition contiguous :: "'g io \<Rightarrow> bool" where
  "contiguous io \<longleftrightarrow> (\<forall>ms. \<forall>i < length ms. io_fault_at io ms i = Some (ms ! i))"

lemma qemu_setup_config_list:
  assumes "plenty e" "contiguous io" "pipes s = Some p" "reads_from io (fifo_config p) content"
    and "content (guest s) = framed payload @ rest" "payload \<noteq> []" "length payload < 2 ^ 31"
    and "io_unpack_faults io payload = Some ms" "ms \<noteq> []" "fault_refs s []"
  shows "\<exists>s' qs. qemu_setup_config e io s = Some (0, s') \<and> content (guest s') = rest \<and>
      fault_refs s' (rev qs) \<and>
      list_all2 (\<lambda>m r. get_fault r s' = Some (configured m (malloc_junk e r 0))) ms qs \<and>
      (\<exists>g k f h. mallocs s \<le> k \<and> s' = s\<lparr>guest := g, mallocs := k, first_fault := f, fault_heap := h\<rparr>)"
proof -
  obtain g where g: "readout_pipe e io (fifo_config p) s =
      Some (int (length payload), Some payload, s\<lparr>guest := g, mallocs := Suc (mallocs s)\<rparr>)" "content g = rest"
    using readout_pipe_framed [OF assms(1,4-7)] by blast
  let ?t = "s\<lparr>guest := g, mallocs := Suc (mallocs s)\<rparr>"
  have "fault_refs ?t []" by (rule fault_refs_same [OF assms(10)]) simp_all
  moreover have "io_fault_at io ms i = Some (ms ! i)" if "i \<in> set [0..<length ms]" for i
    using assms(2) that by (simp add: contiguous_def)
  ultimately obtain u qs where u: "add_faults e (io_fault_at io ms) [0..<length ms] ?t = Some (0, u)"
    "fault_refs u (rev qs @ [])"
    "list_all2 (\<lambda>i r. get_fault r u = Some (configured (ms ! i) (malloc_junk e r 0))) [0..<length ms] qs"
    "\<exists>k f h. mallocs ?t \<le> k \<and> u = ?t\<lparr>mallocs := k, first_fault := f, fault_heap := h\<rparr>"
    using add_faults_list [OF assms(1), of ?t "[]" "[0..<length ms]"] by blast
  obtain k f h where k: "mallocs ?t \<le> k" "u = ?t\<lparr>mallocs := k, first_fault := f, fault_heap := h\<rparr>"
    using u(4) by blast
  have "list_all2 (\<lambda>m r. get_fault r u = Some (configured m (malloc_junk e r 0))) ms qs"
    using u(3) by (simp add: list_all2_conv_all_nth)
  moreover have "qemu_setup_config e io s = Some (0, u)"
    using assms(3,6,8,9) g(1) u(1) by (simp add: qemu_setup_config_def)
  moreover have "content (guest u) = rest" using k(2) g(2) by simp
  moreover have "mallocs s \<le> k" "u = s\<lparr>guest := g, mallocs := k, first_fault := f, fault_heap := h\<rparr>"
    using k by simp_all
  ultimately show ?thesis using u(2) by (simp only: append_Nil2) blast
qed

section \<open>Properties\<close>

text \<open>
  C24. A message that is sent with its length in decimal and a newline in front arrives unchanged,
  however the pipe splits it, and what follows it stays in the pipe.
\<close>

theorem framed_message_is_read_back:
  assumes "plenty e" "reads_from io fd content" "content (guest s) = framed payload @ rest"
    and "payload \<noteq> []" "length payload < 2 ^ 31"
  shows "\<exists>s'. readout_pipe e io fd s = Some (int (length payload), Some payload, s') \<and> content (guest s') = rest"
  using readout_pipe_framed [OF assms] by auto

text \<open>A pipe that holds what is still to be read and what was written; it delivers at most three bytes at once.\<close>

type_synonym queue = "u8 list \<times> u8 list"

definition queue_env :: "queue env" where
  "queue_env =
     \<lparr>read_mem = (\<lambda>a n g. (0, replicate n 0, g)), write_mem = (\<lambda>a bs g. (0, g)),
      read_reg = (\<lambda>r g. 0), write_reg = (\<lambda>r v g. g), single_step = (\<lambda>b g. g), flush_tb = (\<lambda>g. g),
      malloc_ok = (\<lambda>_. True), malloc_junk = (\<lambda>_ _. 7), shl_ub = (\<lambda>v n. v)\<rparr>"

definition queue_io :: "fault_msg list \<Rightarrow> queue io" where
  "queue_io ms =
     \<lparr>io_mkfifo = (\<lambda>_ g. g), io_open = (\<lambda>_ _ g. (3, g)),
      io_read = (\<lambda>_ n (i, q). let bs = take (min n 3) i in (int (length bs), bs, (drop (min n 3) i, q))),
      io_write = (\<lambda>_ str (i, q). (int (length (take 3 str)), (i, q @ take 3 str))),
      io_unpack_control = (\<lambda>_. None), io_unpack_faults = (\<lambda>_. Some ms),
      io_fault_at = (\<lambda>fs i. if i < length fs then Some (fs ! i) else None),
      io_pack_data = (\<lambda>_. [1, 2, 3, 4]), io_pages = (\<lambda>ps. ps), io_ranges = (\<lambda>_. []),
      io_sigaction = (\<lambda>g. (0, \<lparr>sa_flags = 0, sa_handler = SIG_DFL\<rparr>, g))\<rparr>"

text \<open>The globals of the program before it starts.\<close>

definition blank :: "'g \<Rightarrow> 'g plugin_state" where
  "blank g =
     \<lparr>guest = g, mallocs = 0, cbs = [], req_singlestep = 0, first_fault = None, fault_heap = Map.empty,
      memdump = None, num_memdump = 0, used_memdump = 0,
      first_registerdump = None, register_heap = Map.empty, arch = 0,
      tb_info_list = None, tb_info_heap = Map.empty, tb_avl_root = None,
      tb_exec_order_ring_buffer = 0, tb_exec_order_list = None, tb_exec_heap = Map.empty, num_exec_order = 0,
      tb_exec_rb_list = None, tb_exec_rb_list_index = 0,
      tb_faulted_list = None, tb_faulted_heap = Map.empty, active_triggers = None, max_triggers = 0,
      current_triggers = 0, done_triggers = 0,
      fault_trigger_addresses = None, live_faults = None, fault_number = 0, live_faults_number = 0,
      mem_info_list = None, mem_info_heap = Map.empty, mem_avl_root = None,
      pipes = None, first_tb = 0, tb_counter = 0, tb_counter_max = 0,
      start_point = \<lparr>trig_address = 0, hitcounter = 0, trignum = 0\<rparr>, end_point = None,
      end_point_heap = Map.empty, tb_info_enabled = 0, tb_exec_order_enabled = 0, full_mem_dump_enabled = 0,
      memmap_dump_enabled = 0, mem_info_list_enabled = 0, architecture = [], mem_map_infos = None,
      mem_map_size = 0, old_abort_action = \<lparr>sa_flags = 0, sa_handler = SIG_DFL\<rparr>,
      tb_trans_registered = False\<rparr>"

lemma queue_reads: "reads_from (queue_io ms) fd fst"
  by (auto simp: reads_from_def queue_io_def Let_def min_def)

lemma queue_plenty: "plenty queue_env"
  by (simp add: plenty_def queue_env_def)

lemma queue_contiguous: "contiguous (queue_io ms)"
  by (simp add: contiguous_def queue_io_def)

lemma decimal_5: "decimal 5 = ''5''"
  by (subst decimal.simps) simp

lemma framed_5: "framed [9, 8, 7, 6, 5] = [53, 10, 9, 8, 7, 6, 5]"
proof -
  have "ascii ''5'' = [53]" by code_simp
  moreover have "length [9, 8, 7, 6, 5 :: u8] = 5" by simp
  ultimately show ?thesis unfolding framed_def by (simp only: decimal_5 append.simps)
qed

theorem framed_message_is_read_back_witness:
  "\<exists>s'. readout_pipe queue_env (queue_io []) 3 (blank (([53, 10, 9, 8, 7, 6, 5, 4], []) :: queue)) =
      Some (5, Some [9, 8, 7, 6, 5], s') \<and> fst (guest s') = [4]"
proof -
  have "fst (guest (blank (([53, 10, 9, 8, 7, 6, 5, 4], []) :: queue))) = framed [9, 8, 7, 6, 5] @ [4]"
    unfolding framed_5 by (simp add: blank_def)
  from framed_message_is_read_back [OF queue_plenty queue_reads [of "[]" 3] this] show ?thesis by simp
qed

text \<open>
  C21. A message that ends before its announced length is reached keeps the plugin in the reading
  loop for ever: \<^verbatim>\<open>read\<close> returns 0, which is neither an error for the loop nor progress.
\<close>

theorem truncated_message_never_ends:
  assumes "plenty e" "reads_from io fd content" "content (guest s) = ascii (decimal n) @ 10 # payload"
    and "length payload < n" "n < 2 ^ 31"
  shows "readout_pipe e io fd s = None"
  using readout_pipe_short [OF assms] .

theorem truncated_message_never_ends_witness:
  "readout_pipe queue_env (queue_io []) 3 (blank (([53, 10, 9, 8, 7], []) :: queue)) = None"
proof -
  have "ascii ''5'' = [53]" by code_simp
  then have "fst (guest (blank (([53, 10, 9, 8, 7], []) :: queue))) = ascii (decimal 5) @ 10 # [9, 8, 7]"
    by (simp add: blank_def decimal_5)
  from truncated_message_never_ends [OF queue_plenty queue_reads [of "[]" 3] this] show ?thesis by simp
qed


definition two_messages :: "fault_msg list" where
  "two_messages =
     [\<lparr>fm_address = 0x100, fm_type = 0, fm_model = 2, fm_lifespan = 5, fm_trigger_address = 0x80,
       fm_trigger_hitcounter = 1, fm_mask_upper = 0, fm_mask_lower = 0xFF, fm_num_bytes = 0\<rparr>,
      \<lparr>fm_address = 0x200, fm_type = 1, fm_model = 1, fm_lifespan = 0, fm_trigger_address = 0x90,
       fm_trigger_hitcounter = 2, fm_mask_upper = 0x12345678, fm_mask_lower = 0x80, fm_num_bytes = 4\<rparr>]"


end
