(* ===== verification/EndCorrect.thy ===== *)
theory EndCorrect
  imports Safety PipeCorrect
begin

text \<open>
  The final dump: it runs without undefined behaviour from every state of a run, and what it writes
  to the data pipe is a message with everything that was collected.
\<close>

section \<open>What the dump leaves alone\<close>

text \<open>
  All but the guest, the memory dumps, the register dumps, the end points and the memory map.
\<close>

definition dump_frame :: "('g, 'z) plugin_state_scheme \<Rightarrow> ('g, 'z) plugin_state_scheme \<Rightarrow> bool" where
  "dump_frame s s' \<longleftrightarrow>
     (\<exists>g k v n u fr rh eh mi mz. mallocs s \<le> k \<and>
        s' = s\<lparr>guest := g, mallocs := k, memdump := v, num_memdump := n, used_memdump := u,
               first_registerdump := fr, register_heap := rh, end_point_heap := eh,
               mem_map_infos := mi, mem_map_size := mz\<rparr>)"

lemma dump_frameI:
  "mallocs s \<le> k \<Longrightarrow>
   dump_frame s (s\<lparr>guest := g, mallocs := k, memdump := v, num_memdump := n, used_memdump := u,
               first_registerdump := fr, register_heap := rh, end_point_heap := eh,
               mem_map_infos := mi, mem_map_size := mz\<rparr>)"
  unfolding dump_frame_def by blast

lemma dump_frame_mallocs: "mallocs s \<le> k \<Longrightarrow> dump_frame s (s\<lparr>mallocs := k\<rparr>)"
proof -
  assume "mallocs s \<le> k"
  from dump_frameI [OF this, where g = "guest s" and v = "memdump s" and n = "num_memdump s" and
      u = "used_memdump s" and fr = "first_registerdump s" and rh = "register_heap s" and
      eh = "end_point_heap s" and mi = "mem_map_infos s" and mz = "mem_map_size s"]
  show ?thesis by simp
qed

lemma dump_frame_refl: "dump_frame s s"
  using dump_frame_mallocs [OF order_refl, of s] by simp

lemma dump_frame_trans:
  assumes "dump_frame s t" "dump_frame t u"
  shows "dump_frame s u"
proof -
  obtain g k v n us fr rh eh mi mz where t: "mallocs s \<le> k"
    "t = s\<lparr>guest := g, mallocs := k, memdump := v, num_memdump := n, used_memdump := us,
               first_registerdump := fr, register_heap := rh, end_point_heap := eh,
               mem_map_infos := mi, mem_map_size := mz\<rparr>"
    using assms(1) by (auto simp: dump_frame_def)
  obtain g' k' v' n' us' fr' rh' eh' mi' mz' where u: "mallocs t \<le> k'"
    "u = t\<lparr>guest := g', mallocs := k', memdump := v', num_memdump := n', used_memdump := us',
               first_registerdump := fr', register_heap := rh', end_point_heap := eh',
               mem_map_infos := mi', mem_map_size := mz'\<rparr>"
    using assms(2) by (auto simp: dump_frame_def)
  have "mallocs s \<le> k'"
    "u = s\<lparr>guest := g', mallocs := k', memdump := v', num_memdump := n', used_memdump := us',
               first_registerdump := fr', register_heap := rh', end_point_heap := eh',
               mem_map_infos := mi', mem_map_size := mz'\<rparr>"
    using t u by simp_all
  then show ?thesis using dump_frameI by simp
qed

lemma dump_frame_fields:
  assumes "dump_frame s s'"
  shows "mallocs s \<le> mallocs s'" "arch s' = arch s"
    "tb_info_list s' = tb_info_list s" "tb_info_heap s' = tb_info_heap s" "tb_avl_root s' = tb_avl_root s"
    "tb_exec_order_ring_buffer s' = tb_exec_order_ring_buffer s" "tb_exec_order_list s' = tb_exec_order_list s"
    "tb_exec_heap s' = tb_exec_heap s" "num_exec_order s' = num_exec_order s"
    "tb_exec_rb_list s' = tb_exec_rb_list s" "tb_exec_rb_list_index s' = tb_exec_rb_list_index s"
    "tb_faulted_list s' = tb_faulted_list s" "tb_faulted_heap s' = tb_faulted_heap s"
    "mem_info_list s' = mem_info_list s" "mem_info_heap s' = mem_info_heap s" "mem_avl_root s' = mem_avl_root s"
    "pipes s' = pipes s" "tb_exec_order_enabled s' = tb_exec_order_enabled s"
    "full_mem_dump_enabled s' = full_mem_dump_enabled s" "tb_counter s' = tb_counter s"
    "end_point s' = end_point s" "old_abort_action s' = old_abort_action s"
  using assms by (auto simp: dump_frame_def)

text \<open>The collected data a dump needs.\<close>

definition ready ::
  "ref list \<Rightarrow> u64 list \<Rightarrow> ref list \<Rightarrow> ref list \<Rightarrow> ('g, 'z) plugin_state_scheme \<Rightarrow> bool" where
  "ready ts as ms fs s \<longleftrightarrow>
     known_arch (arch s) \<and> tb_refs s ts \<and> exec_log s as \<and> length as < 2 ^ 64 \<and> mem_refs s ms \<and>
     faulted_refs s fs \<and> pipes s \<noteq> None \<and>
     (\<exists>qs. chain teo_prev (tb_exec_heap s) (tb_exec_order_list s) qs)"

lemma ready_frame:
  assumes "ready ts as ms fs s" "dump_frame s s'"
  shows "ready ts as ms fs s'"
proof -
  note f = dump_frame_fields [OF assms(2)]
  have r: "tb_refs s ts" "exec_log s as" "mem_refs s ms" "faulted_refs s fs"
    using assms(1) by (simp_all add: ready_def)
  have "tb_refs s' ts" by (rule tb_refs_same [OF r(1) f(3,4,5,1)])
  moreover have "exec_log s' as" by (rule exec_log_same [OF r(2) f(1,4,6-11)])
  moreover have "mem_refs s' ms" by (rule mem_refs_same [OF r(3) f(14-16,1)])
  moreover have "faulted_refs s' fs" using r(4) f by (auto simp: faulted_refs_def elim: below_mono)
  ultimately show ?thesis using assms(1) f by (simp add: ready_def)
qed

lemma views_frame:
  assumes "dump_frame s s'"
  shows "tb_table s' = tb_table s" "mem_view s' = mem_view s"
proof -
  note f = dump_frame_fields [OF assms]
  have k: "tb_key s' = tb_key s" by (simp add: tb_key_def fun_eq_iff f)
  show "tb_table s' = tb_table s" unfolding tb_table_def tb_lookup_def f k ..
  show "mem_view s' = mem_view s" unfolding mem_view_def f ..
qed

section \<open>The environment\<close>

text \<open>
  \<^verbatim>\<open>write\<close> fails or writes a part of what it is given; the ranges of the address space fit in 64 bits.
\<close>

definition io_sane :: "'g io \<Rightarrow> bool" where
  "io_sane io \<longleftrightarrow>
     (\<forall>fd str g. str \<noteq> [] \<longrightarrow>
        (case io_write io fd str g of (ret, g') \<Rightarrow> ret = -1 \<or> 0 < ret \<and> ret \<le> int (length str))) \<and>
     (\<forall>g. \<forall>fr \<in> set (io_ranges io g). fr_ram fr \<longrightarrow>
        0 \<le> fr_start fr \<and> fr_start fr < 2 ^ 64 \<and> 0 \<le> fr_size fr \<and> fr_size fr < 2 ^ 64)"

lemma write_loop_total:
  assumes "io_sane io"
  shows "\<exists>ret g'. write_loop io fd str g = Some (ret, g')"
proof (induction str arbitrary: g rule: length_induct)
  case (1 str)
  show ?case
  proof (cases "str = []")
    case True
    then show ?thesis by (subst write_loop.simps) simp
  next
    case False
    obtain ret g1 where r: "io_write io fd str g = (ret, g1)" by (metis surj_pair)
    have w: "ret = -1 \<or> 0 < ret \<and> ret \<le> int (length str)"
      using assms [unfolded io_sane_def, THEN conjunct1, rule_format, OF False, of fd g] unfolding r prod.case .
    show ?thesis
    proof (cases "ret = -1")
      case True
      then show ?thesis using False r by (subst write_loop.simps) simp
    next
      case more: False
      then have pos: "0 < ret" "ret \<le> int (length str)" using w by simp_all
      have "length (drop (nat ret) str) < length str" using False pos by simp
      with 1 obtain r' g' where "write_loop io fd (drop (nat ret) str) g1 = Some (r', g')" by blast
      then show ?thesis using False more r pos by (subst write_loop.simps) simp
    qed
  qed
qed

section \<open>The parts of the dump\<close>

definition ram_ranges :: "flat_range list \<Rightarrow> mem_map_info_msg list" where
  "ram_ranges frs = map (\<lambda>fr. \<lparr>mmi_address = of_int (fr_start fr), mmi_size = of_int (fr_size fr)\<rparr>) (filter fr_ram frs)"

lemma flatview_entries:
  assumes "plenty e"
  shows "\<forall>fr \<in> set frs. fr_ram fr \<longrightarrow>
        0 \<le> fr_start fr \<and> fr_start fr < 2 ^ 64 \<and> 0 \<le> fr_size fr \<and> fr_size fr < 2 ^ 64 \<Longrightarrow>
     \<exists>k. mallocs s \<le> k \<and>
       flatview_for_each_range (add_memmap_entry e) frs (infos, s) = Some (infos @ ram_ranges frs, s\<lparr>mallocs := k\<rparr>)"
proof (induction frs arbitrary: infos s)
  case Nil
  show ?case by (intro exI [of _ "mallocs s"]) (simp add: ram_ranges_def)
next
  case (Cons fr frs)
  show ?case
  proof (cases "fr_ram fr")
    case True
    let ?entry = "\<lparr>mmi_address = of_int (fr_start fr), mmi_size = of_int (fr_size fr)\<rparr>"
    let ?s = "s\<lparr>mallocs := Suc (mallocs s)\<rparr>"
    obtain k where k: "mallocs ?s \<le> k"
      "flatview_for_each_range (add_memmap_entry e) frs (infos @ [?entry], ?s) =
        Some ((infos @ [?entry]) @ ram_ranges frs, ?s\<lparr>mallocs := k\<rparr>)"
      using Cons.IH [of ?s "infos @ [?entry]"] Cons.prems by auto
    have "add_memmap_entry e fr (infos, s) = Some (infos @ [?entry], ?s)"
      using True Cons.prems assms by (simp add: add_memmap_entry_def plenty_malloc int128_get64_def)
    with k True show ?thesis by (intro exI [of _ k]) (simp add: ram_ranges_def)
  next
    case False
    then show ?thesis using Cons by (simp add: add_memmap_entry_def ram_ranges_def)
  qed
qed

lemma memmap_stage:
  assumes "plenty e" "io_sane io"
  shows "\<exists>k mi mz. mallocs s \<le> k \<and>
    (if memmap_dump_enabled s \<noteq> 0 then plugin_dump_memmap_information e io msg s else Some (0, msg, s)) =
      Some (0, if memmap_dump_enabled s \<noteq> 0 then msg\<lparr>dm_mem_map_infos := ram_ranges (io_ranges io (guest s))\<rparr> else msg,
            s\<lparr>mallocs := k, mem_map_infos := mi, mem_map_size := mz\<rparr>) \<and>
    (memmap_dump_enabled s \<noteq> 0 \<longrightarrow> mi \<noteq> None) \<and>
    (memmap_dump_enabled s = 0 \<longrightarrow> mi = mem_map_infos s \<and> mz = mem_map_size s)"
proof (cases "memmap_dump_enabled s = 0")
  case True
  then show ?thesis
    by (intro exI [of _ "mallocs s"] exI [of _ "mem_map_infos s"] exI [of _ "mem_map_size s"]) simp
next
  case False
  let ?s = "s\<lparr>mallocs := Suc (mallocs s)\<rparr>"
  have "\<forall>fr \<in> set (io_ranges io (guest ?s)). fr_ram fr \<longrightarrow>
        0 \<le> fr_start fr \<and> fr_start fr < 2 ^ 64 \<and> 0 \<le> fr_size fr \<and> fr_size fr < 2 ^ 64"
    using assms(2) by (simp add: io_sane_def)
  from flatview_entries [OF assms(1) this, of ?s "[]"] obtain k where k: "mallocs ?s \<le> k"
    "flatview_for_each_range (add_memmap_entry e) (io_ranges io (guest ?s)) ([], ?s) =
      Some (ram_ranges (io_ranges io (guest ?s)), ?s\<lparr>mallocs := k\<rparr>)" by auto
  with False assms(1) show ?thesis
    by (intro exI [of _ k] exI [of _ "Some (ram_ranges (io_ranges io (guest s)))"]
        exI [of _ "length (ram_ranges (io_ranges io (guest s)))"])
      (simp add: plugin_dump_memmap_information_def plenty_malloc)
qed

text \<open>The pages that were written to, in the order of the list of accesses.\<close>

definition stored_pages :: "('g, 'z) mem_info_state_scheme \<Rightarrow> ref list \<Rightarrow> u64 list" where
  "stored_pages s ms =
     map (\<lambda>r. page_of (mei_memmory_address (the (mem_info_heap s r))))
       (filter (\<lambda>r. mei_direction (the (mem_info_heap s r)) = 1) ms)"

lemma written_pages_stored:
  assumes "plenty e" "mem_refs s ms"
  shows "\<exists>k. mallocs s \<le> k \<and> written_pages e s = Some (stored_pages s ms, s\<lparr>mallocs := k\<rparr>)"
proof -
  let ?h = "mem_info_heap s"
  let ?f = "\<lambda>r item a. if mei_direction item = 1
               then do {
                 (pages, s) \<leftarrow> a;
                 (case malloc e s of
                    (None, s) \<Rightarrow> None
                  | (Some _, s) \<Rightarrow> Some (pages @ [page_of (mei_memmory_address item)], s))
               } else a"
  have ch: "chain mei_next ?h (mem_info_list s) ms" using assms(2) by (simp add: mem_refs_def)
  have "\<exists>k. mallocs t \<le> k \<and> fold (\<lambda>r. ?f r (the (?h r))) rs (Some (ps, t)) =
      Some (ps @ map (\<lambda>r. page_of (mei_memmory_address (the (?h r)))) (filter (\<lambda>r. mei_direction (the (?h r)) = 1) rs),
            t\<lparr>mallocs := k\<rparr>)" for rs ps and t :: "('a, 'b) plugin_state_scheme"
  proof (induction rs arbitrary: ps t)
    case Nil
    show ?case by (intro exI [of _ "mallocs t"]) simp
  next
    case (Cons r rs)
    show ?case
    proof (cases "mei_direction (the (?h r)) = 1")
      case True
      obtain k where "mallocs (t\<lparr>mallocs := Suc (mallocs t)\<rparr>) \<le> k"
        "fold (\<lambda>r. ?f r (the (?h r))) rs (Some (ps @ [page_of (mei_memmory_address (the (?h r)))], t\<lparr>mallocs := Suc (mallocs t)\<rparr>)) =
          Some ((ps @ [page_of (mei_memmory_address (the (?h r)))]) @
            map (\<lambda>r. page_of (mei_memmory_address (the (?h r)))) (filter (\<lambda>r. mei_direction (the (?h r)) = 1) rs),
            t\<lparr>mallocs := Suc (mallocs t)\<rparr>\<lparr>mallocs := k\<rparr>)"
        using Cons.IH by blast
      with True assms(1) show ?thesis by (intro exI [of _ k]) (simp add: plenty_malloc)
    next
      case False
      with Cons.IH [of t ps] show ?thesis by simp
    qed
  qed
  from this [of s ms "[]"] show ?thesis
    unfolding written_pages_def walk_chain [OF ch] stored_pages_def by (simp only: bind.bind_lunit append_Nil)
qed

lemma dump_frame_memdump:
  assumes "memdump_only s s'"
  shows "dump_frame s s'" "guest s' = guest s" "first_registerdump s' = first_registerdump s"
    "register_heap s' = register_heap s" "end_point_heap s' = end_point_heap s"
    "mem_map_infos s' = mem_map_infos s" "mem_map_size s' = mem_map_size s"
proof -
  obtain k v n u where k: "mallocs s \<le> k"
    "s' = s\<lparr>mallocs := k, memdump := v, num_memdump := n, used_memdump := u\<rparr>"
    using assms by (auto simp: memdump_only_def)
  show "dump_frame s s'"
    using dump_frameI [OF k(1), where g = "guest s" and v = v and n = n and u = u and
      fr = "first_registerdump s" and rh = "register_heap s" and
      eh = "end_point_heap s" and mi = "mem_map_infos s" and mz = "mem_map_size s"] k(2) by simp
qed (use assms in \<open>auto simp: memdump_only_def\<close>)

lemma register_pages_logs:
  assumes "plenty e"
  shows "memdump_ok s \<Longrightarrow> \<exists>s'. memmap_dump_register_pages e keys s = Some s' \<and> memdump_only s s' \<and>
    memdump_ok s' \<and> logs s' = logs s @ map (\<lambda>p. (p, 0x1000, [])) keys"
proof (induction keys arbitrary: s)
  case Nil
  then show ?case by simp
next
  case (Cons key keys)
  obtain t where t: "insert_memorydump_config e key 0x1000 s = Some (1, t)" "memdump_only s t" "memdump_ok t"
    "logs t = logs s @ [(key, 0x1000, [])]"
    using insert_memorydump_config_logs [OF assms Cons.prems, where len = "0x1000" and base = key] by auto
  obtain u where u: "memmap_dump_register_pages e keys t = Some u" "memdump_only t u" "memdump_ok u"
    "logs u = logs t @ map (\<lambda>p. (p, 0x1000, [])) keys"
    using Cons.IH [OF t(3)] by blast
  with t memdump_only_trans [OF t(2) u(2)] show ?case by simp
qed

definition page_regions :: "'g io \<Rightarrow> ref list \<Rightarrow> ('g, 'z) plugin_state_scheme \<Rightarrow> region_log list" where
  "page_regions io ms s =
     (if full_mem_dump_enabled s \<noteq> 0 then map (\<lambda>p. (p, 0x1000, [])) (io_pages io (stored_pages s ms)) else [])"

lemma pages_stage:
  assumes "plenty e" "mem_refs s ms" "memdump_ok s"
  shows "\<exists>s'. dump_written_pages e io s = Some s' \<and> memdump_only s s' \<and> memdump_ok s' \<and>
    logs s' = logs s @ page_regions io ms s"
proof (cases "full_mem_dump_enabled s = 0")
  case True
  with assms(3) show ?thesis by (simp add: dump_written_pages_def page_regions_def)
next
  case False
  obtain k where k: "mallocs s \<le> k" "written_pages e s = Some (stored_pages s ms, s\<lparr>mallocs := k\<rparr>)"
    using written_pages_stored [OF assms(1,2)] by blast
  have ok: "memdump_ok (s\<lparr>mallocs := k\<rparr>)" using assms(3) by (simp add: memdump_ok_mallocs)
  obtain s' where s': "memmap_dump_register_pages e (io_pages io (stored_pages s ms)) (s\<lparr>mallocs := k\<rparr>) = Some s'"
    "memdump_only (s\<lparr>mallocs := k\<rparr>) s'" "memdump_ok s'"
    "logs s' = logs s @ map (\<lambda>p. (p, 0x1000, [])) (io_pages io (stored_pages s ms))"
    using register_pages_logs [OF assms(1) ok] by (auto simp: memdump_ok_mallocs)
  have "memdump_only s (s\<lparr>mallocs := k\<rparr>)"
    using memdump_onlyI [OF k(1), where v = "memdump s" and n = "num_memdump s" and u = "used_memdump s"] by simp
  from memdump_only_trans [OF this s'(2)] show ?thesis
    using False k(2) s'(1,3,4) by (simp add: dump_written_pages_def page_regions_def)
qed

lemma end_point_stage:
  assumes "chain ep_next (end_point_heap s) (end_point s) (q # es)"
  shows "report_end_point msg s =
    Some (msg\<lparr>dm_end_point := (if trignum (ep_location (the (end_point_heap s q))) = 4 then 1 else 0)\<rparr>,
          s\<lparr>end_point_heap := end_point_heap s |` (- set (q # es))\<rparr>)"
proof -
  obtain n where n: "end_point s = Some q" "end_point_heap s q = Some n"
    using assms by (auto split: option.splits)
  have f: "free_chain ep_next (Some q) (end_point_heap s) = Some (end_point_heap s |` (- set (q # es)))"
    using free_chain_frees [OF assms] n(1) by simp
  show ?thesis unfolding report_end_point_def n bind.bind_lunit f option.sel ..
qed

lemma read_all_total:
  assumes "plenty e" "mem_sane e"
  shows "memdump_ok s \<Longrightarrow> set is \<subseteq> {..<used_memdump s} \<Longrightarrow>
    \<exists>c s'. read_all_from e is s = Some (c, s') \<and> snapshot_only s s'"
proof (induction "is" arbitrary: s)
  case Nil
  then show ?case by (simp add: snapshot_only_refl)
next
  case (Cons i "is")
  then have i: "i < used_memdump s" by simp
  obtain c t where t: "read_memoryregion e i s = Some (c, t)" "snapshot_only s t"
    using read_memoryregion_total [OF assms Cons.prems(1) i] by blast
  have "memdump_ok t" using t(2) by (simp add: snapshot_only_def)
  then obtain d u where "read_all_from e is t = Some (d, u)" "snapshot_only t u"
    using Cons.IH [of t] Cons.prems(2) snapshot_only_used [OF t(2)] by auto
  then show ?case using t snapshot_only_trans [OF t(2)] by auto
qed

lemma dump_frame_snapshot:
  assumes "snapshot_only s s'"
  shows "dump_frame s s'" "first_registerdump s' = first_registerdump s"
    "register_heap s' = register_heap s" "memdump_ok s'"
    "mem_map_infos s' = mem_map_infos s" "mem_map_size s' = mem_map_size s"
proof -
  obtain g k v where k: "mallocs s \<le> k" "s' = s\<lparr>guest := g, mallocs := k, memdump := v\<rparr>"
    using assms by (auto simp: snapshot_only_def)
  show "dump_frame s s'"
    using dump_frameI [OF k(1), where g = g and v = v and n = "num_memdump s" and u = "used_memdump s" and
      fr = "first_registerdump s" and rh = "register_heap s" and
      eh = "end_point_heap s" and mi = "mem_map_infos s" and mz = "mem_map_size s"] k(2) by simp
qed (use assms in \<open>auto simp: snapshot_only_def\<close>)

section \<open>From the last register dump to the message\<close>

text \<open>The part of the dump after the memory was read.\<close>

definition dump_tail ::
  "'g env \<Rightarrow> 'g io \<Rightarrow> data_msg \<Rightarrow> ('g, 'z) plugin_state_scheme \<Rightarrow>
   ('g, 'z) plugin_state_scheme outcome option" where
  "dump_tail e io msg s =
     checked (map_option (\<lambda>(c, s). (c, msg, s))
                        (add_new_registerdump e (of_int (tb_counter s)) s)) (\<lambda>msg s.
             checked (plugin_dump_tb_information e msg s) (\<lambda>msg s.
             checked (if tb_exec_order_enabled s = 1 then plugin_dump_tb_exec_order e msg s
                      else Some (0, msg, s)) (\<lambda>msg s.
             checked (plugin_dump_mem_information e msg s) (\<lambda>msg s.
             dump_regions e msg s (\<lambda>msg s.
             checked (read_register_module e msg s) (\<lambda>msg s.
             checked (dump_tb_faulted_data e msg s) (\<lambda>msg s.
             send_message e io msg s)))))))"

lemma checked_ok: "r = Some (0, m, s) \<Longrightarrow> checked r k = k m s"
  by (simp add: checked_def)

text \<open>What the message says about the run that ended in the state \<open>s\<close>.\<close>

definition reports_run ::
  "'g env \<Rightarrow> ref list \<Rightarrow> u64 list \<Rightarrow> ref list \<Rightarrow> ref list \<Rightarrow> register_dump_msg list \<Rightarrow>
   ('g, 'z) plugin_state_scheme \<Rightarrow> data_msg \<Rightarrow> bool" where
  "reports_run e ts as ms fs ds s M \<longleftrightarrow>
     distinct (map ti_base_address (dm_tb_informations M)) \<and>
     tb_table s = map_of (map (\<lambda>m. (ti_base_address m, m)) (dm_tb_informations M)) \<and>
     dm_tb_exec_orders M = (if tb_exec_order_enabled s = 1 then kept (tb_exec_order_ring_buffer s) as else []) \<and>
     dm_mem_infos M = mem_view s ms \<and>
     dm_mem_dump_infos M = map dump_message (logs s) \<and>
     (\<exists>d. reports e (arch s) (guest s, of_int (tb_counter s)) d \<and>
        dm_register_info M = Some \<lparr>ri_register_dumps = d # ds, ri_arch_type = word_of_int (arch s)\<rparr>) \<and>
     dm_faulted_datas M = faulted_msgs (map (\<lambda>r. faulted_view (the (tb_faulted_heap s r))) fs)"

text \<open>The header of a message whose collections are still empty.\<close>

definition header_only :: "data_msg \<Rightarrow> bool" where
  "header_only msg \<longleftrightarrow>
     dm_tb_informations msg = [] \<and> dm_tb_exec_orders msg = [] \<and> dm_mem_infos msg = [] \<and>
     dm_mem_dump_infos msg = [] \<and> dm_faulted_datas msg = []"

definition same_header :: "data_msg \<Rightarrow> data_msg \<Rightarrow> bool" where
  "same_header msg M \<longleftrightarrow>
     dm_architecture M = dm_architecture msg \<and> dm_end_point M = dm_end_point msg \<and>
     dm_end_reason M = dm_end_reason msg \<and> dm_mem_map_infos M = dm_mem_map_infos msg"

lemma mallocs_twice: "s\<lparr>mallocs := k\<rparr>\<lparr>mallocs := l\<rparr> = s\<lparr>mallocs := l\<rparr>"
  by simp

lemma dump_tail_message:
  assumes "plenty e" "ready ts as ms fs s" "memdump_ok s" "register_log s ds" "header_only msg"
  shows "\<exists>M t. dump_tail e io msg s = send_message e io M t \<and> same_header msg M \<and>
    reports_run e ts as ms fs ds s M \<and> dm_register_info M \<noteq> None \<and>
    dump_frame s t \<and> guest t = guest s \<and> memdump_ok t \<and> mem_map_infos t = mem_map_infos s \<and>
    mem_map_size t = mem_map_size s"
proof -
  have k: "known_arch (arch s)" using assms(2) by (simp add: ready_def)
  let ?d = "register_msg (new_dump e (mallocs s) (first_registerdump s) (arch s) (guest s) (of_int (tb_counter s)))"
  obtain s1 where s1: "add_new_registerdump e (of_int (tb_counter s)) s = Some (0, s1)" "register_only s s1"
    "register_log s1 (?d # ds)"
    using add_new_registerdump_log [OF assms(1) k assms(4)] by blast
  obtain j p h where u: "mallocs s \<le> j" "s1 = s\<lparr>mallocs := j, first_registerdump := p, register_heap := h\<rparr>"
    using s1(2) by (auto simp: register_only_def)
  have fr: "dump_frame s s1"
    using dump_frameI [OF u(1), where g = "guest s" and v = "memdump s" and n = "num_memdump s" and
      u = "used_memdump s" and fr = p and rh = h and eh = "end_point_heap s" and mi = "mem_map_infos s" and
      mz = "mem_map_size s"] u(2) by simp
  have mem1: "memdump_ok s1" "logs s1 = logs s"
    using memdump_ok_same [of s1 s] u(2) assms(3) by simp_all
  have rdy: "ready ts as ms fs (s1\<lparr>mallocs := k\<rparr>)" if "mallocs s1 \<le> k" for k
    using ready_frame [OF assms(2) dump_frame_trans [OF fr dump_frame_mallocs [OF that]]] .
  have rl: "register_log (s1\<lparr>mallocs := k\<rparr>) (?d # ds)" if "mallocs s1 \<le> k" for k
    using that by (intro register_log_cong [OF s1(3)]) simp_all
  have mok: "memdump_ok (s1\<lparr>mallocs := k\<rparr>)" for k using mem1(1) by (simp add: memdump_ok_mallocs)
  have "ready ts as ms fs s1" using ready_frame [OF assms(2) fr] .
  then have tr: "tb_refs s1 ts" by (simp add: ready_def)
  obtain k2 infos where s2: "mallocs s1 \<le> k2" "plugin_dump_tb_information e msg s1 =
      Some (0, if ts = [] then msg else msg\<lparr>dm_tb_informations := infos\<rparr>, s1\<lparr>mallocs := k2\<rparr>)"
    "length infos = length ts" "distinct (map ti_base_address infos)"
    "tb_table s1 = map_of (map (\<lambda>m. (ti_base_address m, m)) infos)"
    using plugin_dump_tb_information_table [OF assms(1) tr] by blast
  define m2 where "m2 = (if ts = [] then msg else msg\<lparr>dm_tb_informations := infos\<rparr>)"
  let ?s2 = "s1\<lparr>mallocs := k2\<rparr>"
  have "\<exists>k. k2 \<le> k \<and> (if tb_exec_order_enabled ?s2 = 1 then plugin_dump_tb_exec_order e m2 ?s2 else Some (0, m2, ?s2)) =
      Some (0, if tb_exec_order_enabled s = 1 then m2\<lparr>dm_tb_exec_orders := kept (tb_exec_order_ring_buffer s) as\<rparr> else m2,
            s1\<lparr>mallocs := k\<rparr>)"
  proof -
    have r: "exec_log ?s2 as" "length as < 2 ^ 64" using rdy [OF s2(1)] by (simp_all add: ready_def)
    obtain k where "mallocs ?s2 \<le> k" "plugin_dump_tb_exec_order e m2 ?s2 =
        Some (0, m2\<lparr>dm_tb_exec_orders := kept (tb_exec_order_ring_buffer ?s2) as\<rparr>, ?s2\<lparr>mallocs := k\<rparr>)"
      using plugin_dump_tb_exec_order_log [OF assms(1) r] by blast
    then show ?thesis using u(2) by (cases "tb_exec_order_enabled s = 1") auto
  qed
  then obtain k3 where s3: "k2 \<le> k3"
    "(if tb_exec_order_enabled ?s2 = 1 then plugin_dump_tb_exec_order e m2 ?s2 else Some (0, m2, ?s2)) =
      Some (0, if tb_exec_order_enabled s = 1 then m2\<lparr>dm_tb_exec_orders := kept (tb_exec_order_ring_buffer s) as\<rparr> else m2,
            s1\<lparr>mallocs := k3\<rparr>)" by blast
  define m3 where "m3 = (if tb_exec_order_enabled s = 1
    then m2\<lparr>dm_tb_exec_orders := kept (tb_exec_order_ring_buffer s) as\<rparr> else m2)"
  have l3: "mallocs s1 \<le> k3" using s2(1) s3(1) by simp
  then have mr: "mem_refs (s1\<lparr>mallocs := k3\<rparr>) ms" using rdy by (simp add: ready_def)
  obtain k4 where s4: "k3 \<le> k4" "plugin_dump_mem_information e m3 (s1\<lparr>mallocs := k3\<rparr>) =
      Some (0, if ms = [] then m3 else m3\<lparr>dm_mem_infos := mem_view (s1\<lparr>mallocs := k3\<rparr>) ms\<rparr>, s1\<lparr>mallocs := k4\<rparr>)"
    using plugin_dump_mem_information_view [OF assms(1) mr, of m3] by auto
  define m4 where "m4 = (if ms = [] then m3 else m3\<lparr>dm_mem_infos := mem_view s ms\<rparr>)"
  have v: "mem_view (s1\<lparr>mallocs := k3\<rparr>) = mem_view s"
    using views_frame(2) [OF dump_frame_trans [OF fr dump_frame_mallocs [OF l3]]] .
  have l4: "mallocs s1 \<le> k4" using l3 s4(1) by simp
  obtain k5 where s5: "k4 \<le> k5" "readout_all_memorydump e m4 (s1\<lparr>mallocs := k4\<rparr>) =
      Some (Inr (0, if used_memdump s = 0 then m4 else m4\<lparr>dm_mem_dump_infos := map dump_message (logs s)\<rparr>), s1\<lparr>mallocs := k5\<rparr>)"
  proof -
    have lg: "logs (s1\<lparr>mallocs := k4\<rparr>) = logs s" using mem1(2) by (simp only: memdump_ok_mallocs)
    have us: "used_memdump (s1\<lparr>mallocs := k4\<rparr>) = used_memdump s" using u(2) by simp
    have mm: "mallocs (s1\<lparr>mallocs := k4\<rparr>) = k4" by simp
    from readout_all_memorydump_messages [OF assms(1) mok, of k4 m4, unfolded lg us mm mallocs_twice] that
    show ?thesis by blast
  qed
  define m5 where "m5 = (if used_memdump s = 0 then m4 else m4\<lparr>dm_mem_dump_infos := map dump_message (logs s)\<rparr>)"
  have l5: "mallocs s1 \<le> k5" using l4 s5(1) by simp
  have k5: "known_arch (arch (s1\<lparr>mallocs := k5\<rparr>))" using k u(2) by simp
  obtain k6 where s6: "k5 \<le> k6" "read_register_module e m5 (s1\<lparr>mallocs := k5\<rparr>) =
      Some (0, m5\<lparr>dm_register_info := Some \<lparr>ri_register_dumps = ?d # ds, ri_arch_type = word_of_int (arch s)\<rparr>\<rparr>,
            s1\<lparr>mallocs := k6\<rparr>)"
    using read_register_module_messages [OF assms(1) k5 rl [OF l5], of m5] u(2) by auto
  define m6 where "m6 = m5\<lparr>dm_register_info := Some \<lparr>ri_register_dumps = ?d # ds, ri_arch_type = word_of_int (arch s)\<rparr>\<rparr>"
  have l6: "mallocs s1 \<le> k6" using l5 s6(1) by simp
  then have fr6: "faulted_refs (s1\<lparr>mallocs := k6\<rparr>) fs" using rdy by (simp add: ready_def)
  obtain k7 where s7: "k6 \<le> k7" "dump_tb_faulted_data e m6 (s1\<lparr>mallocs := k6\<rparr>) =
      Some (0, if fs = [] then m6
             else m6\<lparr>dm_faulted_datas := faulted_msgs (map (\<lambda>r. faulted_view (the (tb_faulted_heap s r))) fs)\<rparr>,
          s1\<lparr>mallocs := k7\<rparr>)"
    using dump_tb_faulted_data_refs [OF assms(1) fr6, of m6] u(2) by auto
  define m7 where "m7 = (if fs = [] then m6
             else m6\<lparr>dm_faulted_datas := faulted_msgs (map (\<lambda>r. faulted_view (the (tb_faulted_heap s r))) fs)\<rparr>)"
  have l7: "mallocs s1 \<le> k7" using l6 s7(1) by simp
  have conf: "memory_module_configured (s1\<lparr>mallocs := k4\<rparr>) \<noteq> 0"
    using mem1(1) by (auto simp: memory_module_configured_def memdump_ok_def split: option.splits)
  have reg: "map_option (\<lambda>(c, s). (c, msg, s)) (add_new_registerdump e (of_int (tb_counter s)) s) = Some (0, msg, s1)"
    unfolding s1(1) by simp
  have "dump_tail e io msg s = send_message e io m7 (s1\<lparr>mallocs := k7\<rparr>)"
    unfolding dump_tail_def checked_ok [OF reg] checked_ok [OF s2(2), folded m2_def]
      checked_ok [OF s3(2), folded m3_def] checked_ok [OF s4(2), unfolded v, folded m4_def]
      dump_regions_def if_P [OF conf] s5(2) [folded m5_def] bind.bind_lunit prod.case sum.case
      checked_ok [OF s6(2), folded m6_def] checked_ok [OF s7(2), folded m7_def]
    by (simp only: simp_thms if_False checked_ok [OF s6(2), folded m6_def] checked_ok [OF s7(2), folded m7_def])
  moreover have "same_header msg m7"
    by (simp add: same_header_def m7_def m6_def m5_def m4_def m3_def m2_def)
  moreover have "reports_run e ts as ms fs ds s m7"
  proof -
    have h: "dm_tb_informations msg = []" "dm_tb_exec_orders msg = []" "dm_mem_infos msg = []"
      "dm_mem_dump_infos msg = []" "dm_faulted_datas msg = []"
      using assms(5) by (simp_all add: header_only_def)
    have "dm_tb_informations m7 = infos"
    proof -
      have "ts = [] \<longrightarrow> infos = []" using s2(3) by (cases ts) simp_all
      then show ?thesis using h(1) by (auto simp: m7_def m6_def m5_def m4_def m3_def m2_def)
    qed
    moreover have "tb_table s = tb_table s1" using views_frame(1) [OF fr] by simp
    moreover have "dm_tb_exec_orders m7 = (if tb_exec_order_enabled s = 1 then kept (tb_exec_order_ring_buffer s) as else [])"
      using h(2) by (simp add: m7_def m6_def m5_def m4_def m3_def m2_def)
    moreover have "dm_mem_infos m7 = mem_view s ms"
      using h(3) by (simp add: m7_def m6_def m5_def m4_def m3_def m2_def mem_view_def)
    moreover have "dm_mem_dump_infos m7 = map dump_message (logs s)"
    proof -
      have "used_memdump s = 0 \<longrightarrow> logs s = []" using length_logs [OF assms(3)] by (cases "logs s") simp_all
      then show ?thesis using h(4) by (auto simp: m7_def m6_def m5_def m4_def m3_def m2_def)
    qed
    moreover have "dm_register_info m7 = Some \<lparr>ri_register_dumps = ?d # ds, ri_arch_type = word_of_int (arch s)\<rparr>"
      by (simp add: m7_def m6_def)
    moreover have "reports e (arch s) (guest s, of_int (tb_counter s)) ?d" by (rule new_dump_reports)
    moreover have "dm_faulted_datas m7 = faulted_msgs (map (\<lambda>r. faulted_view (the (tb_faulted_heap s r))) fs)"
      using h(5) by (simp add: m7_def m6_def m5_def m4_def m3_def m2_def faulted_msgs_def)
    ultimately show ?thesis using s2(4,5) unfolding reports_run_def by (simp only: simp_thms) blast
  qed
  moreover have "dm_register_info m7 \<noteq> None" by (simp add: m7_def m6_def)
  moreover have "dump_frame s (s1\<lparr>mallocs := k7\<rparr>)" using dump_frame_trans [OF fr dump_frame_mallocs [OF l7]] .
  moreover have "guest (s1\<lparr>mallocs := k7\<rparr>) = guest s" "mem_map_infos (s1\<lparr>mallocs := k7\<rparr>) = mem_map_infos s"
    "mem_map_size (s1\<lparr>mallocs := k7\<rparr>) = mem_map_size s" using u(2) by simp_all
  ultimately show ?thesis using mok [of k7] by blast
qed

section \<open>Sending and releasing\<close>

lemma release_all_ok:
  assumes "ready ts as ms fs s" "memdump_ok s" "mem_map_infos s = None \<longrightarrow> mem_map_size s = 0"
  shows "\<exists>s'. release_all s = Some s' \<and> guest s' = guest s \<and> old_abort_action s' = old_abort_action s"
proof -
  have r: "tb_refs s ts" "exec_log s as" "mem_refs s ms" "faulted_refs s fs"
    using assms(1) by (simp_all add: ready_def)
  obtain qs where qs: "chain teo_prev (tb_exec_heap s) (tb_exec_order_list s) qs"
    using assms(1) by (auto simp: ready_def)
  let ?s1 = "s\<lparr>mem_map_infos := None\<rparr>"
  have s1: "free_memmap_info s = Some ?s1" using assms(3) by (auto simp: free_memmap_info_def)
  have "tb_refs ?s1 ts" by (rule tb_refs_same [OF r(1)]) simp_all
  note s2 = tb_info_free_refs [OF this]
  let ?s2 = "?s1\<lparr>tb_info_heap := tb_info_heap ?s1 |` (- set ts), tb_info_list := None, tb_avl_root := None\<rparr>"
  let ?t = "?s2\<lparr>tb_exec_heap := tb_exec_heap s |` (- set qs), tb_exec_order_list := None\<rparr>"
  let ?s3 = "if tb_exec_order_ring_buffer s \<noteq> 0 \<and> tb_exec_rb_list s \<noteq> None then ?t\<lparr>tb_exec_rb_list := None\<rparr> else ?t"
  have s3: "tb_exec_order_free ?s2 = Some ?s3"
    using free_chain_frees [OF qs] by (simp add: tb_exec_order_free_def)
  have "mem_refs ?s3 ms" by (rule mem_refs_same [OF r(3)]) simp_all
  note s4 = mem_info_free_refs [OF this]
  let ?s4 = "?s3\<lparr>mem_info_heap := mem_info_heap ?s3 |` (- set ms), mem_info_list := None, mem_avl_root := None\<rparr>"
  have "memdump_ok ?s4" using assms(2) memdump_ok_same [of ?s4 s] by simp
  note s5 = delete_memory_dump_ok [OF this]
  let ?s5 = "?s4\<lparr>memdump := None\<rparr>"
  have "free_chain tf_next (tb_faulted_list ?s5) (tb_faulted_heap ?s5) = Some (tb_faulted_heap s |` (- set fs))"
    using r(4) by (simp add: faulted_refs_def free_chain_frees)
  then have s6: "tb_faulted_free ?s5 = Some (?s5\<lparr>tb_faulted_heap := tb_faulted_heap s |` (- set fs),
      tb_faulted_list := None, active_triggers := None, max_triggers := 0, current_triggers := 0, done_triggers := 0\<rparr>)"
    unfolding tb_faulted_free_def by (simp only: bind.bind_lunit)
  have "release_all s = Some (?s5\<lparr>tb_faulted_heap := tb_faulted_heap s |` (- set fs),
      tb_faulted_list := None, active_triggers := None, max_triggers := 0, current_triggers := 0, done_triggers := 0\<rparr>)"
    unfolding release_all_def s1 s2 s3 s4 s5 s6 bind.bind_lunit ..
  then show ?thesis by simp
qed

lemma machine_updates:
  fixes s :: "('g, 'z) plugin_state_scheme"
  shows "s\<lparr>guest := g, mallocs := k\<rparr> = s\<lparr>mallocs := k, guest := g\<rparr>"
  by (intro plugin_state.equality) simp_all

lemma send_message_total:
  assumes "plenty e" "io_sane io" "ready ts as ms fs s" "memdump_ok s"
    and "mem_map_infos s = None \<longrightarrow> mem_map_size s = 0" "dm_register_info M \<noteq> None"
  shows "\<exists>r. send_message e io M s = Some r \<and> (\<forall>c s'. r = Inl (c, s') \<longrightarrow> c = 1)"
    and "pipes s = Some p \<Longrightarrow> writes_to io (fifo_data p) sent \<Longrightarrow>
      \<exists>s'. send_message e io M s = Some (Inr s') \<and> sent (guest s') = sent (guest s) @ io_pack_data io M \<and>
        old_abort_action s' = old_abort_action s"
proof -
  let ?s = "s\<lparr>mallocs := Suc (mallocs s)\<rparr>"
  have rel: "\<exists>u. release_all (?s\<lparr>guest := g\<rparr>) = Some u \<and> guest u = g \<and> old_abort_action u = old_abort_action s" for g
  proof -
    let ?t = "?s\<lparr>guest := g\<rparr>"
    have "dump_frame s ?t"
      using dump_frameI [of s "Suc (mallocs s)", where g = g and v = "memdump s" and n = "num_memdump s" and
        u = "used_memdump s" and fr = "first_registerdump s" and rh = "register_heap s" and
        eh = "end_point_heap s" and mi = "mem_map_infos s" and mz = "mem_map_size s"]
      by (simp add: machine_updates)
    then have "ready ts as ms fs ?t" by (rule ready_frame [OF assms(3)])
    moreover have "memdump_ok ?t" using assms(4) memdump_ok_same [of ?t s] by simp
    ultimately show ?thesis using release_all_ok [of ts as ms fs ?t] assms(5) by simp
  qed
  obtain q where q: "pipes s = Some q" using assms(3) by (auto simp: ready_def)
  obtain i where i: "dm_register_info M = Some i" using assms(6) by blast
  have run: "send_message e io M s = (if ret \<noteq> 0 then Some (Inl (1, ?s\<lparr>guest := g\<rparr>))
      else map_option Inr (release_all (?s\<lparr>guest := g\<rparr>)))"
    if "write_loop io (fifo_data q) (io_pack_data io M) (guest s) = Some (ret, g)" for ret g
    using assms(1) that q i rel [of g]
    by (auto simp: send_message_def plenty_malloc plugin_write_to_data_pipe_def)
  obtain ret g where w: "write_loop io (fifo_data q) (io_pack_data io M) (guest s) = Some (ret, g)"
    using write_loop_total [OF assms(2)] by blast
  show "\<exists>r. send_message e io M s = Some r \<and> (\<forall>c s'. r = Inl (c, s') \<longrightarrow> c = 1)"
    using run [OF w] rel [of g] by (cases "ret = 0") auto
  show "\<exists>s'. send_message e io M s = Some (Inr s') \<and> sent (guest s') = sent (guest s) @ io_pack_data io M \<and>
      old_abort_action s' = old_abort_action s"
    if "pipes s = Some p" "writes_to io (fifo_data p) sent"
  proof -
    have "writes_to io (fifo_data q) sent" using that q by simp
    from write_loop_sends [OF this] obtain g where g:
      "write_loop io (fifo_data q) (io_pack_data io M) (guest s) = Some (0, g)"
      "sent g = sent (guest s) @ io_pack_data io M" by blast
    then show ?thesis using run [OF g(1)] rel [of g] g(2) by auto
  qed
qed

section \<open>The whole dump\<close>

lemma collected_ready:
  assumes "collected rs es ts as ms s" "engine_ok rs s" "faulted_refs s fs"
  shows "ready ts as ms fs s"
proof -
  have log: "exec_log s as" using assms(1) by (simp add: collected_def)
  have "\<exists>qs. chain teo_prev (tb_exec_heap s) (tb_exec_order_list s) qs"
  proof (cases "tb_exec_order_ring_buffer s = 0")
    case True
    then show ?thesis using log by (auto simp: exec_log_def list_log_def exec_refs_def)
  next
    case False
    then have "tb_exec_order_list s = None" using assms(1) by (simp add: collected_def)
    then show ?thesis by (intro exI [of _ "[]"]) simp
  qed
  then show ?thesis using assms by (simp add: ready_def collected_def engine_ok_def records_ok_def)
qed

lemma engine_faulted_refs: "engine_ok rs s \<Longrightarrow> \<exists>fs. faulted_refs s fs"
  by (auto simp: engine_ok_def records_ok_def faulted_ok_def)

lemma dump_frame_eh:
  "dump_frame s (s\<lparr>end_point_heap := h\<rparr>)"
  using dump_frameI [of s "mallocs s", where g = "guest s" and v = "memdump s" and n = "num_memdump s" and
      u = "used_memdump s" and fr = "first_registerdump s" and rh = "register_heap s" and
      eh = h and mi = "mem_map_infos s" and mz = "mem_map_size s"] by simp

lemma dump_frame_map:
  "mallocs s \<le> k \<Longrightarrow> dump_frame s (s\<lparr>mallocs := k, mem_map_infos := mi, mem_map_size := mz\<rparr>)"
  using dump_frameI [of s k, where g = "guest s" and v = "memdump s" and n = "num_memdump s" and
      u = "used_memdump s" and fr = "first_registerdump s" and rh = "register_heap s" and
      eh = "end_point_heap s" and mi = mi and mz = mz] by simp

text \<open>The dump up to the readout of the memory.\<close>

lemma dump_head:
  assumes "plenty e" "io_sane io" "collected rs es ts as ms s" "engine_ok rs s"
    and "faulted_refs s fs" "register_log s ds"
  shows "\<exists>msg t. plugin_end_information_dump e io reason s =
      checked (map_option (\<lambda>(c, s). (c, msg, s)) (read_all_memory e t)) (dump_tail e io) \<and>
    dm_architecture msg = architecture s \<and> dm_end_reason msg = reason \<and>
    dm_end_point msg = (if trignum (ep_location (the (end_point_heap s (hd es)))) = 4 then 1 else 0) \<and>
    dm_mem_map_infos msg = (if memmap_dump_enabled s \<noteq> 0 then ram_ranges (io_ranges io (guest s)) else []) \<and>
    header_only msg \<and> dump_frame s t \<and> guest t = guest s \<and> ready ts as ms fs t \<and> memdump_ok t \<and>
    register_log t ds \<and> logs t = logs s @ page_regions io ms s \<and>
    (mem_map_infos t = None \<longrightarrow> mem_map_size t = 0)"
proof -
  let ?s1 = "s\<lparr>mallocs := Suc (mallocs s)\<rparr>"
  define msg1 where "msg1 = data_msg_init\<lparr>dm_architecture := architecture s\<rparr>"
  define msg2 where "msg2 = (if memmap_dump_enabled s \<noteq> 0
    then msg1\<lparr>dm_mem_map_infos := ram_ranges (io_ranges io (guest s))\<rparr> else msg1)"
  have g: "guest ?s1 = guest s" "mem_map_infos ?s1 = mem_map_infos s" "mem_map_size ?s1 = mem_map_size s"
    "memmap_dump_enabled ?s1 = memmap_dump_enabled s" "mallocs ?s1 = Suc (mallocs s)" by simp_all
  obtain k mi mz where k0: "Suc (mallocs s) \<le> k"
    "(if memmap_dump_enabled s \<noteq> 0 then plugin_dump_memmap_information e io msg1 ?s1 else Some (0, msg1, ?s1)) =
      Some (0, msg2, s\<lparr>mallocs := k, mem_map_infos := mi, mem_map_size := mz\<rparr>)"
    "memmap_dump_enabled s \<noteq> 0 \<longrightarrow> mi \<noteq> None"
    "memmap_dump_enabled s = 0 \<longrightarrow> mi = mem_map_infos s \<and> mz = mem_map_size s"
    using memmap_stage [OF assms(1,2), of ?s1 msg1, unfolded g mallocs_twice, folded msg2_def]
    by (elim exE conjE) (rule that)
  have "mem_map_infos s = None \<longrightarrow> mem_map_size s = 0" using assms(3) by (simp add: collected_def)
  then have "mi = None \<longrightarrow> mz = 0" using k0(3,4) by (cases "memmap_dump_enabled s = 0") auto
  note k = k0(1) k0(2) [folded g(4)] this
  let ?s2 = "s\<lparr>mallocs := k, mem_map_infos := mi, mem_map_size := mz\<rparr>"
  have f2: "dump_frame s ?s2" using k(1) by (intro dump_frame_map) simp
  have rdy: "ready ts as ms fs s" by (rule collected_ready [OF assms(3-5)])
  then have mr: "mem_refs ?s2 ms" using ready_frame [OF _ f2] by (auto simp: ready_def)
  have mok: "memdump_ok s" using assms(4) by (simp add: engine_ok_def records_ok_def)
  then have mok2: "memdump_ok ?s2" using memdump_ok_same [of ?s2 s] by simp
  obtain s3 where s3: "dump_written_pages e io ?s2 = Some s3" "memdump_only ?s2 s3" "memdump_ok s3"
    "logs s3 = logs ?s2 @ page_regions io ms ?s2"
    using pages_stage [OF assms(1) mr mok2] by blast
  note m3 = dump_frame_memdump [OF s3(2)]
  have f3: "dump_frame s s3" by (rule dump_frame_trans [OF f2 m3(1)])
  obtain q qs where es: "es = q # qs" using assms(3) by (cases es) (simp_all add: collected_def)
  have ch: "chain ep_next (end_point_heap s3) (end_point s3) (q # qs)"
    using assms(3) m3(5) dump_frame_fields(21) [OF f3] es by (simp add: collected_def)
  let ?t = "s3\<lparr>end_point_heap := end_point_heap s3 |` (- set (q # qs))\<rparr>"
  define msg3 where "msg3 = msg2\<lparr>dm_end_point := (if trignum (ep_location (the (end_point_heap s3 q))) = 4 then 1 else 0)\<rparr>"
  note s4 = end_point_stage [OF ch, of msg2, folded msg3_def]
  have f4: "dump_frame s ?t" by (rule dump_frame_trans [OF f3 dump_frame_eh])
  have mokt: "memdump_ok ?t" using s3(3) memdump_ok_same [of ?t s3] by simp
  then have conf: "memory_module_configured ?t \<noteq> 0"
    by (auto simp: memory_module_configured_def memdump_ok_def split: option.splits)
  let ?msg = "msg3\<lparr>dm_end_reason := reason\<rparr>"
  have m: "malloc e s = (Some (mallocs s), ?s1)" using assms(1) by (simp add: plenty_malloc)
  have ar: "data_msg_init\<lparr>dm_architecture := architecture ?s1\<rparr> = msg1" by (simp add: msg1_def)
  have "plugin_end_information_dump e io reason s =
      checked (map_option (\<lambda>(c, s). (c, ?msg, s)) (read_all_memory e ?t)) (dump_tail e io)"
    unfolding plugin_end_information_dump_def m prod.case option.case Let_def ar
      checked_ok [OF k(2)] s3(1) bind.bind_lunit s4 if_P [OF conf] dump_tail_def [abs_def] ..
  moreover have "dm_architecture ?msg = architecture s" "dm_end_reason ?msg = reason" "header_only ?msg"
    "dm_mem_map_infos ?msg = (if memmap_dump_enabled s \<noteq> 0 then ram_ranges (io_ranges io (guest s)) else [])"
    by (simp_all add: msg3_def msg2_def msg1_def data_msg_init_def header_only_def)
  moreover have "dm_end_point ?msg = (if trignum (ep_location (the (end_point_heap s (hd es)))) = 4 then 1 else 0)"
    using m3(5) es by (simp add: msg3_def)
  moreover have "ready ts as ms fs ?t" by (rule ready_frame [OF rdy f4])
  moreover have "register_log ?t ds"
    by (rule register_log_cong [OF assms(6)]) (use m3 dump_frame_fields(1,2) [OF f3] in simp_all)
  moreover have "logs ?t = logs s @ page_regions io ms s"
  proof -
    have "logs ?t = logs s3" using memdump_ok_same [of ?t s3] by simp
    moreover have "logs ?s2 = logs s" using memdump_ok_same [of ?s2 s] by simp
    moreover have "page_regions io ms ?s2 = page_regions io ms s"
      by (simp add: page_regions_def stored_pages_def)
    ultimately show ?thesis using s3(4) by simp
  qed
  moreover have "guest ?t = guest s" using m3(2) by simp
  moreover have "mem_map_infos ?t = None \<longrightarrow> mem_map_size ?t = 0" using m3(6,7) k(3) by simp
  ultimately show ?thesis
    using f4 mokt by - (rule exI [of _ ?msg], rule exI [of _ ?t], intro conjI; assumption)
qed

text \<open>Whatever reading the memory and writing the pipe do, the dump returns or ends the process with 1.\<close>

lemma dump_total:
  assumes "plenty e" "mem_sane e" "io_sane io" "collected rs es ts as ms s" "engine_ok rs s"
  shows "\<exists>r. plugin_end_information_dump e io reason s = Some r \<and> (\<forall>c s'. r = Inl (c, s') \<longrightarrow> c = 1)"
proof -
  obtain fs where fs: "faulted_refs s fs" using engine_faulted_refs [OF assms(5)] by blast
  obtain ds where ds: "register_log s ds" using assms(5) by (auto simp: engine_ok_def records_ok_def)
  obtain msg t where t: "plugin_end_information_dump e io reason s =
      checked (map_option (\<lambda>(c, s). (c, msg, s)) (read_all_memory e t)) (dump_tail e io)"
    "header_only msg" "ready ts as ms fs t" "memdump_ok t" "register_log t ds"
    "mem_map_infos t = None \<longrightarrow> mem_map_size t = 0"
    using dump_head [OF assms(1,3-5) fs ds, of reason] by (elim exE conjE) (rule that)
  obtain c u where u: "read_all_memory e t = Some (c, u)" "snapshot_only t u"
    using read_all_total [OF assms(1,2) t(4), of "[0..<used_memdump t]"]
    by (auto simp: read_all_memory_def lessThan_atLeast0)
  note m = dump_frame_snapshot [OF u(2)]
  show ?thesis
  proof (cases "c = 0")
    case True
    have "register_log u ds"
      by (rule register_log_cong [OF t(5)]) (use m dump_frame_fields(1,2) [OF m(1)] in simp_all)
    then obtain M v where v: "dump_tail e io msg u = send_message e io M v" "dm_register_info M \<noteq> None"
      "dump_frame u v" "memdump_ok v" "mem_map_infos v = mem_map_infos u" "mem_map_size v = mem_map_size u"
      using dump_tail_message [OF assms(1) ready_frame [OF t(3) m(1)] m(4) _ t(2)] by blast
    have "ready ts as ms fs v" by (rule ready_frame [OF ready_frame [OF t(3) m(1)] v(3)])
    moreover have "mem_map_infos v = None \<longrightarrow> mem_map_size v = 0" using t(6) m(5,6) v(5,6) by simp
    ultimately show ?thesis
      using send_message_total(1) [OF assms(1,3) _ v(4) _ v(2)] t(1) u(1) v(1) True by (simp add: checked_def)
  next
    case False
    then show ?thesis using t(1) u(1) by (simp add: checked_def)
  qed
qed

text \<open>
  What the message of a run that ends in the state \<open>s\<close> says: \<open>es\<close> are the end points, \<open>ts\<close> the records of
  blocks, \<open>as\<close> the executed blocks, \<open>ms\<close> the memory accesses, \<open>fs\<close> the faulted addresses, \<open>ds\<close> the register
  dumps taken before, and \<open>byte\<close> reads the memory.
\<close>

definition run_report ::
  "'g env \<Rightarrow> 'g io \<Rightarrow> ('g \<Rightarrow> u64 \<Rightarrow> u8) \<Rightarrow> ref list \<Rightarrow> u64 list \<Rightarrow> ref list \<Rightarrow> ref list \<Rightarrow>
   register_dump_msg list \<Rightarrow> string \<Rightarrow> ('g, 'z) plugin_state_scheme \<Rightarrow> data_msg \<Rightarrow> bool" where
  "run_report e io byte es as ms fs ds reason s M \<longleftrightarrow>
     dm_architecture M = architecture s \<and> dm_end_reason M = reason \<and>
     dm_end_point M = (if trignum (ep_location (the (end_point_heap s (hd es)))) = 4 then 1 else 0) \<and>
     dm_mem_map_infos M = (if memmap_dump_enabled s \<noteq> 0 then ram_ranges (io_ranges io (guest s)) else []) \<and>
     distinct (map ti_base_address (dm_tb_informations M)) \<and>
     tb_table s = map_of (map (\<lambda>m. (ti_base_address m, m)) (dm_tb_informations M)) \<and>
     dm_tb_exec_orders M = (if tb_exec_order_enabled s = 1 then kept (tb_exec_order_ring_buffer s) as else []) \<and>
     dm_mem_infos M = mem_view s ms \<and>
     dm_mem_dump_infos M =
       map dump_message (map (snapshot byte (guest s)) (logs s @ page_regions io ms s)) \<and>
     (\<exists>d. reports e (arch s) (guest s, of_int (tb_counter s)) d \<and>
        dm_register_info M = Some \<lparr>ri_register_dumps = d # ds, ri_arch_type = word_of_int (arch s)\<rparr>) \<and>
     dm_faulted_datas M = faulted_msgs (map (\<lambda>r. faulted_view (the (tb_faulted_heap s r))) fs)"

lemma dump_complete:
  assumes "plenty e" "io_sane io" "collected rs es ts as ms s" "engine_ok rs s"
    and "faulted_refs s fs" "register_log s ds"
    and "ram e byte A" "regions_in A (logs s @ page_regions io ms s)"
    and "pipes s = Some p" "writes_to io (fifo_data p) sent"
  shows "\<exists>s' M. plugin_end_information_dump e io reason s = Some (Inr s') \<and>
    sent (guest s') = sent (guest s) @ io_pack_data io M \<and> run_report e io byte es as ms fs ds reason s M \<and>
    old_abort_action s' = old_abort_action s"
proof -
  obtain msg t where t: "plugin_end_information_dump e io reason s =
      checked (map_option (\<lambda>(c, s). (c, msg, s)) (read_all_memory e t)) (dump_tail e io)"
    "dm_architecture msg = architecture s" "dm_end_reason msg = reason"
    "dm_end_point msg = (if trignum (ep_location (the (end_point_heap s (hd es)))) = 4 then 1 else 0)"
    "dm_mem_map_infos msg = (if memmap_dump_enabled s \<noteq> 0 then ram_ranges (io_ranges io (guest s)) else [])"
    "header_only msg" "dump_frame s t" "guest t = guest s" "ready ts as ms fs t" "memdump_ok t" "register_log t ds"
    "logs t = logs s @ page_regions io ms s" "mem_map_infos t = None \<longrightarrow> mem_map_size t = 0"
    using dump_head [OF assms(1-6), of reason] by (elim exE conjE) (rule that)
  obtain u where u: "read_all_memory e t = Some (0, u)" "memdump_only t u" "memdump_ok u"
    "logs u = map (snapshot byte (guest t)) (logs t)"
    using read_all_memory_logs [OF assms(1,7) t(10)] assms(8) t(12) by auto
  note m = dump_frame_memdump [OF u(2)]
  have fu: "dump_frame s u" by (rule dump_frame_trans [OF t(7) m(1)])
  note f = dump_frame_fields [OF fu]
  have rl: "register_log u ds"
    by (rule register_log_cong [OF t(11)]) (use m dump_frame_fields(1,2) [OF m(1)] in simp_all)
  have rdy: "ready ts as ms fs u" by (rule ready_frame [OF t(9) m(1)])
  obtain M v where v: "dump_tail e io msg u = send_message e io M v" "same_header msg M"
    "reports_run e ts as ms fs ds u M" "dm_register_info M \<noteq> None" "dump_frame u v" "guest v = guest u"
    "memdump_ok v" "mem_map_infos v = mem_map_infos u" "mem_map_size v = mem_map_size u"
    using dump_tail_message [OF assms(1) rdy u(3) rl t(6), of io] by (elim exE conjE) (rule that)
  have rv: "ready ts as ms fs v" by (rule ready_frame [OF rdy v(5)])
  have mv: "mem_map_infos v = None \<longrightarrow> mem_map_size v = 0" using t(13) m(6,7) v(8,9) by simp
  have pv: "pipes v = Some p" using assms(9) f(17) dump_frame_fields(17) [OF v(5)] by simp
  obtain s' where s': "send_message e io M v = Some (Inr s')" "sent (guest s') = sent (guest v) @ io_pack_data io M"
    "old_abort_action s' = old_abort_action v"
    using send_message_total(2) [OF assms(1,2) rv v(7) mv v(4) pv assms(10)] by blast
  have "plugin_end_information_dump e io reason s = Some (Inr s')"
    using t(1) u(1) v(1) s'(1) by (simp add: checked_def)
  moreover have g: "guest u = guest s" using m(2) t(8) by simp
  have "sent (guest s') = sent (guest s) @ io_pack_data io M" using s'(2) v(6) g by simp
  moreover have "run_report e io byte es as ms fs ds reason s M"
  proof -
    have r: "distinct (map ti_base_address (dm_tb_informations M))"
      "tb_table u = map_of (map (\<lambda>m. (ti_base_address m, m)) (dm_tb_informations M))"
      "dm_tb_exec_orders M = (if tb_exec_order_enabled u = 1 then kept (tb_exec_order_ring_buffer u) as else [])"
      "dm_mem_infos M = mem_view u ms" "dm_mem_dump_infos M = map dump_message (logs u)"
      "\<exists>d. reports e (arch u) (guest u, of_int (tb_counter u)) d \<and>
        dm_register_info M = Some \<lparr>ri_register_dumps = d # ds, ri_arch_type = word_of_int (arch u)\<rparr>"
      "dm_faulted_datas M = faulted_msgs (map (\<lambda>r. faulted_view (the (tb_faulted_heap u r))) fs)"
      using v(3) unfolding reports_run_def by simp_all
    have h: "dm_architecture M = architecture s" "dm_end_reason M = reason"
      "dm_end_point M = (if trignum (ep_location (the (end_point_heap s (hd es)))) = 4 then 1 else 0)"
      "dm_mem_map_infos M = (if memmap_dump_enabled s \<noteq> 0 then ram_ranges (io_ranges io (guest s)) else [])"
      using v(2) t(2-5) by (simp_all add: same_header_def)
    show ?thesis
      unfolding run_report_def
      using r [unfolded views_frame [OF fu] f(2,6,13,18,20) g u(4) t(8,12)] h
      by (intro conjI)
  qed
  moreover have "old_abort_action s' = old_abort_action s"
    using s'(3) dump_frame_fields(22) [OF fu] dump_frame_fields(22) [OF v(5)] by simp
  ultimately show ?thesis by blast
qed

end
