(* ===== verification/Runs.thy ===== *)
theory Runs
  imports EndCorrect
begin

text \<open>
  Runs of the plugin: every event that QEMU may deliver is handled without undefined behaviour, the
  invariant holds throughout, and a run ends.
\<close>

section \<open>The remaining callbacks\<close>

lemma collected_same:
  assumes "collected rs es ts as ms s" "mallocs s \<le> mallocs s'" "cbs s' = cbs s"
    and "tb_info_list s' = tb_info_list s" "tb_info_heap s' = tb_info_heap s" "tb_avl_root s' = tb_avl_root s"
    and "tb_exec_order_ring_buffer s' = tb_exec_order_ring_buffer s"
    and "tb_exec_order_list s' = tb_exec_order_list s" "tb_exec_heap s' = tb_exec_heap s"
    and "num_exec_order s' = num_exec_order s" "tb_exec_rb_list s' = tb_exec_rb_list s"
    and "tb_exec_rb_list_index s' = tb_exec_rb_list_index s"
    and "mem_info_list s' = mem_info_list s" "mem_info_heap s' = mem_info_heap s" "mem_avl_root s' = mem_avl_root s"
    and "chain ep_next (end_point_heap s') (end_point s') es" "pipes s' = pipes s"
    and "mem_map_infos s' = mem_map_infos s" "mem_map_size s' = mem_map_size s"
  shows "collected rs es ts as ms s'"
proof -
  have c: "tb_refs s ts" "exec_log s as" "mem_refs s ms" using assms(1) by (simp_all add: collected_def)
  have "tb_refs s' ts" by (rule tb_refs_same [OF c(1) assms(4-6,2)])
  moreover have "exec_log s' as" by (rule exec_log_same [OF c(2) assms(2,5,7-12)])
  moreover have "mem_refs s' ms" by (rule mem_refs_same [OF c(3) assms(13-15,2)])
  ultimately show ?thesis using assms(1,3,7,8,16-19) by (simp add: collected_def)
qed

text \<open>Only the guest, the counter of instructions, the start and the end points changed.\<close>

lemma plugin_ok_control:
  assumes "plugin_ok rs es s" "chain ep_next h (end_point s) es"
  shows "plugin_ok rs es (s\<lparr>guest := g, tb_counter := n, start_point := sp, end_point_heap := h\<rparr>)"
    (is "plugin_ok rs es ?t")
proof -
  obtain ts as ms where c: "collected rs es ts as ms s" using assms(1) by (auto simp: plugin_ok_def)
  have "collected rs es ts as ms ?t" by (rule collected_same [OF c]) (simp_all add: assms(2))
  then have "\<exists>ts as ms. collected rs es ts as ms ?t" by blast
  moreover have e: "engine_ok rs ?t \<and> hits ?t = hits s"
    by (rule engine_ok_same) (use assms(1) in \<open>simp_all add: plugin_ok_def\<close>)
  moreover have "budget rs ?t"
    by (rule budget_hits [of rs s]) (use assms(1) e in \<open>simp_all add: plugin_ok_def\<close>)
  moreover have "first_tb ?t = 0 \<longrightarrow> waiting ?t" using assms(1) by (simp add: plugin_ok_def waiting_def)
  ultimately show ?thesis by (simp add: plugin_ok_def)
qed

lemma plugin_ok_chain: "plugin_ok rs es s \<Longrightarrow> chain ep_next (end_point_heap s) (end_point s) es"
  by (auto simp: plugin_ok_def collected_def)

lemma plugin_ok_counter:
  assumes "plugin_ok rs es s"
  shows "plugin_ok rs es (s\<lparr>tb_counter := n\<rparr>)"
  using plugin_ok_control [OF assms plugin_ok_chain [OF assms], where g = "guest s" and n = n and sp = "start_point s"]
  by simp

lemma plugin_ok_end_point:
  assumes "plugin_ok rs es s" "end_point_heap s r = Some n" "ep_next n' = ep_next n"
  shows "plugin_ok rs es (s\<lparr>end_point_heap := (end_point_heap s)(r \<mapsto> n')\<rparr>)"
proof -
  have "chain ep_next ((end_point_heap s)(r \<mapsto> n')) (end_point s) es"
    using plugin_ok_chain [OF assms(1)] assms(2,3) by (simp add: chain_same_next)
  from plugin_ok_control [OF assms(1) this, where g = "guest s" and n = "tb_counter s" and sp = "start_point s"]
  show ?thesis by simp
qed

lemma tb_exec_start_cb_eq:
  "tb_exec_start_cb e s =
     s\<lparr>guest := guest (tb_exec_start_cb e s), tb_counter := tb_counter s,
       start_point := start_point (tb_exec_start_cb e s), end_point_heap := end_point_heap s\<rparr>"
  by (intro plugin_state.equality) (simp_all add: tb_exec_start_cb_def Let_def flush_guest_def)

lemma start_cb_ok: "plugin_ok rs es s \<Longrightarrow> plugin_ok rs es (tb_exec_start_cb e s)"
  by (subst tb_exec_start_cb_eq) (rule plugin_ok_control [OF _ plugin_ok_chain])

section \<open>The end of a run\<close>

lemma plugin_dump_total:
  assumes "plenty e" "mem_sane e" "io_sane io" "plugin_ok rs es s"
  shows "\<exists>c s'. plugin_end_information_dump_and_exit e io reason s = Some (Inl (c, s')) \<and> (c = 0 \<or> c = 1)"
proof -
  obtain ts as ms where "collected rs es ts as ms s" "engine_ok rs s"
    using assms(4) by (auto simp: plugin_ok_def)
  then obtain r where r: "plugin_end_information_dump e io reason s = Some r"
    "\<forall>c s'. r = Inl (c, s') \<longrightarrow> c = 1"
    using dump_total [OF assms(1-3)] by blast
  then show ?thesis by (cases r) (auto simp: plugin_end_information_dump_and_exit_def)
qed

text \<open>
  What an event does to the count of executed instructions, apart from the counting itself.
\<close>

definition counts_on :: "('g, 'z) plugin_state_scheme \<Rightarrow> ('g, 'z) plugin_state_scheme \<Rightarrow> bool" where
  "counts_on s s' \<longleftrightarrow>
     tb_counter_max s' = tb_counter_max s \<and>
     (trignum (start_point s) \<noteq> 3 \<longrightarrow> trignum (start_point s') \<noteq> 3 \<and> tb_counter s' = tb_counter s)"

text \<open>What it does to the rest: the settings stay, and \<open>f\<close> is added to the record.\<close>

definition records_on ::
  "(record_of_run \<Rightarrow> record_of_run) \<Rightarrow> ('g, 'z) plugin_state_scheme \<Rightarrow> ('g, 'z) plugin_state_scheme \<Rightarrow> bool" where
  "records_on f s s' \<longleftrightarrow>
     same_settings s s' \<and>
     (trignum (start_point s) \<noteq> 3 \<longrightarrow>
        trignum (start_point s') \<noteq> 3 \<and> (\<forall>x. recorded s x \<longrightarrow> recorded s' (f x)))"

lemma observe_step_counts: "observe_step rs es f s s' \<Longrightarrow> counts_on s s'"
  by (simp add: observe_step_def same_run_def counts_on_def)

lemma observe_step_records: "observe_step rs es f s s' \<Longrightarrow> records_on f s s'"
  by (simp add: observe_step_def same_run_def records_on_def)

lemma records_on_refl [simp]: "records_on unchanged s s"
  by (simp add: records_on_def same_settings_def unchanged_def)

text \<open>Only the callbacks, the guest, the counter, the start and the end points changed.\<close>

lemma records_on_control:
  assumes "\<forall>c \<in> set cs. linked s c" "trignum (start_point s) \<noteq> 3 \<longrightarrow> trignum sp \<noteq> 3"
  shows "records_on unchanged s (s\<lparr>cbs := cbs s @ cs, guest := g, tb_counter := n, start_point := sp, end_point_heap := h\<rparr>)"
    (is "records_on unchanged s ?t")
proof -
  have "recorded ?t x" if "recorded s x" for x
    by (rule recorded_same [OF that, where cs = cs]) (use assms(1) in simp_all)
  then show ?thesis using assms(2) by (simp add: records_on_def same_settings_def unchanged_def)
qed

text \<open>
  The outcome of an event: the process ends with the exit code 0 or 1, or it goes on in a good state.
\<close>

definition good_outcome ::
  "ref list \<Rightarrow> ref list \<Rightarrow> ('g, 'z) plugin_state_scheme \<Rightarrow> ('g, 'z) plugin_state_scheme outcome option \<Rightarrow> bool" where
  "good_outcome rs es s x \<longleftrightarrow>
     (case x of
        None \<Rightarrow> False
      | Some (Inl (c, _)) \<Rightarrow> c = 0 \<or> c = 1
      | Some (Inr s') \<Rightarrow> plugin_ok rs es s')"

fun counts_block :: "event \<Rightarrow> bool" where
  "counts_block (Callback (Tb_exec_end_max_event a n) info vaddr) = True"
| "counts_block ev = False"

fun_cases counts_blockE: "counts_block ev"

text \<open>A hit of an end point; no other event changes its node.\<close>

fun end_hit :: "ref \<Rightarrow> event \<Rightarrow> bool" where
  "end_hit r (Callback (Tb_exec_end_cb a q) info vaddr) = (q = r)"
| "end_hit r ev = False"

definition ends_on :: "event \<Rightarrow> ('g, 'z) plugin_state_scheme \<Rightarrow> ('g, 'z) plugin_state_scheme \<Rightarrow> bool" where
  "ends_on ev s s' \<longleftrightarrow> (\<forall>r. end_hit r ev \<or> end_point_heap s' r = end_point_heap s r)"

lemma ends_on_same [simp]: "end_point_heap s' = end_point_heap s \<Longrightarrow> ends_on ev s s'"
  by (simp add: ends_on_def)

text \<open>A good outcome of an event: only a count counts, and \<open>f\<close> is added to the record.\<close>

definition good_event ::
  "ref list \<Rightarrow> ref list \<Rightarrow> event \<Rightarrow> (record_of_run \<Rightarrow> record_of_run) \<Rightarrow> ('g, 'z) plugin_state_scheme \<Rightarrow>
   ('g, 'z) plugin_state_scheme outcome option \<Rightarrow> bool" where
  "good_event rs es ev f s x \<longleftrightarrow>
     good_outcome rs es s x \<and>
     (\<forall>s'. x = Some (Inr s') \<longrightarrow> (counts_block ev \<or> counts_on s s') \<and> ends_on ev s s' \<and> records_on f s s')"

lemma observe_step_ends: "observe_step rs es f s s' \<Longrightarrow> ends_on ev s s'"
  by (simp add: observe_step_def same_run_def)

lemma good_step:
  "x = Some s' \<Longrightarrow> observe_step rs es f s s' \<Longrightarrow> good_event rs es ev f s (map_option Inr x)"
  using observe_step_counts [of rs es f s s'] observe_step_records [of rs es f s s'] observe_step_ends [of rs es f s s']
  by (auto simp: good_event_def good_outcome_def observing_plugin_ok observe_step_observing)

lemma exit_ends: "plugin_end_information_dump_and_exit e io reason s \<noteq> Some (Inr s')"
proof (cases "plugin_end_information_dump e io reason s")
  case (Some r)
  then show ?thesis by (cases r) (auto simp: plugin_end_information_dump_and_exit_def)
qed (simp add: plugin_end_information_dump_and_exit_def)

lemma good_end:
  assumes "plenty e" "mem_sane e" "io_sane io" "plugin_ok rs es s"
  shows "good_event rs es ev f s0 (plugin_end_information_dump_and_exit e io reason s)"
  using plugin_dump_total [OF assms, of reason] by (auto simp: good_event_def good_outcome_def)

lemma handle_event_good:
  assumes "plenty e" "mem_sane e" "io_sane io" "plugin_ok rs es s" "enabled s ev"
  shows "good_event rs es ev (record_event (tb_info_enabled s = 1) ev) s (handle_event e io ev s)"
proof (cases ev)
  case (Translation tb)
  show ?thesis
  proof (cases "trignum (start_point s) = 3")
    case False
    obtain s' where s': "vcpu_translateblock_translation_event e tb s = Some s'"
      "observe_step rs es (add_block (tb_info_enabled s = 1) tb) s s'"
      using translation_safe [OF assms(1,2,4) _ False] assms(5) Translation by auto
    have "record_event (tb_info_enabled s = 1) ev = add_block (tb_info_enabled s = 1) tb"
      using Translation by (simp add: fun_eq_iff)
    with good_step [OF s'] Translation show ?thesis by simp
  next
    case True
    obtain sz where sz: "calculate_bytesize_instructions tb = Some sz"
      using bytesize_Some assms(5) Translation by auto
    have reg: "plugin_ok rs es (register_cb (Tb_exec_start_cb (tb_vaddr tb)) s)"
    proof (cases "first_tb s = 0")
      case True
      let ?t = "register_cb (Tb_exec_start_cb (tb_vaddr tb)) s"
      obtain ts as ms where c: "collected rs es ts as ms s" using assms(4) by (auto simp: plugin_ok_def)
      have "engine_only s ?t" by (simp add: engine_only_def register_cb_def)
      then have "collected rs es ts as ms ?t"
        by (rule collected_engine [OF c]) (use c in \<open>auto simp: register_cb_def collected_def cb_ok_def\<close>)
      moreover have e: "engine_ok rs ?t \<and> hits ?t = hits s"
        by (rule engine_ok_same) (use assms(4) in \<open>simp_all add: plugin_ok_def register_cb_def\<close>)
      moreover have "budget rs ?t"
        by (rule budget_hits [of rs s]) (use assms(4) e in \<open>simp_all add: plugin_ok_def register_cb_def\<close>)
      moreover have "waiting ?t" using assms(4) True by (auto simp: plugin_ok_def waiting_def register_cb_def)
      ultimately show ?thesis unfolding plugin_ok_def by blast
    next
      case False
      then obtain ts as ms where c: "collected rs es ts as ms s" "observing rs es s"
        using assms(4) by (auto simp: plugin_ok_def observing_def)
      have "observe_step rs es unchanged s (register_cb (Tb_exec_start_cb (tb_vaddr tb)) s)"
        by (rule observe_register_cb(1) [OF c(2,1)]) (simp_all add: cb_ok_def linked_def)
      then show ?thesis by (simp add: observe_step_def observing_plugin_ok)
    qed
    let ?s' = "if tb_vaddr tb \<le> trig_address (start_point s) \<and> tb_vaddr tb + sz > trig_address (start_point s)
      then register_cb (Tb_exec_start_cb (tb_vaddr tb)) s else s"
    have "handle_event e io ev s = Some (Inr ?s')"
      using Translation True sz by (simp add: vcpu_translateblock_translation_event_def Let_def)
    moreover have "plugin_ok rs es ?s'" using reg assms(4) by simp
    moreover have "counts_on s ?s'" "ends_on ev s ?s'" by (simp_all add: counts_on_def register_cb_def)
    moreover have "records_on f s ?s'" for f using True by (auto simp: records_on_def same_settings_def register_cb_def)
    ultimately show ?thesis by (simp add: good_event_def good_outcome_def)
  qed
next
  case (Callback c info vaddr)
  have c: "c \<in> set (cbs s)" using assms(5) Callback by simp
  obtain ts as ms where col: "collected rs es ts as ms s" using assms(4) by (auto simp: plugin_ok_def)
  have ok: "cb_ok rs es ts c" using col c by (simp add: collected_def)
  have engine: "engine_ok rs s" "budget rs s" using assms(4) by (simp_all add: plugin_ok_def)
  have obs: "observing rs es s" if "\<And>a. c \<noteq> Tb_exec_start_cb a"
    using assms(4) c that by (auto simp: plugin_ok_def observing_def waiting_def)
  have rec: "records_on unchanged s (s\<lparr>guest := g, tb_counter := n, start_point := sp, end_point_heap := h\<rparr>)"
    if "trignum (start_point s) \<noteq> 3 \<longrightarrow> trignum sp \<noteq> 3" for g n sp h
    using records_on_control [where cs = "[]" and s = s and sp = sp and g = g and n = n and h = h] that by simp
  have event: "record_event b (Callback c info vaddr) = unchanged"
    if "\<And>a p. c \<noteq> Tb_exec_data_event a p" "\<And>a. c \<noteq> Memaccess_data_cb a" for b
    using that by (cases c) (auto simp: fun_eq_iff unchanged_def)
  have max: "good_event rs es (Callback (Tb_exec_end_max_event a n) info vaddr) unchanged s (tb_exec_end_max_event e io n s)" for a n
    using good_end [OF assms(1-4)] assms(4) plugin_ok_counter [OF assms(4)]
      rec [where sp = "start_point s" and g = "guest s" and h = "end_point_heap s"]
    by (auto simp: tb_exec_end_max_event_def good_event_def good_outcome_def)
  show ?thesis
  proof (cases c)
    case (Trigger_insn_cb a r)
    then have r: "r \<in> set rs" using ok by (simp add: cb_ok_def)
    obtain s' where s': "trigger_insn_cb e r s = Some s'" "engine_run rs s s'" "cbs s' = cbs s"
      using trigger_insn_cb_run [OF assms(1,2) engine r] by blast
    have "observe_step rs es unchanged s s'" by (rule observe_engine_run [OF obs s'(2,3)]) (simp add: Trigger_insn_cb)
    from good_step [OF s'(1) this] show ?thesis using Callback Trigger_insn_cb event by simp
  next
    case (Tb_exec_cb a r)
    then have r: "r \<in> set rs" using ok by (simp add: cb_ok_def)
    obtain s' where s': "tb_exec_cb e r s = Some s'" "engine_run rs s s'" "cbs s' = cbs s"
      using tb_exec_cb_run [OF assms(1,2) engine r] by blast
    have "observe_step rs es unchanged s s'" by (rule observe_engine_run [OF obs s'(2,3)]) (simp add: Tb_exec_cb)
    from good_step [OF s'(1) this] show ?thesis using Callback Tb_exec_cb event by simp
  next
    case (Tb_exec_data_event a p)
    have "num_exec_order s \<noteq> -1" using assms(5) Callback Tb_exec_data_event by simp
    then obtain s' where s': "tb_exec_data_event e p s = Some s'"
      "observe_step rs es (add_execution (map_option (\<lambda>_. a) p)) s s'"
      using observe_exec_data [OF assms(1) obs _ col] ok c Tb_exec_data_event by blast
    have "record_event b ev = add_execution (map_option (\<lambda>_. a) p)" for b
      using Callback Tb_exec_data_event by (simp add: fun_eq_iff)
    with good_step [OF s'] show ?thesis using Callback Tb_exec_data_event by simp
  next
    case (Tb_exec_end_max_event a n)
    then show ?thesis using Callback max event by simp
  next
    case (Memaccess_data_cb a)
    then have "(a, vaddr) \<in> low31" using assms(5) Callback by simp
    then obtain s' where s': "memaccess_data_cb e info vaddr a s = Some s'"
      "observe_step rs es (add_access info vaddr a) s s'"
      using observe_memaccess [OF assms(1) obs] Memaccess_data_cb by blast
    have "record_event b ev = add_access info vaddr a" for b
      using Callback Memaccess_data_cb by (simp add: fun_eq_iff)
    with good_step [OF s'] show ?thesis using Callback Memaccess_data_cb by simp
  next
    case (Tb_exec_end_cb a r)
    then have r: "r \<in> set es" using ok by (simp add: cb_ok_def)
    obtain n where n: "end_point_heap s r = Some n" using chain_liveD [OF plugin_ok_chain [OF assms(4)] r] by blast
    let ?n1 = "n\<lparr>ep_location := (ep_location n)\<lparr>trignum := 4\<rparr>\<rparr>"
    let ?n2 = "n\<lparr>ep_location := (ep_location n)\<lparr>hitcounter := hitcounter (ep_location n) - 1\<rparr>\<rparr>"
    have p: "plugin_ok rs es (s\<lparr>end_point_heap := (end_point_heap s)(r \<mapsto> ?n1)\<rparr>)"
      "plugin_ok rs es (s\<lparr>end_point_heap := (end_point_heap s)(r \<mapsto> ?n2)\<rparr>)"
      by (rule plugin_ok_end_point [OF assms(4) n], simp)+
    have "good_event rs es (Callback (Tb_exec_end_cb a r) info vaddr) unchanged s (tb_exec_end_cb e io r s)"
      using n p(2) good_end [OF assms(1-3) p(1)] assms(4)
        rec [where sp = "start_point s" and g = "guest s" and n = "tb_counter s" and h = "(end_point_heap s)(r \<mapsto> ?n2)"]
        rec [where sp = "start_point s" and g = "guest s" and n = "tb_counter s" and h = "end_point_heap s"]
      by (auto simp: tb_exec_end_cb_def good_event_def good_outcome_def counts_on_def ends_on_def Let_def exit_ends)
    then show ?thesis using Callback Tb_exec_end_cb event by simp
  next
    case (Tb_exec_start_cb a)
    have "counts_on s (tb_exec_start_cb e s)" "ends_on ev s (tb_exec_start_cb e s)"
      by (simp_all add: counts_on_def tb_exec_start_cb_def flush_guest_def Let_def)
    moreover have "records_on unchanged s (tb_exec_start_cb e s)"
      by (subst tb_exec_start_cb_eq, rule rec) (simp add: tb_exec_start_cb_def flush_guest_def Let_def)
    ultimately show ?thesis
      using Callback Tb_exec_start_cb start_cb_ok [OF assms(4)] event by (simp add: good_event_def good_outcome_def)
  qed
qed

section \<open>Runs\<close>

lemma plugin_run_ok:
  assumes "plenty e" "mem_sane e" "io_sane io" "plugin_ok rs es s" "plugin_run e io s evs t"
  shows "plugin_ok rs es t"
  using assms(5)
proof induction
  case start
  show ?case by (rule assms(4))
next
  case (more evs t ev u)
  then show ?case
    using handle_event_good [OF assms(1-3) more.IH more.hyps(2)] by (simp add: good_event_def good_outcome_def)
qed

text \<open>Every block that is executed while the guest is observed moves the counter on.\<close>

definition short_block :: "event \<Rightarrow> bool" where
  "short_block ev \<longleftrightarrow>
     (case ev of
        Callback (Tb_exec_end_max_event a n) info vaddr \<Rightarrow> 0 < n \<and> n < 2 ^ 30
      | _ \<Rightarrow> True)"

lemma count_block:
  assumes "tb_exec_end_max_event e io n s = Some (Inr s')" "trignum (start_point s) \<noteq> 3"
    and "0 < n" "n < 2 ^ 30" "0 \<le> tb_counter s" "tb_counter_max s \<le> 2 ^ 30"
  shows "tb_counter s < tb_counter_max s" "tb_counter s < tb_counter s'" "tb_counter_max s' = tb_counter_max s"
    "trignum (start_point s') \<noteq> 3"
proof -
  have r: "\<not> tb_counter s \<ge> tb_counter_max s"
    "s' = s\<lparr>tb_counter := u64_to_int (of_int (tb_counter s) + n)\<rparr>"
    using assms(1,2) by (auto simp: tb_exec_end_max_event_def exit_ends split: if_splits)
  have n: "0 < uint n" "uint n < 2 ^ 30" using assms(3,4) by (simp_all add: word_less_def)
  have "- (2 ^ 31) \<le> tb_counter s + uint n" "tb_counter s + uint n < 2 ^ 31"
    using r(1) n assms(5,6) by simp_all
  then have "u64_to_int (of_int (tb_counter s + uint n)) = tb_counter s + uint n" by (rule u64_to_int_of_int)
  then have "tb_counter s' = tb_counter s + uint n" using r(2) by simp
  then show "tb_counter s < tb_counter_max s" "tb_counter s < tb_counter s'" "tb_counter_max s' = tb_counter_max s"
    "trignum (start_point s') \<noteq> 3"
    using r n(1) assms(2) by simp_all
qed

lemma plugin_run_counts:
  assumes "plenty e" "mem_sane e" "io_sane io" "plugin_ok rs es s" "plugin_run e io s evs t"
    and "trignum (start_point s) \<noteq> 3" "0 \<le> tb_counter s" "tb_counter_max s \<le> 2 ^ 30"
  shows "(\<forall>ev \<in> set evs. short_block ev) \<Longrightarrow>
    trignum (start_point t) \<noteq> 3 \<and> tb_counter_max t = tb_counter_max s \<and>
    tb_counter s + int (length (filter counts_block evs)) \<le> tb_counter t"
  using assms(5)
proof induction
  case start
  show ?case using assms(6) by simp
next
  case (more evs t ev u)
  have ok: "plugin_ok rs es t" by (rule plugin_run_ok [OF assms(1-4) more.hyps(1)])
  have IH: "trignum (start_point t) \<noteq> 3" "tb_counter_max t = tb_counter_max s"
    "tb_counter s + int (length (filter counts_block evs)) \<le> tb_counter t"
    using more.IH more.prems by simp_all
  show ?case
  proof (cases "counts_block ev")
    case True
    then obtain a n info vaddr where ev: "ev = Callback (Tb_exec_end_max_event a n) info vaddr"
      by (rule counts_blockE)
    have n: "0 < n" "n < 2 ^ 30" using more.prems ev by (simp_all add: short_block_def)
    have "tb_exec_end_max_event e io n t = Some (Inr u)" using more.hyps(3) ev by simp
    from count_block [OF this IH(1) n] IH assms(7,8) True show ?thesis by simp
  next
    case False
    then have "counts_on t u"
      using handle_event_good [OF assms(1-3) ok more.hyps(2)] more.hyps(3) by (auto simp: good_event_def)
    then show ?thesis using IH False by (simp add: counts_on_def)
  qed
qed

lemma plugin_run_ends:
  assumes "plenty e" "mem_sane e" "io_sane io" "plugin_ok rs es s" "plugin_run e io s evs t"
    and "trignum (start_point s) \<noteq> 3" "0 \<le> tb_counter s" "tb_counter_max s \<le> 2 ^ 30"
    and "\<forall>ev \<in> set evs. short_block ev"
    and "tb_counter_max s - tb_counter s \<le> int (length (filter counts_block evs))"
  shows "\<exists>c s'. tb_exec_end_max_event e io n t = Some (Inl (c, s')) \<and> (c = 0 \<or> c = 1)"
proof -
  have t: "trignum (start_point t) \<noteq> 3" "tb_counter_max t = tb_counter_max s"
    "tb_counter s + int (length (filter counts_block evs)) \<le> tb_counter t"
    using plugin_run_counts [OF assms(1-8)] assms(9) by simp_all
  then have "tb_counter t \<ge> tb_counter_max t" using assms(10) by simp
  then show ?thesis
    using t(1) plugin_dump_total [OF assms(1-3) plugin_run_ok [OF assms(1-5)]]
    by (simp add: tb_exec_end_max_event_def)
qed

end
