(* ===== verification/InstallCorrect.thy ===== *)
theory InstallCorrect
  imports Runs
begin

text \<open>
  The installation of the plugin: when the pipes deliver a control message and a fault configuration,
  it succeeds, establishes the invariant of the running plugin, and has configured what was asked for.
\<close>

section \<open>What the pipes hold\<close>

text \<open>Reading one pipe leaves what is known about the others alone.\<close>

definition reading_keeps :: "'g io \<Rightarrow> int \<Rightarrow> ('g \<Rightarrow> bool) \<Rightarrow> bool" where
  "reading_keeps io fd P \<longleftrightarrow> (\<forall>n g. P g \<longrightarrow> P (snd (snd (io_read io fd n g))))"

lemma readout_size_loop_keeps:
  assumes "readout_size_loop io fd str g = Some y" "reading_keeps io fd P" "P g"
  shows "P (snd y)"
proof -
  let ?Q = "\<lambda>io fd (str :: u8 list) g y. reading_keeps io fd P \<longrightarrow> P g \<longrightarrow> P (snd (y :: u64 \<times> _))"
  have "?Q io fd str g y"
  proof (rule readout_size_loop.raw_induct [where P = ?Q, OF _ assms(1)], intro impI)
    fix f io fd str g y
    assume IH: "\<And>io fd str g y. f io fd str g = Some y \<Longrightarrow> ?Q io fd str g y"
      and body: "(case io_read io fd 1 g of
        (ret, cs, g) \<Rightarrow>
          if ret \<noteq> 1 then Some (0, g)
          else (case cs of
                  [] \<Rightarrow> None
                | c # _ \<Rightarrow> if c = 10 then Some (strtoumax (str @ [c]), g) else f io fd (str @ [c]) g)) = Some y"
      and keeps: "reading_keeps io fd P" and g: "P g"
    obtain ret cs g1 where r: "io_read io fd 1 g = (ret, cs, g1)" by (metis prod_cases3)
    have g1: "P g1" using keeps g r unfolding reading_keeps_def by (metis snd_conv)
    show "P (snd y)"
      using body g1 IH keeps unfolding r
      by (auto split: if_splits list.splits)
  qed
  with assms(2,3) show ?thesis by blast
qed

lemma readout_loop_keeps:
  assumes "readout_loop io fd n buff left sofar g = Some y" "reading_keeps io fd P" "P g"
  shows "P (snd (snd y))"
proof -
  let ?Q = "\<lambda>io fd (n :: u64) (buff :: u8 list) (left :: int) (sofar :: int) g y.
    reading_keeps io fd P \<longrightarrow> P g \<longrightarrow> P (snd (snd (y :: int \<times> u8 list \<times> _)))"
  have "?Q io fd n buff left sofar g y"
  proof (rule readout_loop.raw_induct [where P = ?Q, OF _ assms(1)], intro impI)
    fix f io fd n buff left sofar g y
    assume IH: "\<And>io fd n buff left sofar g y. f io fd n buff left sofar g = Some y \<Longrightarrow> ?Q io fd n buff left sofar g y"
      and body: "(if of_int sofar < n
       then case io_read io fd (unat (of_int left :: u64)) g of
             (n_chars_received, bytes, g) \<Rightarrow>
               if n_chars_received = - 1 then Some (- 1, buff, g)
               else if unat n < length buff + length bytes then None
               else f io fd n (buff @ bytes) (left - n_chars_received) (sofar + n_chars_received) g
       else Some (sofar, buff, g)) = Some y"
      and keeps: "reading_keeps io fd P" and g: "P g"
    obtain ret cs g1 where r: "io_read io fd (unat (of_int left :: u64)) g = (ret, cs, g1)" by (metis prod_cases3)
    have g1: "P g1" using keeps g r unfolding reading_keeps_def by (metis snd_conv)
    show "P (snd (snd y))"
      using body g g1 IH keeps unfolding r by (auto split: if_splits)
  qed
  with assms(2,3) show ?thesis by blast
qed

lemma readout_pipe_keeps:
  assumes "readout_pipe e io fd s = Some (n, b, s')" "reading_keeps io fd P" "P (guest s)"
  shows "P (guest s')"
proof -
  obtain k g where k: "readout_size_loop io fd [] (guest s) = Some (k, g)"
    using assms(1) by (auto simp: readout_pipe_def readout_pipe_size_def Option.bind_eq_Some_conv)
  have g: "P g" using readout_size_loop_keeps [OF k assms(2,3)] by simp
  have "guest s' = g \<or> (\<exists>y. readout_loop io fd k [] (u64_to_int k) 0 g = Some y \<and> guest s' = snd (snd y))"
    using assms(1) k
    by (auto simp: readout_pipe_def readout_pipe_size_def malloc_def Let_def Option.bind_eq_Some_conv split: if_splits)
  then show ?thesis using g readout_loop_keeps [OF _ assms(2)] by auto
qed

text \<open>
  The control pipe delivers the message \<open>m\<close> and the configuration pipe the faults \<open>fs\<close>, each with its
  length in front; reading the first does not consume the second.
\<close>

definition delivers :: "'g io \<Rightarrow> fifos \<Rightarrow> 'g \<Rightarrow> control_msg \<Rightarrow> fault_msg list \<Rightarrow> bool" where
  "delivers io p g m fs \<longleftrightarrow>
     (\<exists>ctl cfg a b x y.
        reads_from io (fifo_control p) ctl \<and> reads_from io (fifo_config p) cfg \<and>
        (\<forall>n g. cfg (snd (snd (io_read io (fifo_control p) n g))) = cfg g) \<and>
        ctl g = framed a @ x \<and> cfg g = framed b @ y \<and>
        a \<noteq> [] \<and> length a < 2 ^ 31 \<and> b \<noteq> [] \<and> length b < 2 ^ 31 \<and>
        io_unpack_control io a = Some m \<and> io_unpack_faults io b = Some fs)"

text \<open>The messages the plugin can work with.\<close>

definition workable :: "control_msg \<Rightarrow> fault_msg list \<Rightarrow> bool" where
  "workable m fs \<longleftrightarrow>
     unat (cm_num_faults m) < 2 ^ 31 \<and> (\<forall>d \<in> set (cm_memorydumps m). unat (mdm_length d) < 2 ^ 31) \<and>
     fs \<noteq> [] \<and> length fs < 2 ^ 31 \<and> (\<forall>f \<in> set fs. fm_address f \<noteq> trigger_done)"

section \<open>The command line\<close>

definition open_pipes :: "'g io \<Rightarrow> string \<Rightarrow> string \<Rightarrow> string \<Rightarrow> 'g \<Rightarrow> fifos \<times> 'g" where
  "open_pipes io control config data g =
     (let (fd1, g) = io_open io False control (io_mkfifo io control g);
          (fd2, g) = io_open io False config (io_mkfifo io config g);
          (fd3, g) = io_open io True data (io_mkfifo io data g)
      in (\<lparr>fifo_control = fd1, fifo_config = fd2, fifo_data = fd3\<rparr>, g))"

definition arguments :: "string \<Rightarrow> string \<Rightarrow> string \<Rightarrow> string list" where
  "arguments control config data = [''control='' @ control, ''config='' @ config, ''data='' @ data]"

definition all_open :: "fifos \<Rightarrow> bool" where
  "all_open p \<longleftrightarrow> fifo_control p \<noteq> -1 \<and> fifo_config p \<noteq> -1 \<and> fifo_data p \<noteq> -1"

lemma parse_args_opens:
  assumes "open_pipes io a b c (guest s) = (p, g)" "all_open p" "pipes s \<noteq> None"
  shows "parse_args io (arguments a b c) s = Some (0, s\<lparr>guest := g, pipes := Some p\<rparr>)"
  using assms
  by (auto simp: open_pipes_def arguments_def parse_args_def starts_with_def all_open_def split: prod.splits)

section \<open>The control message\<close>

text \<open>Where the end points of a message lie.\<close>

definition end_trigger :: "end_point_msg \<Rightarrow> fault_trigger" where
  "end_trigger m = \<lparr>trig_address = ep_address m, hitcounter = ep_counter m, trignum = 3\<rparr>"

definition end_triggers :: "('g, 'z) plugin_state_scheme \<Rightarrow> ref list \<Rightarrow> fault_trigger list" where
  "end_triggers s es = map (\<lambda>r. ep_location (the (end_point_heap s r))) es"

lemma more_end_points_chain:
  assumes "plenty e"
  shows "chain ep_next (end_point_heap s) p (xs @ [cur]) \<Longrightarrow> below (end_point_heap s) (mallocs s) \<Longrightarrow>
    \<exists>k h rs. more_end_points e ms cur s = Some (s\<lparr>mallocs := k, end_point_heap := h\<rparr>) \<and> mallocs s \<le> k \<and>
      chain ep_next h p (xs @ cur # rs) \<and>
      map (\<lambda>r. ep_location (the (h r))) (xs @ cur # rs) = end_triggers s (xs @ [cur]) @ map end_trigger ms"
proof (induction ms arbitrary: s xs cur)
  case Nil
  have "more_end_points e [] cur s = Some (s\<lparr>mallocs := mallocs s, end_point_heap := end_point_heap s\<rparr>)" by simp
  moreover have "chain ep_next (end_point_heap s) p (xs @ cur # [])" using Nil by simp
  ultimately show ?case by (intro exI conjI) (assumption | simp add: end_triggers_def)+
next
  case (Cons m ms)
  obtain n where n: "end_point_heap s cur = Some n" using chain_liveD [OF Cons.prems(1)] by auto
  let ?r = "mallocs s"
  let ?new = "\<lparr>ep_location = end_trigger m, ep_next = None\<rparr>"
  let ?h = "(end_point_heap s)(cur \<mapsto> n\<lparr>ep_next := Some ?r\<rparr>, ?r \<mapsto> ?new)"
  let ?t = "s\<lparr>mallocs := Suc ?r, end_point_heap := ?h\<rparr>"
  have fresh: "end_point_heap s ?r = None" by (rule below_fresh [OF Cons.prems(2)])
  then have "chain ep_next ?h p (xs @ [cur, ?r])" by (intro chain_snoc [OF Cons.prems(1) n]) auto
  then have c: "chain ep_next (end_point_heap ?t) p ((xs @ [cur]) @ [?r])" by simp
  have cur: "cur \<noteq> ?r" using n fresh by auto
  have b: "below (end_point_heap ?t) (mallocs ?t)"
    using Cons.prems(2) n by (fastforce simp: below_def)
  obtain k h rs where k: "more_end_points e ms ?r ?t = Some (?t\<lparr>mallocs := k, end_point_heap := h\<rparr>)"
    "mallocs ?t \<le> k" "chain ep_next h p ((xs @ [cur]) @ ?r # rs)"
    "map (\<lambda>r. ep_location (the (h r))) ((xs @ [cur]) @ ?r # rs) = end_triggers ?t ((xs @ [cur]) @ [?r]) @ map end_trigger ms"
    using Cons.IH [OF c b] by blast
  have "\<exists>k. end_point_heap s x = Some k" if "x \<in> set xs" for x
    using chain_liveD [OF Cons.prems(1)] that by auto
  then have "?r \<notin> set xs" using fresh by force
  then have same: "end_triggers ?t ((xs @ [cur]) @ [?r]) = end_triggers s (xs @ [cur]) @ [end_trigger m]"
    using n cur by (auto simp: end_triggers_def)
  have "more_end_points e (m # ms) cur s = Some (s\<lparr>mallocs := k, end_point_heap := h\<rparr>)"
    using k(1) n assms by (simp add: plenty_malloc end_trigger_def)
  moreover have "chain ep_next h p (xs @ cur # (?r # rs))" using k(3) by simp
  moreover have "map (\<lambda>r. ep_location (the (h r))) (xs @ cur # (?r # rs)) = end_triggers s (xs @ [cur]) @ map end_trigger (m # ms)"
    using k(4) unfolding same by simp
  moreover have "mallocs s \<le> k" using k(2) by simp
  ultimately show ?case by blast
qed

text \<open>
  The head exists before the message is read; without end points in the message it stays as it is.
\<close>

lemma set_end_points_chain:
  assumes "plenty e" "end_point s = Some r" "end_point_heap s r = Some n" "ep_next n = None"
    and "trignum (ep_location n) = 0" "below (end_point_heap s) (mallocs s)"
  shows "\<exists>k h es. set_end_points e ms s = Some (s\<lparr>mallocs := k, end_point_heap := h\<rparr>) \<and> mallocs s \<le> k \<and>
    chain ep_next h (Some r) es \<and> es \<noteq> [] \<and>
    map (\<lambda>r. ep_location (the (h r))) es = (if ms = [] then [ep_location n] else map end_trigger ms)"
proof (cases ms)
  case Nil
  have "set_end_points e ms s = Some (s\<lparr>mallocs := mallocs s, end_point_heap := end_point_heap s\<rparr>)"
    unfolding Nil by (simp add: set_end_points_def)
  moreover have "chain ep_next (end_point_heap s) (Some r) [r]" using assms(3,4) by simp
  ultimately show ?thesis using assms(3) Nil by (intro exI conjI) (assumption | simp)+
next
  case (Cons m ms')
  let ?t = "s\<lparr>end_point_heap := (end_point_heap s)(r \<mapsto> n\<lparr>ep_location := end_trigger m\<rparr>)\<rparr>"
  have "below (end_point_heap ?t) (mallocs ?t)" using assms(3,6) by (fastforce simp: below_def)
  moreover have "chain ep_next (end_point_heap ?t) (Some r) ([] @ [r])" using assms(4) by simp
  ultimately obtain k h rs where k: "more_end_points e ms' r ?t = Some (?t\<lparr>mallocs := k, end_point_heap := h\<rparr>)"
    "mallocs ?t \<le> k" "chain ep_next h (Some r) ([] @ r # rs)"
    "map (\<lambda>r. ep_location (the (h r))) ([] @ r # rs) = end_triggers ?t ([] @ [r]) @ map end_trigger ms'"
    using more_end_points_chain [OF assms(1)] by blast
  have "set_end_points e ms s = Some (s\<lparr>mallocs := k, end_point_heap := h\<rparr>)"
    using k(1) assms(2,3,5) Cons by (simp add: set_end_points_def end_trigger_def)
  moreover have "chain ep_next h (Some r) (r # rs)" "r # rs \<noteq> []" using k(3) by simp_all
  moreover have "map (\<lambda>r. ep_location (the (h r))) (r # rs) = (if ms = [] then [ep_location n] else map end_trigger ms)"
    using k(4) Cons by (simp add: end_triggers_def)
  moreover have "mallocs s \<le> k" using k(2) by simp
  ultimately show ?thesis by blast
qed

text \<open>The memory dumps.\<close>

definition region_of :: "memory_dump_msg \<Rightarrow> region_log" where
  "region_of d = (mdm_address d, mdm_length d, [])"

lemma insert_configs_logs:
  assumes "plenty e"
  shows "memdump_ok s \<Longrightarrow> \<forall>d \<in> set ds. unat (mdm_length d) < 2 ^ 31 \<Longrightarrow>
    \<exists>s'. insert_configs e ds s = Some (0, s') \<and> memdump_only s s' \<and> memdump_ok s' \<and>
      logs s' = logs s @ map region_of ds"
proof (induction ds arbitrary: s)
  case Nil
  then show ?case by simp
next
  case (Cons d ds)
  obtain t where t: "insert_memorydump_config e (mdm_address d) (mdm_length d) s = Some (1, t)"
    "memdump_only s t" "memdump_ok t" "logs t = logs s @ [region_of d]"
    using insert_memorydump_config_logs [OF assms Cons.prems(1), of "mdm_length d" "mdm_address d"] Cons.prems(2)
    by (auto simp: region_of_def)
  obtain u where u: "insert_configs e ds t = Some (0, u)" "memdump_only t u" "memdump_ok u"
    "logs u = logs t @ map region_of ds"
    using Cons.IH [OF t(3)] Cons.prems(2) by auto
  have "insert_configs e (d # ds) s = Some (0, u)" using t(1) u(1) by simp
  with t(2,4) u show ?case by (intro exI [of _ u]) (auto intro: memdump_only_trans)
qed

text \<open>The two places that set up the vector of regions.\<close>

lemma memory_configured:
  assumes "plenty e" "memdump s = None" "\<forall>d \<in> set ds. unat (mdm_length d) < 2 ^ 31"
  shows "\<exists>t u. (if ds \<noteq> [] then do {
                  (status, s) \<leftarrow> init_memory e (length ds) s;
                  if status < 0 then Some (-1, s) else insert_configs e ds s
                } else Some (0, s)) = Some (0, t) \<and>
      (if memory_module_configured t = 0 then map_option snd (init_memory e 1 t) else Some t) = Some u \<and>
      memdump_only s u \<and> memdump_ok u \<and> logs u = map region_of ds"
proof (cases "ds = []")
  case True
  obtain u where "init_memory e 1 s = Some (0, u)" "memdump_only s u" "memdump_ok u" "logs u = []"
    using init_memory_logs [OF assms(1)] by blast
  with True assms(2) show ?thesis by (simp add: memory_module_configured_def)
next
  case False
  obtain v where v: "init_memory e (length ds) s = Some (0, v)" "memdump_only s v" "memdump_ok v" "logs v = []"
    using init_memory_logs [OF assms(1)] by blast
  obtain u where u: "insert_configs e ds v = Some (0, u)" "memdump_only v u" "memdump_ok u"
    "logs u = logs v @ map region_of ds"
    using insert_configs_logs [OF assms(1) v(3) assms(3)] by blast
  have "memdump u \<noteq> None" using u(3) by (auto simp: memdump_ok_def split: option.splits)
  with False v u show ?thesis
    by (auto simp: memory_module_configured_def intro: memdump_only_trans)
qed

text \<open>What the configuration does not touch, and the settings it takes over from the message.\<close>

definition setup_keeps :: "('g, 'z) plugin_state_scheme \<Rightarrow> ('g, 'z) plugin_state_scheme \<Rightarrow> bool" where
  "setup_keeps s s' \<longleftrightarrow>
     mallocs s \<le> mallocs s' \<and> cbs s' = cbs s \<and> req_singlestep s' = req_singlestep s \<and>
     first_registerdump s' = first_registerdump s \<and> register_heap s' = register_heap s \<and> arch s' = arch s \<and>
     tb_info_list s' = tb_info_list s \<and> tb_info_heap s' = tb_info_heap s \<and> tb_exec_heap s' = tb_exec_heap s \<and>
     tb_exec_order_list s' = tb_exec_order_list s \<and> tb_faulted_heap s' = tb_faulted_heap s \<and>
     live_faults_number s' = live_faults_number s \<and>
     mem_info_list s' = mem_info_list s \<and> mem_info_heap s' = mem_info_heap s \<and>
     pipes s' = pipes s \<and> architecture s' = architecture s \<and> first_tb s' = first_tb s \<and> tb_counter s' = tb_counter s \<and>
     end_point s' = end_point s \<and> mem_map_infos s' = mem_map_infos s \<and> mem_map_size s' = mem_map_size s"

definition settings_of :: "control_msg \<Rightarrow> fault_trigger \<Rightarrow> ('g, 'z) plugin_state_scheme \<Rightarrow> bool" where
  "settings_of m start s \<longleftrightarrow>
     tb_counter_max s = u64_to_int (cm_max_duration m) \<and> start_point s = set_start_point m start \<and>
     mem_info_list_enabled s = of_bool (cm_mem_info m) \<and> tb_info_enabled s = of_bool (cm_tb_info m) \<and>
     tb_exec_order_enabled s = of_bool (cm_tb_exec_list m) \<and>
     tb_exec_order_ring_buffer s = of_bool (cm_tb_exec_list_ring_buffer m) \<and>
     memmap_dump_enabled s = of_bool (cm_memmap_dump m) \<and>
     full_mem_dump_enabled s = of_bool (cm_full_mem_dump m)"

lemma readout_control_configures:
  fixes s :: "('g, 'z) plugin_state_scheme"
  assumes "plenty e" "contiguous io" "pipes s = Some p" "delivers io p (guest s) m fs" "workable m fs"
    and "memdump s = None" "fault_refs s []"
    and "end_point s = Some r" "end_point_heap s r = Some n" "ep_next n = None"
    and "trignum (ep_location n) = 0" "below (end_point_heap s) (mallocs s)"
  shows "\<exists>s' es qs. readout_control_qemu e io s = Some (0, s') \<and> setup_keeps s s' \<and>
    settings_of m (start_point s) s' \<and> fault_number s' = u64_to_int (cm_num_faults m) \<and>
    chain ep_next (end_point_heap s') (end_point s') es \<and> es \<noteq> [] \<and>
    end_triggers s' es = (if cm_end_points m = [] then [ep_location n] else map end_trigger (cm_end_points m)) \<and>
    memdump_ok s' \<and> logs s' = map region_of (cm_memorydumps m) \<and> fault_refs s' (rev qs) \<and>
    list_all2 (\<lambda>f q. get_fault q s' = Some (configured f (malloc_junk e q 0))) fs qs"
proof -
  obtain ctl cfg a b x y where d: "reads_from io (fifo_control p) ctl" "reads_from io (fifo_config p) cfg"
    "\<forall>n g. cfg (snd (snd (io_read io (fifo_control p) n g))) = cfg g"
    "ctl (guest s) = framed a @ x" "cfg (guest s) = framed b @ y" "a \<noteq> []" "length a < 2 ^ 31"
    "b \<noteq> []" "length b < 2 ^ 31" "io_unpack_control io a = Some m" "io_unpack_faults io b = Some fs"
    using assms(4) unfolding delivers_def by blast
  obtain g where g: "readout_pipe e io (fifo_control p) s =
      Some (int (length a), Some a, s\<lparr>guest := g, mallocs := Suc (mallocs s)\<rparr>)"
    using readout_pipe_framed [OF assms(1) d(1,4,6,7)] by blast
  have "reading_keeps io (fifo_control p) (\<lambda>g. cfg g = framed b @ y)"
    using d(3) by (simp add: reading_keeps_def)
  from readout_pipe_keeps [OF g this d(5)] have cfg: "cfg g = framed b @ y" by simp
  have w: "unat (cm_num_faults m) < 2 ^ 31" "\<forall>d \<in> set (cm_memorydumps m). unat (mdm_length d) < 2 ^ 31" "fs \<noteq> []"
    using assms(5) by (simp_all add: workable_def)
  let ?s2 = "s\<lparr>guest := g, mallocs := Suc (mallocs s), tb_counter_max := u64_to_int (cm_max_duration m),
      fault_number := u64_to_int (cm_num_faults m), start_point := set_start_point m (start_point s)\<rparr>"
  have "below (end_point_heap ?s2) (mallocs ?s2)" using below_mono [OF assms(12), of "Suc (mallocs s)"] by simp
  then obtain k h es where k: "set_end_points e (cm_end_points m) ?s2 = Some (?s2\<lparr>mallocs := k, end_point_heap := h\<rparr>)"
    "mallocs ?s2 \<le> k" "chain ep_next h (Some r) es" "es \<noteq> []"
    "map (\<lambda>r. ep_location (the (h r))) es = (if cm_end_points m = [] then [ep_location n] else map end_trigger (cm_end_points m))"
    using set_end_points_chain [OF assms(1), of ?s2 r n "cm_end_points m"] assms(8-11) by auto
  let ?s4 = "?s2\<lparr>mallocs := k, end_point_heap := h, mem_info_list_enabled := of_bool (cm_mem_info m),
      tb_info_enabled := of_bool (cm_tb_info m), tb_exec_order_enabled := of_bool (cm_tb_exec_list m),
      tb_exec_order_ring_buffer := of_bool (cm_tb_exec_list_ring_buffer m),
      memmap_dump_enabled := of_bool (cm_memmap_dump m), full_mem_dump_enabled := of_bool (cm_full_mem_dump m)\<rparr>"
  have none: "memdump ?s4 = None" using assms(6) by simp
  obtain t u where u: "(if cm_memorydumps m \<noteq> [] then do {
                  (status, s) \<leftarrow> init_memory e (length (cm_memorydumps m)) ?s4;
                  if status < 0 then Some (-1, s) else insert_configs e (cm_memorydumps m) s
                } else Some (0, ?s4)) = Some (0, t)"
      "(if memory_module_configured t = 0 then map_option snd (init_memory e 1 t) else Some t) = Some u"
      "memdump_only ?s4 u" "memdump_ok u" "logs u = map region_of (cm_memorydumps m)"
    using memory_configured [OF assms(1) none w(2)] by blast
  obtain k2 v2 n2 u2 where k2: "mallocs ?s4 \<le> k2"
    "u = ?s4\<lparr>mallocs := k2, memdump := v2, num_memdump := n2, used_memdump := u2\<rparr>"
    using u(3) unfolding memdump_only_def by blast
  have le: "mallocs s \<le> k2" using k(2) k2(1) by simp
  have p: "pipes u = Some p" "guest u = g" using k2(2) assms(3) by simp_all
  have "fault_refs u []" by (rule fault_refs_same [OF assms(7)]) (use k2(2) le in simp_all)
  moreover have "cfg (guest u) = framed b @ y" using cfg p(2) by simp
  ultimately obtain v qs where v: "qemu_setup_config e io u = Some (0, v)" "fault_refs v (rev qs)"
    "list_all2 (\<lambda>f q. get_fault q v = Some (configured f (malloc_junk e q 0))) fs qs"
    "\<exists>g k f h. mallocs u \<le> k \<and> v = u\<lparr>guest := g, mallocs := k, first_fault := f, fault_heap := h\<rparr>"
    using qemu_setup_config_list [OF assms(1,2) p(1) d(2) _ d(8,9,11) w(3)] by blast
  obtain g3 k3 f3 h3 where v3: "mallocs u \<le> k3" "v = u\<lparr>guest := g3, mallocs := k3, first_fault := f3, fault_heap := h3\<rparr>"
    using v(4) by blast
  have le3: "mallocs s \<le> k3" using le v3(1) k2(2) by simp
  have len: "\<not> int (length a) \<le> 0" using d(6) by simp
  have start: "start_point (s\<lparr>guest := g, mallocs := Suc (mallocs s)\<rparr>) = start_point s" by simp
  have run: "readout_control_qemu e io s = Some (0, v)"
    unfolding readout_control_qemu_def assms(3) bind.bind_lunit g prod.case if_not_P [OF len] d(10) option.case
      Let_def start k(1) u(1,2) v(1) by simp
  have ok: "memdump_ok v" "logs v = logs u"
    using u(4) memdump_ok_same [of v u] v3(2) by (simp_all add: logs_def)
  have keeps: "setup_keeps s v" unfolding setup_keeps_def v3(2) k2(2) using le3 by simp
  have set: "settings_of m (start_point s) v" unfolding settings_of_def v3(2) k2(2) by simp
  have fn: "fault_number v = u64_to_int (cm_num_faults m)" unfolding v3(2) k2(2) by simp
  have ends: "end_point_heap v = h" "end_point v = Some r" unfolding v3(2) k2(2) using assms(8) by simp_all
  show ?thesis
    by (rule exI [of _ v], rule exI [of _ es], rule exI [of _ qs])
      (use run keeps set fn ends k(3-5) ok u(5) v(2,3) in \<open>simp add: end_triggers_def\<close>)
qed

section \<open>Arming the triggers\<close>

lemma configured_trignum: "with_trignum i (configured f j) = configured f (of_nat i)"
  by (simp add: with_trignum_def configured_def)

lemma engine_armed:
  fixes s :: "('g, 'z) trigger_state_scheme"
  assumes "plenty e" "fault_refs s (rev qs)" "fs \<noteq> []" "length fs < 2 ^ 31"
    and "list_all2 (\<lambda>f q. get_fault q s = Some (configured f (malloc_junk e q 0))) fs qs"
    and "\<forall>f \<in> set fs. fm_address f \<noteq> trigger_done"
    and "0 \<le> fault_number s" "tb_faulted_heap s = Map.empty" "live_faults_number s = 0"
    and "memdump_ok s" "register_log s ms" "known_arch (arch s)"
  shows "\<exists>t u k h v l n. tb_faulted_init e (fault_number s) s = Some t \<and>
    register_fault_trigger_addresses e t = Some (0, u) \<and>
    u = s\<lparr>tb_faulted_list := None, active_triggers := Some v, max_triggers := fault_number s,
          current_triggers := 0, done_triggers := 0, mallocs := k, fault_heap := h,
          fault_trigger_addresses := Some (map fm_trigger_address (rev fs)),
          live_faults := Some l, fault_number := n\<rparr> \<and> mallocs s \<le> k \<and>
    engine_ok (rev qs) u \<and> budget (rev qs) u \<and> l = replicate (length fs) None \<and>
    (\<forall>i < length fs. get_fault (rev qs ! i) u = Some (configured (rev fs ! i) (of_nat i)))"
proof -
  let ?rs = "rev qs"
  let ?a = "replicate (nat (fault_number s)) 0xdeadbeef"
  let ?t = "s\<lparr>tb_faulted_list := None, mallocs := Suc (mallocs s), active_triggers := Some ?a,
      max_triggers := fault_number s, current_triggers := 0, done_triggers := 0\<rparr>"
  have t: "tb_faulted_init e (fault_number s) s = Some ?t"
    using assms(1) by (simp add: tb_faulted_init_def plenty_malloc)
  have len: "length qs = length fs" using assms(5) by (simp add: list_all2_lengthD)
  have fault: "get_fault (?rs ! i) s = Some (configured (rev fs ! i) (malloc_junk e (?rs ! i) 0))" if "i < length fs" for i
    using assms(5) that len by (simp add: list_all2_conv_all_nth rev_nth)
  have same: "get_fault r ?t = get_fault r s" for r by (simp add: get_fault_def)
  have "fault_refs ?t ?rs" by (rule fault_refs_same [OF assms(2)]) simp_all
  moreover have "?rs \<noteq> []" using assms(3) len by auto
  ultimately obtain u where u: "register_fault_trigger_addresses e ?t = Some (0, u)" "triggers_only ?t u"
    "fault_refs u ?rs" "fault_number u = int (length ?rs)" "live_faults u = Some (replicate (length ?rs) None)"
    "fault_trigger_addresses u = Some (map (\<lambda>r. trig_address (f_trigger (the (get_fault r ?t)))) ?rs)"
    "\<forall>i < length ?rs. get_fault (?rs ! i) u = map_option (with_trignum i) (get_fault (?rs ! i) ?t)"
    using register_fault_trigger_addresses_ok [OF assms(1)] by blast
  have "map (\<lambda>r. trig_address (f_trigger (the (get_fault r ?t)))) ?rs = map fm_trigger_address (rev fs)"
    unfolding same using fault len by (intro nth_equalityI) (simp_all add: configured_def)
  with u(6) have addresses: "fault_trigger_addresses u = Some (map fm_trigger_address (rev fs))" by simp
  obtain k h v l n where k: "mallocs ?t \<le> k" "u = ?t\<lparr>mallocs := k, fault_heap := h,
      fault_trigger_addresses := v, live_faults := l, fault_number := n\<rparr>"
    using u(2) unfolding triggers_only_def by blast
  have k_le: "mallocs s \<le> k" using k(1) by simp
  have faults: "get_fault (?rs ! i) u = Some (configured (rev fs ! i) (of_nat i))" if "i < length fs" for i
    using u(7) fault [OF that] that len unfolding same by (simp add: configured_trignum)
  have ok: "\<exists>f. get_fault r u = Some f \<and> fault_ok (length ?rs) f" if "r \<in> set ?rs" for r
  proof -
    obtain i where i: "i < length fs" "r = ?rs ! i" using \<open>r \<in> set ?rs\<close> len by (metis in_set_conv_nth length_rev)
    have "unat (of_nat i :: u64) < length fs"
      using i(1) assms(4) by (simp add: unat_of_nat take_bit_nat_eq_self)
    moreover have "rev fs ! i \<in> set fs" using i(1) by (metis length_rev nth_mem set_rev)
    ultimately have "fault_ok (length ?rs) (configured (rev fs ! i) (of_nat i))"
      using assms(6) len by (simp add: fault_ok_def configured_def)
    with faults [OF i(1)] i(2) show ?thesis by simp
  qed
  have "faults_ok ?rs u" using u(3) ok by (simp add: faults_ok_def)
  moreover have "vectors_ok ?rs u"
    using u(4,5) addresses len assms(4,9) k(2) by (simp add: vectors_ok_def)
  moreover have "memdump_ok u" using assms(10) memdump_ok_same [of u s] k(2) by simp
  moreover have "register_log u ms"
    by (rule register_log_cong [OF assms(11)]) (use k(2) k_le in simp_all)
  moreover have "faulted_ok u"
    using assms(7,8) k(2) by (simp add: faulted_ok_def faulted_refs_def faulted_addresses_def exI [of _ "[]"])
  moreover have "known_arch (arch u)" using assms(12) k(2) by simp
  ultimately have "engine_ok ?rs u" unfolding engine_ok_def records_ok_def by blast
  moreover have "budget ?rs u" using unfired_le [of ?rs u] k(2) assms(9) by (simp add: budget_def)
  moreover have "u = s\<lparr>tb_faulted_list := None, active_triggers := Some ?a, max_triggers := fault_number s,
          current_triggers := 0, done_triggers := 0, mallocs := k, fault_heap := h,
          fault_trigger_addresses := Some (map fm_trigger_address (rev fs)),
          live_faults := Some (replicate (length fs) None), fault_number := n\<rparr>"
    using k(2) addresses u(5) len by (intro trigger_state.equality) simp_all
  ultimately show ?thesis using t u(1) k_le faults by blast
qed

section \<open>The collections\<close>

text \<open>What \<^verbatim>\<open>sigaction\<close> returned as the action that was installed before.\<close>

definition previous_action :: "'g io \<Rightarrow> sig_action \<Rightarrow> bool" where
  "previous_action io a \<longleftrightarrow> (\<exists>h. a = fst (snd (io_sigaction io h)))"

lemma collections_initialised:
  fixes s :: "('g, 'z) plugin_state_scheme"
  assumes "plenty e" "\<forall>g. 0 \<le> fst (io_sigaction io g)"
    and "tb_info_list s = None" "tb_info_heap s = Map.empty" "mem_info_list s = None" "mem_info_heap s = Map.empty"
    and "tb_exec_heap s = Map.empty"
  shows "\<exists>t u v w tb mem g old k i rb. tb_info_avl_init e s = (0, t) \<and> mem_avl_init e t = (True, u) \<and>
    initialise_signal_handlers io u = (0, v) \<and> tb_exec_order_init e v = (0, w) \<and>
    w = s\<lparr>tb_avl_root := tb, mem_avl_root := mem, guest := g, old_abort_action := old,
          tb_exec_order_list := None, num_exec_order := 0, tb_exec_rb_list_index := i, mallocs := k,
          tb_exec_rb_list := rb\<rparr> \<and> mallocs s \<le> k \<and>
    tb_refs w [] \<and> exec_log w [] \<and> mem_refs w [] \<and> previous_action io old"
proof -
  obtain t where t: "tb_info_avl_init e s = (0, t)" "tb_info_only s t" "tb_refs t []"
    using tb_info_avl_init_refs [OF assms(1,3)] assms(4) by auto
  then obtain tb where t_eq: "t = s\<lparr>mallocs := Suc (mallocs s), tb_avl_root := tb\<rparr>"
    using assms(1) by (auto simp: tb_info_avl_init_def avl_create_def plenty_malloc)
  obtain u where u: "mem_avl_init e t = (True, u)" "mem_only t u" "mem_refs u []"
    using mem_avl_init_refs [OF assms(1), of t] assms(5,6) t_eq by auto
  then obtain mem where u_eq: "u = t\<lparr>mallocs := Suc (mallocs t), mem_avl_root := mem\<rparr>"
    using assms(1) by (auto simp: mem_avl_init_def avl_create_def plenty_malloc)
  obtain ret old g where sig: "io_sigaction io (guest u) = (ret, old, g)" by (metis prod_cases3)
  have "0 \<le> ret" using assms(2) sig by (metis fst_conv)
  then have v: "initialise_signal_handlers io u = (0, u\<lparr>guest := g, old_abort_action := old\<rparr>)" (is "_ = (0, ?v)")
    using sig by (simp add: initialise_signal_handlers_def)
  have "below (tb_exec_heap ?v) (mallocs ?v)" using u_eq t_eq assms(7) by simp
  then obtain w where w: "tb_exec_order_init e ?v = (0, w)" "exec_log w []"
    using tb_exec_order_init_log [OF assms(1)] by blast
  have "\<exists>k i rb. mallocs ?v \<le> k \<and> w = ?v\<lparr>tb_exec_order_list := None, num_exec_order := 0,
      tb_exec_rb_list_index := i, mallocs := k, tb_exec_rb_list := rb\<rparr>"
  proof (cases "tb_exec_order_ring_buffer ?v = 0")
    case True
    then have "w = ?v\<lparr>tb_exec_order_list := None, num_exec_order := 0,
        tb_exec_rb_list_index := tb_exec_rb_list_index ?v, mallocs := mallocs ?v, tb_exec_rb_list := tb_exec_rb_list ?v\<rparr>"
      using w(1) by (auto simp: tb_exec_order_init_def)
    then show ?thesis by blast
  next
    case False
    then have "w = ?v\<lparr>tb_exec_order_list := None, num_exec_order := 0, tb_exec_rb_list_index := 0,
        mallocs := Suc (mallocs ?v), tb_exec_rb_list := Some (replicate TB_EXEC_RB_SIZE None)\<rparr>"
      using w(1) assms(1) by (simp add: tb_exec_order_init_def plenty_malloc)
    moreover have "mallocs ?v \<le> Suc (mallocs ?v)" by simp
    ultimately show ?thesis by blast
  qed
  then obtain k i rb where k: "mallocs ?v \<le> k" "w = ?v\<lparr>tb_exec_order_list := None, num_exec_order := 0,
      tb_exec_rb_list_index := i, mallocs := k, tb_exec_rb_list := rb\<rparr>" by blast
  have "w = s\<lparr>tb_avl_root := tb, mem_avl_root := mem, guest := g, old_abort_action := old,
          tb_exec_order_list := None, num_exec_order := 0, tb_exec_rb_list_index := i, mallocs := k,
          tb_exec_rb_list := rb\<rparr>"
    unfolding k(2) u_eq t_eq by (intro plugin_state.equality) simp_all
  moreover have "mallocs s \<le> k" using k(1) u_eq t_eq by simp
  moreover have "tb_refs w []" by (rule tb_refs_same [OF t(3)]) (use k u_eq in simp_all)
  moreover have "mem_refs w []" by (rule mem_refs_same [OF u(3)]) (use k in simp_all)
  moreover have "previous_action io old" using sig by (metis previous_action_def fst_conv snd_conv)
  ultimately show ?thesis using t(1) u(1) v w by blast
qed

section \<open>The start\<close>

lemma initialise_plugin_opens:
  assumes "plenty e" "open_pipes io a b c g = (p, g')" "all_open p"
  shows "\<exists>s. initialise_plugin e io (arguments a b c) A (blank g\<lparr>architecture := name\<rparr>) = Some (0, s) \<and>
    s = blank g\<lparr>architecture := name, guest := g', mallocs := 2, pipes := Some p, arch := A, tb_counter_max := 1000,
      end_point := Some 0, end_point_heap := [0 \<mapsto> \<lparr>ep_location =
        \<lparr>trig_address = malloc_junk e 0 0, hitcounter = malloc_junk e 0 1, trignum = 0\<rparr>, ep_next = None\<rparr>],
      mem_info_list_enabled := 1, tb_info_enabled := 1, tb_exec_order_enabled := 1\<rparr>"
proof -
  obtain s where s: "init_variables e (blank g\<lparr>architecture := name\<rparr>) = Some s"
    "s = blank g\<lparr>architecture := name, mallocs := 1, tb_counter_max := 1000,
      end_point := Some 0, end_point_heap := [0 \<mapsto> \<lparr>ep_location =
        \<lparr>trig_address = malloc_junk e 0 0, hitcounter = malloc_junk e 0 1, trignum = 0\<rparr>, ep_next = None\<rparr>],
      mem_info_list_enabled := 1, tb_info_enabled := 1, tb_exec_order_enabled := 1\<rparr>"
    using assms(1) by (simp add: init_variables_def blank_def plenty_malloc init_fault_list_def tb_info_init_def)
  let ?p = "\<lparr>fifo_control = -1, fifo_config = -1, fifo_data = -1\<rparr>"
  let ?t = "s\<lparr>mallocs := Suc (mallocs s), pipes := Some ?p\<rparr>"
  have "parse_args io (arguments a b c) ?t = Some (0, ?t\<lparr>guest := g', pipes := Some p\<rparr>)"
    by (rule parse_args_opens) (use s(2) assms(2,3) in \<open>simp_all add: blank_def\<close>)
  then have "initialise_plugin e io (arguments a b c) A (blank g\<lparr>architecture := name\<rparr>) =
      Some (0, init_singlestep_req (init_register_module A (init_memory_module (?t\<lparr>guest := g', pipes := Some p\<rparr>))))"
    using assms(1) s(1) by (simp add: initialise_plugin_def plenty_malloc)
  then show ?thesis
    using s(2) by (simp add: init_singlestep_req_def init_register_module_def init_memory_module_def blank_def)
qed

text \<open>
  What a state is configured for: the settings of the control message, the faults in the order of
  the list with their triggers armed, the end points, the memory dumps; and nothing has run yet.
\<close>

definition set_up ::
  "control_msg \<Rightarrow> fault_msg list \<Rightarrow> ref list \<Rightarrow> ref list \<Rightarrow> ('g, 'z) plugin_state_scheme \<Rightarrow> bool" where
  "set_up m fs rs es s \<longleftrightarrow>
     settings_of m \<lparr>trig_address = 0, hitcounter = 0, trignum = 0\<rparr> s \<and>
     length rs = length fs \<and>
     (\<forall>i < length fs. get_fault (rs ! i) s = Some (configured (rev fs ! i) (of_nat i))) \<and>
     fault_trigger_addresses s = Some (map fm_trigger_address (rev fs)) \<and>
     live_faults s = Some (replicate (length fs) None) \<and>
     (cm_end_points m \<noteq> [] \<longrightarrow> end_triggers s es = map end_trigger (cm_end_points m)) \<and>
     logs s = map region_of (cm_memorydumps m) \<and>
     recorded s (Map.empty, [], []) \<and> cbs s = [] \<and> first_tb s = 0 \<and> tb_counter s = 0 \<and> live_faults_number s = 0 \<and> tb_trans_registered s"

lemma recorded_empty:
  assumes "tb_refs s []" "exec_log s []" "mem_refs s []" "cbs s = []"
  shows "recorded s (Map.empty, [], [])"
proof -
  have "tb_table s a = None" for a using tb_table_iff [OF assms(1)] by (cases "tb_table s a") auto
  then have "tb_table s = Map.empty" by (simp add: fun_eq_iff)
  with assms show ?thesis by (auto simp: recorded_def mem_view_def)
qed

lemma install_sets_up:
  assumes "plenty e" "contiguous io" "\<forall>g. 0 \<le> fst (io_sigaction io g)"
    and "open_pipes io a b c g = (p, g')" "all_open p" "delivers io p g' m fs" "workable m fs"
    and "architecture_of target \<noteq> -1"
  shows "\<exists>s rs es. qemu_plugin_install e io target (arguments a b c) (blank g) = Some (0, s) \<and>
    plugin_ok rs es s \<and> set_up m fs rs es s \<and> pipes s = Some p \<and> architecture s = target \<and>
    previous_action io (old_abort_action s)"
proof -
  let ?A = "architecture_of target"
  have known: "known_arch ?A" using assms(8) by (auto simp: architecture_of_def known_arch_def)
  obtain s1 where s1: "initialise_plugin e io (arguments a b c) ?A (blank g\<lparr>architecture := target\<rparr>) = Some (0, s1)"
    "s1 = blank g\<lparr>architecture := target, guest := g', mallocs := 2, pipes := Some p, arch := ?A, tb_counter_max := 1000,
      end_point := Some 0, end_point_heap := [0 \<mapsto> \<lparr>ep_location =
        \<lparr>trig_address = malloc_junk e 0 0, hitcounter = malloc_junk e 0 1, trignum = 0\<rparr>, ep_next = None\<rparr>],
      mem_info_list_enabled := 1, tb_info_enabled := 1, tb_exec_order_enabled := 1\<rparr>"
    using initialise_plugin_opens [OF assms(1,4,5)] by blast
  let ?n = "\<lparr>ep_location = \<lparr>trig_address = malloc_junk e 0 0, hitcounter = malloc_junk e 0 1, trignum = 0\<rparr>,
      ep_next = None\<rparr>"
  have pre: "pipes s1 = Some p" "delivers io p (guest s1) m fs" "memdump s1 = None" "fault_refs s1 []"
    "end_point s1 = Some 0" "end_point_heap s1 0 = Some ?n" "ep_next ?n = None" "trignum (ep_location ?n) = 0"
    "below (end_point_heap s1) (mallocs s1)"
    using assms(6) unfolding s1(2) by (simp_all add: blank_def fault_refs_def below_def)
  obtain s2 es qs where s2: "readout_control_qemu e io s1 = Some (0, s2)" "setup_keeps s1 s2"
    "settings_of m (start_point s1) s2" "fault_number s2 = u64_to_int (cm_num_faults m)"
    "chain ep_next (end_point_heap s2) (end_point s2) es" "es \<noteq> []"
    "end_triggers s2 es = (if cm_end_points m = [] then [ep_location ?n] else map end_trigger (cm_end_points m))"
    "memdump_ok s2" "logs s2 = map region_of (cm_memorydumps m)" "fault_refs s2 (rev qs)"
    "list_all2 (\<lambda>f q. get_fault q s2 = Some (configured f (malloc_junk e q 0))) fs qs"
    using readout_control_configures [OF assms(1,2) pre(1,2) assms(7) pre(3-)] by blast
  have w: "unat (cm_num_faults m) < 2 ^ 31" "fs \<noteq> []" "length fs < 2 ^ 31" "\<forall>f \<in> set fs. fm_address f \<noteq> trigger_done"
    using assms(7) by (simp_all add: workable_def)
  have "0 \<le> fault_number s2"
    using u64_to_int_small [OF w(1)] s2(4) by simp
  moreover have keep: "tb_faulted_heap s2 = Map.empty" "live_faults_number s2 = 0" "register_heap s2 = Map.empty"
    "first_registerdump s2 = None" "arch s2 = ?A" "tb_info_list s2 = None" "tb_info_heap s2 = Map.empty"
    "mem_info_list s2 = None" "mem_info_heap s2 = Map.empty" "tb_exec_heap s2 = Map.empty" "cbs s2 = []"
    "pipes s2 = Some p" "architecture s2 = target" "first_tb s2 = 0" "tb_counter s2 = 0" "mem_map_infos s2 = None" "mem_map_size s2 = 0"
    using s2(2) by (simp_all add: setup_keeps_def s1(2) blank_def)
  moreover have "register_log s2 []"
    using keep by (simp add: register_log_def register_refs_def)
  moreover have "known_arch (arch s2)" using keep known by simp
  ultimately obtain t u k h v l n where u: "tb_faulted_init e (fault_number s2) s2 = Some t"
    "register_fault_trigger_addresses e t = Some (0, u)"
    "u = s2\<lparr>tb_faulted_list := None, active_triggers := Some v, max_triggers := fault_number s2,
          current_triggers := 0, done_triggers := 0, mallocs := k, fault_heap := h,
          fault_trigger_addresses := Some (map fm_trigger_address (rev fs)),
          live_faults := Some l, fault_number := n\<rparr>" "mallocs s2 \<le> k"
    "engine_ok (rev qs) u" "budget (rev qs) u" "l = replicate (length fs) None"
    "\<forall>i < length fs. get_fault (rev qs ! i) u = Some (configured (rev fs ! i) (of_nat i))"
    using engine_armed [OF assms(1) s2(10) w(2,3) s2(11) w(4) _ _ _ s2(8)] by blast
  let ?u = "u\<lparr>tb_trans_registered := True\<rparr>"
  obtain x1 x2 x3 w tb mem g1 old k1 i rb where w: "tb_info_avl_init e ?u = (0, x1)" "mem_avl_init e x1 = (True, x2)"
    "initialise_signal_handlers io x2 = (0, x3)" "tb_exec_order_init e x3 = (0, w)"
    "w = ?u\<lparr>tb_avl_root := tb, mem_avl_root := mem, guest := g1, old_abort_action := old,
          tb_exec_order_list := None, num_exec_order := 0, tb_exec_rb_list_index := i, mallocs := k1,
          tb_exec_rb_list := rb\<rparr>" "mallocs ?u \<le> k1" "tb_refs w []" "exec_log w []" "mem_refs w []"
    "previous_action io old"
    using collections_initialised [OF assms(1,3), of ?u] u(3) keep by auto
  have k: "mallocs u \<le> k1" using w(6) by simp
  have e: "engine_ok (rev qs) w \<and> hits w = hits u"
    by (rule engine_ok_same [OF u(5)]) (use w(5) k in simp_all)
  have b: "budget (rev qs) w"
    by (rule budget_hits [OF u(6)]) (use w(5) e in simp_all)
  have c: "collected (rev qs) es [] [] [] w"
    using w(5,7-9) u(3) keep s2(5,6) by (simp add: collected_def)
  have wait: "waiting w" using w(5) u(3) keep by (simp add: waiting_def)
  have ok: "plugin_ok (rev qs) es w" using e b c wait unfolding plugin_ok_def by blast
  have "length qs = length fs" using s2(11) by (simp add: list_all2_lengthD)
  moreover have "get_fault r w = get_fault r u" for r using w(5) by (simp add: get_fault_def)
  moreover have "logs w = logs s2" using memdump_ok_same [of w s2] w(5) u(3) by simp
  moreover have "end_triggers w es = end_triggers s2 es" using w(5) u(3) by (simp add: end_triggers_def)
  moreover have "settings_of m \<lparr>trig_address = 0, hitcounter = 0, trignum = 0\<rparr> w"
    using s2(3) w(5) u(3) s1(2) by (simp add: settings_of_def blank_def)
  moreover have "recorded w (Map.empty, [], [])"
    by (rule recorded_empty [OF w(7-9)]) (use w(5) u(3) keep in simp)
  ultimately have set: "set_up m fs (rev qs) es w"
    using w(5) u(3,7,8) s2(7,9) keep by (simp add: set_up_def)
  have "pipes w = Some p" "architecture w = target" using w(5) u(3) keep by simp_all
  moreover have "previous_action io (old_abort_action w)" using w(5,10) by simp
  moreover note ok set
  moreover have A: "?A \<noteq> -1" by (rule assms(8))
  have "qemu_plugin_install e io target (arguments a b c) (blank g) = Some (0, w)"
    unfolding qemu_plugin_install_def Let_def if_not_P [OF A] s1(1) bind.bind_lunit prod.case
    using s2(1) u(1,2) w(1-4) by simp
  ultimately show ?thesis by blast
qed

section \<open>A guest and its pipes\<close>

record demo =
  demo_mem :: "u64 \<Rightarrow> u8"
  demo_control :: "u8 list"
  demo_config :: "u8 list"
  demo_data :: "u8 list"

definition demo_env :: "demo env" where
  "demo_env =
     \<lparr>read_mem = (\<lambda>a n g. (0, get_bytes a n (demo_mem g), g)),
      write_mem = (\<lambda>a bs g. (0, g\<lparr>demo_mem := put_bytes a bs (demo_mem g)\<rparr>)),
      read_reg = (\<lambda>r g. 0), write_reg = (\<lambda>r v g. g), single_step = (\<lambda>b g. g), flush_tb = (\<lambda>g. g),
      malloc_ok = (\<lambda>_. True), malloc_junk = (\<lambda>_ _. 7), shl_ub = (\<lambda>v n. v)\<rparr>"

definition demo_read :: "int \<Rightarrow> nat \<Rightarrow> demo \<Rightarrow> int \<times> u8 list \<times> demo" where
  "demo_read fd n g =
     (if fd = 1 then let bs = take (min n 3) (demo_control g)
                     in (int (length bs), bs, g\<lparr>demo_control := drop (min n 3) (demo_control g)\<rparr>)
      else let bs = take (min n 3) (demo_config g)
           in (int (length bs), bs, g\<lparr>demo_config := drop (min n 3) (demo_config g)\<rparr>))"

definition demo_io :: "control_msg \<Rightarrow> fault_msg list \<Rightarrow> demo io" where
  "demo_io m fs =
     \<lparr>io_mkfifo = (\<lambda>_ g. g),
      io_open = (\<lambda>_ path g. (if path = ''c'' then 1 else if path = ''f'' then 2 else 3, g)),
      io_read = demo_read,
      io_write = (\<lambda>_ str g. (int (length (take 3 str)), g\<lparr>demo_data := demo_data g @ take 3 str\<rparr>)),
      io_unpack_control = (\<lambda>_. Some m), io_unpack_faults = (\<lambda>_. Some fs),
      io_fault_at = (\<lambda>fs i. if i < length fs then Some (fs ! i) else None),
      io_pack_data = (\<lambda>_. [1, 2, 3, 4]), io_pages = (\<lambda>ps. ps), io_ranges = (\<lambda>_. []),
      io_sigaction = (\<lambda>g. (0, \<lparr>sa_flags = 0, sa_handler = SIG_DFL\<rparr>, g))\<rparr>"

definition demo_guest :: demo where
  "demo_guest = \<lparr>demo_mem = (\<lambda>a. ucast a), demo_control = framed [9, 8, 7, 6, 5],
     demo_config = framed [5, 6, 7, 8, 9], demo_data = []\<rparr>"

definition demo_pipes :: fifos where
  "demo_pipes = \<lparr>fifo_control = 1, fifo_config = 2, fifo_data = 3\<rparr>"

definition demo_message :: control_msg where
  "demo_message =
     \<lparr>cm_max_duration = 100, cm_num_faults = 1, cm_tb_exec_list = True, cm_tb_info = True, cm_mem_info = True,
      cm_start_address = 0, cm_start_counter = 0, cm_end_points = [\<lparr>ep_address = 0x40, ep_counter = 1\<rparr>],
      cm_tb_exec_list_ring_buffer = False, cm_memorydumps = [\<lparr>mdm_address = 0x20, mdm_length = 4\<rparr>],
      cm_has_start = False, cm_memmap_dump = False, cm_full_mem_dump = False\<rparr>"

definition demo_faults :: "fault_msg list" where
  "demo_faults =
     [\<lparr>fm_address = 0x10, fm_type = DATA, fm_model = TOGGLE, fm_lifespan = 0, fm_trigger_address = 8,
       fm_trigger_hitcounter = 2, fm_mask_upper = 0, fm_mask_lower = 0xFF, fm_num_bytes = 0\<rparr>]"

lemma demo_plenty: "plenty demo_env"
  by (simp add: plenty_def demo_env_def)

lemma demo_sane: "mem_sane demo_env" "io_sane (demo_io m fs)" "contiguous (demo_io m fs)"
  by (simp_all add: mem_sane_def demo_env_def io_sane_def demo_io_def contiguous_def)

lemma demo_signals: "\<forall>g. 0 \<le> fst (io_sigaction (demo_io m fs) g)"
  by (simp add: demo_io_def)

lemma demo_ram: "ram demo_env demo_mem UNIV"
  by (simp add: ram_def demo_env_def)

lemma demo_writes: "writes_to (demo_io m fs) fd demo_data"
  by (auto simp: writes_to_def demo_io_def min_def)

lemma demo_opens: "open_pipes (demo_io m fs) ''c'' ''f'' ''d'' demo_guest = (demo_pipes, demo_guest)" "all_open demo_pipes"
  by (simp_all add: open_pipes_def demo_io_def demo_pipes_def all_open_def)

lemma demo_delivers: "delivers (demo_io m fs) demo_pipes demo_guest m fs"
proof -
  have "reads_from (demo_io m fs) 1 demo_control" "reads_from (demo_io m fs) 2 demo_config"
    by (auto simp: reads_from_def demo_io_def demo_read_def Let_def min_def)
  moreover have "\<forall>n g. demo_config (snd (snd (io_read (demo_io m fs) 1 n g))) = demo_config g"
    by (simp add: demo_io_def demo_read_def Let_def)
  moreover have "demo_control demo_guest = framed [9, 8, 7, 6, 5] @ []" "demo_config demo_guest = framed [5, 6, 7, 8, 9] @ []"
    by (simp_all add: demo_guest_def)
  moreover have "io_unpack_control (demo_io m fs) b = Some m" "io_unpack_faults (demo_io m fs) b = Some fs" for b
    by (simp_all add: demo_io_def)
  moreover have "[9, 8, 7, 6, 5 :: u8] \<noteq> []" "[5, 6, 7, 8, 9 :: u8] \<noteq> []" "length [9, 8, 7, 6, 5 :: u8] < 2 ^ 31"
    "length [5, 6, 7, 8, 9 :: u8] < 2 ^ 31" by simp_all
  ultimately show ?thesis unfolding delivers_def demo_pipes_def fifos.simps by blast
qed

lemma demo_workable: "workable demo_message demo_faults"
  by (simp add: workable_def demo_message_def demo_faults_def trigger_done_def)



end
