(* ===== verification/FaultLife.thy ===== *)
theory FaultLife
  imports InstallCorrect
begin

text \<open>
  The life of a fault in memory, over all its callbacks: it is not there before its trigger was hit
  as often as configured, it changes exactly the masked bits then, it stays for its lifetime, and it
  is taken back at the end of it.
\<close>

section \<open>Steps that leave the memory of the guest and the faults alone\<close>

definition same_memory :: "('g \<Rightarrow> u64 \<Rightarrow> u8) \<Rightarrow> ('g, 'z) fault_list_state_scheme \<Rightarrow> ('g, 'z) fault_list_state_scheme \<Rightarrow> bool" where
  "same_memory byte s s' \<longleftrightarrow> byte (guest s') = byte (guest s) \<and> fault_heap s' = fault_heap s"

lemma same_memory_refl [simp]: "same_memory byte s s"
  by (simp add: same_memory_def)

lemma same_memory_trans: "same_memory byte s t \<Longrightarrow> same_memory byte t u \<Longrightarrow> same_memory byte s u"
  by (simp add: same_memory_def)

lemma same_memory_fault: "same_memory byte s s' \<Longrightarrow> get_fault r s' = get_fault r s"
  by (simp add: same_memory_def get_fault_def)

lemma same_memory_guest: "byte g = byte (guest s) \<Longrightarrow> same_memory byte s (s\<lparr>guest := g\<rparr>)"
  by (simp add: same_memory_def)

lemma read_memoryregion_kept:
  assumes "ram e byte UNIV" "read_memoryregion e i s = Some (c, s')"
  shows "same_memory byte s s'"
  using assms(2) ram_read [OF assms(1) subset_UNIV]
  by (auto simp: read_memoryregion_def grow_region_def malloc_def same_memory_def Let_def split: if_splits bind_splits option.splits)

lemma read_specific_kept:
  assumes "ram e byte UNIV"
  shows "read_specific_from e base is s = Some s' \<Longrightarrow> same_memory byte s s'"
proof (induction "is" arbitrary: s)
  case (Cons i "is")
  then show ?case
    using read_memoryregion_kept [OF assms] same_memory_trans
    by (fastforce split: bind_splits if_splits option.splits)
qed simp

lemma read_specific_memoryregion_kept:
  "ram e byte UNIV \<Longrightarrow> read_specific_memoryregion e base s = Some s' \<Longrightarrow> same_memory byte s s'"
  unfolding read_specific_memoryregion_def by (rule read_specific_kept)

lemma insert_memorydump_config_kept:
  "insert_memorydump_config e base len s = Some (c, s') \<Longrightarrow> same_memory byte s s'"
  by (auto simp: insert_memorydump_config_def grow_memdump_def malloc_def same_memory_def Let_def
      split: if_splits bind_splits option.splits)

lemma singlestep_kept:
  assumes "ram e byte UNIV"
  shows "same_memory byte s (add_singlestep_req e s)" "same_memory byte s (rem_singlestep_req e s)" "same_memory byte s (flush_guest e s)"
  using assms
  by (simp_all add: same_memory_def ram_def add_singlestep_req_def rem_singlestep_req_def check_singlestep_def
      flush_guest_def Let_def)

lemma tb_faulted_register_kept:
  assumes "ram e byte UNIV" "tb_faulted_register e a s = Some s'"
  shows "same_memory byte s s'"
proof -
  have "same_memory byte s (add_singlestep_req e s)" by (rule singlestep_kept [OF assms(1)])
  then show ?thesis
    using assms(2) by (auto simp: tb_faulted_register_def malloc_def same_memory_def split: if_splits bind_splits option.splits)
qed

lemma invalidate_kept: "invalidate_fault_trigger_address k s = Some s' \<Longrightarrow> same_memory byte s s'"
  by (auto simp: invalidate_fault_trigger_address_def same_memory_def split: bind_splits)

lemma register_live_kept:
  assumes "ram e byte UNIV" "register_live_faults_callback e r s = Some (n, s')"
  shows "same_memory byte s s'"
proof -
  have "same_memory byte s (add_singlestep_req e s)" by (rule singlestep_kept [OF assms(1)])
  then show ?thesis
    using assms(2) by (auto simp: register_live_faults_callback_def same_memory_def Let_def split: if_splits bind_splits)
qed

lemma add_new_registerdump_kept: "add_new_registerdump e k s = Some (c, s') \<Longrightarrow> same_memory byte s s'"
  by (auto simp: add_new_registerdump_def malloc_def same_memory_def split: if_splits bind_splits option.splits)

section \<open>Injection and reversal\<close>

definition in_memory :: "fault \<Rightarrow> bool" where
  "in_memory f \<longleftrightarrow>
     (f_type f = INSTRUCTION \<or> f_type f = DATA) \<and> bit_model (f_model f) \<and> length (f_mask f) = 16"

definition injected :: "('g \<Rightarrow> u64 \<Rightarrow> u8) \<Rightarrow> fault \<Rightarrow> 'g \<Rightarrow> 'g \<Rightarrow> bool" where
  "injected byte f g g' \<longleftrightarrow>
     memory_change byte (f_address f) 16 (\<lambda>i v. faulty (f_model f) v (f_mask f ! i)) g g'"

text \<open>The fault as it is when it is in effect: it knows the bytes it has changed.\<close>

definition armed :: "('g \<Rightarrow> u64 \<Rightarrow> u8) \<Rightarrow> fault \<Rightarrow> 'g \<Rightarrow> fault \<Rightarrow> bool" where
  "armed byte f g k \<longleftrightarrow>
     (\<exists>t. k = f\<lparr>f_restoremask := map (\<lambda>i. byte g (f_address f + of_nat i) AND f_mask f ! i) [0..<16],
              f_trigger := (f_trigger f)\<lparr>trignum := t\<rparr>\<rparr>)"

lemma injected_cong: "byte g = byte h \<Longrightarrow> byte g' = byte h' \<Longrightarrow> injected byte f g g' \<longleftrightarrow> injected byte f h h'"
  by (simp add: injected_def memory_change_def)

lemma armed_cong: "byte g = byte h \<Longrightarrow> armed byte f g k \<longleftrightarrow> armed byte f h k"
  by (simp add: armed_def)

lemma inject_by_type_effect:
  assumes "ram e byte UNIV" "inject_by_type e r f s = Some s'" "get_fault r s = Some f" "in_memory f"
  shows "injected byte f (guest s) (guest s') \<and>
    get_fault r s' = Some (f\<lparr>f_restoremask := map (\<lambda>i. byte (guest s) (f_address f + of_nat i) AND f_mask f ! i) [0..<16]\<rparr>)"
proof -
  let ?a = "f_address f"
  have f: "bit_model (f_model f)" "length (f_mask f) = 16" using assms(4) by (simp_all add: in_memory_def)
  obtain t u where t: "same_memory byte s t" "inject_memory_fault e r t = Some u"
    "read_specific_memoryregion e ?a (flush_guest e u) = Some s'"
  proof (cases "f_type f = INSTRUCTION")
    case True
    then obtain c s1 s2 s3 u where s: "insert_memorydump_config e ?a 16 s = Some (c, s1)"
      "read_specific_memoryregion e ?a s1 = Some s2" "tb_faulted_register e ?a s2 = Some s3"
      "inject_memory_fault e r s3 = Some u" "read_specific_memoryregion e ?a (flush_guest e u) = Some s'"
      using assms(2) by (auto simp: inject_by_type_def split: bind_splits)
    have "same_memory byte s s1" by (rule insert_memorydump_config_kept [OF s(1)])
    moreover have "same_memory byte s1 s2" by (rule read_specific_memoryregion_kept [OF assms(1) s(2)])
    moreover have "same_memory byte s2 s3" by (rule tb_faulted_register_kept [OF assms(1) s(3)])
    ultimately have "same_memory byte s s3" by (blast intro: same_memory_trans)
    with s(4,5) that show thesis by blast
  next
    case False
    then have "f_type f = DATA" using assms(4) by (simp add: in_memory_def)
    with False obtain c s1 s2 u where s: "insert_memorydump_config e ?a 16 s = Some (c, s1)"
      "read_specific_memoryregion e ?a s1 = Some s2"
      "inject_memory_fault e r s2 = Some u" "read_specific_memoryregion e ?a (flush_guest e u) = Some s'"
      using assms(2) by (auto simp: inject_by_type_def split: bind_splits)
    have "same_memory byte s s1" by (rule insert_memorydump_config_kept [OF s(1)])
    moreover have "same_memory byte s1 s2" by (rule read_specific_memoryregion_kept [OF assms(1) s(2)])
    ultimately have "same_memory byte s s2" by (rule same_memory_trans)
    with s(3,4) that show thesis by blast
  qed
  have "get_fault r t = Some f" using same_memory_fault [OF t(1)] assms(3) by simp
  from inject_memory_fault_change [OF assms(1) this subset_UNIV f(2,1)] t(2)
  have u: "injected byte f (guest t) (guest u)"
    "get_fault r u = Some (f\<lparr>f_restoremask := map (\<lambda>i. byte (guest t) (?a + of_nat i) AND f_mask f ! i) [0..<16]\<rparr>)"
    by (auto simp: injected_def)
  have "same_memory byte u (flush_guest e u)" by (rule singlestep_kept [OF assms(1)])
  then have k: "same_memory byte u s'" using read_specific_memoryregion_kept [OF assms(1) t(3)] by (rule same_memory_trans)
  have "byte (guest t) = byte (guest s)" "byte (guest s') = byte (guest u)" using t(1) k by (simp_all add: same_memory_def)
  with u same_memory_fault [OF k, of r] show ?thesis
    using injected_cong [of byte "guest t" "guest s" "guest u" "guest s'" f] by simp
qed

lemma inject_fault_effect:
  assumes "ram e byte UNIV" "inject_fault e (Some r) s = Some s'" "get_fault r s = Some f" "in_memory f"
  shows "injected byte f (guest s) (guest s') \<and> (\<exists>k. get_fault r s' = Some k \<and> armed byte f (guest s) k)"
proof -
  let ?f = "f\<lparr>f_restoremask := map (\<lambda>i. byte (guest s) (f_address f + of_nat i) AND f_mask f ! i) [0..<16]\<rparr>"
  obtain t where t: "inject_by_type e r f s = Some t"
    using assms(2,3) by (auto simp: inject_fault_def split: bind_splits)
  note inj = inject_by_type_effect [OF assms(1) t assms(3,4)]
  from inj obtain f' where f': "get_fault r t = Some f'" "f' = ?f" by blast
  let ?w = "\<lambda>v. if f_lifetime f = 0 then Some v else do {
        (n, s) \<leftarrow> register_live_faults_callback e r v;
        set_fault_trigger_num r (of_int n) s
      }"
  obtain u v w x c where u: "invalidate_fault_trigger_address (u64_to_int (trignum (f_trigger f))) t = Some u"
    "v = rem_singlestep_req e u" "?w v = Some w"
    "get_fault r w = Some x" "add_new_registerdump e (trignum (f_trigger x)) w = Some (c, s')"
    using assms(2) unfolding inject_fault_def option.case assms(3) bind.bind_lunit t f'(1) Let_def f'(2)
    by (cases "f_lifetime f = 0") (auto simp: Option.bind_eq_Some_conv)
  have v: "same_memory byte t v"
    using invalidate_kept [OF u(1)] singlestep_kept(2) [OF assms(1)] same_memory_trans unfolding u(2) by blast
  have fv: "get_fault r v = Some ?f" using same_memory_fault [OF v] inj by simp
  have w: "byte (guest w) = byte (guest v) \<and> (\<exists>t. get_fault r w = Some (?f\<lparr>f_trigger := (f_trigger f)\<lparr>trignum := t\<rparr>\<rparr>))"
  proof (cases "f_lifetime f = 0")
    case True
    then have "w = v" using u(3) by simp
    moreover have "get_fault r v = Some (?f\<lparr>f_trigger := (f_trigger f)\<lparr>trignum := trignum (f_trigger f)\<rparr>\<rparr>)"
      using fv by simp
    ultimately show ?thesis by blast
  next
    case False
    then obtain n y where y: "register_live_faults_callback e r v = Some (n, y)" "set_fault_trigger_num r (of_int n) y = Some w"
      using u(3) by (auto split: bind_splits)
    have k: "same_memory byte v y" by (rule register_live_kept [OF assms(1) y(1)])
    then have fy: "get_fault r y = Some ?f" using same_memory_fault [OF k] fv by simp
    define z where "z = ?f\<lparr>f_trigger := (f_trigger f)\<lparr>trignum := of_int n\<rparr>\<rparr>"
    have "put_fault r z y = Some w"
      using y(2) unfolding set_fault_trigger_num_def fy bind.bind_lunit z_def by simp
    then have gw: "get_fault r w = Some z" "guest w = guest y"
      using put_fault_get [of r z y w r] put_fault_frame(1) [of r z y w] by simp_all
    show ?thesis using k gw(2) unfolding gw(1) unfolding z_def same_memory_def by auto
  qed
  have s': "same_memory byte w s'" by (rule add_new_registerdump_kept [OF u(5)])
  have "byte (guest s') = byte (guest t)" using s' w v by (simp add: same_memory_def)
  then have "injected byte f (guest s) (guest s')"
    using inj injected_cong [of byte "guest s" "guest s" "guest s'" "guest t" f] by simp
  moreover have "\<exists>k. get_fault r s' = Some k \<and> armed byte f (guest s) k"
  proof -
    obtain n where "get_fault r w = Some (?f\<lparr>f_trigger := (f_trigger f)\<lparr>trignum := n\<rparr>\<rparr>)" using w by blast
    then show ?thesis unfolding same_memory_fault [OF s'] armed_def by blast
  qed
  ultimately show ?thesis by blast
qed

text \<open>The reversal puts the saved bits back.\<close>

lemma injected_taken_back:
  assumes "injected byte f g h"
    and "memory_change byte (f_address f) 16
      (\<lambda>i v. (v AND NOT (f_mask f ! i)) OR (byte g (f_address f + of_nat i) AND f_mask f ! i)) h h'"
  shows "byte h' = byte g"
proof
  fix x
  show "byte h' x = byte g x"
  proof (cases "x \<in> block (f_address f) 16")
    case False
    then show ?thesis using assms by (simp add: injected_def memory_change_def)
  next
    case True
    then obtain i where i: "i < 16" "x = f_address f + of_nat i" by (auto simp: block_def)
    then have "byte h' x = (faulty (f_model f) (byte g x) (f_mask f ! i) AND NOT (f_mask f ! i)) OR (byte g x AND f_mask f ! i)"
      using assms by (simp add: injected_def memory_change_def)
    then show ?thesis by (simp only: bit_fault.undo)
  qed
qed

lemma reverse_fault_effect:
  assumes "ram e byte UNIV" "reverse_fault e (Some r) s = Some s'" "get_fault r s = Some k" "armed byte f g k"
    and "in_memory f" "injected byte f g (guest s)"
  shows "byte (guest s') = byte g \<and> get_fault r s' = Some k"
proof -
  have k: "f_address k = f_address f" "f_mask k = f_mask f" "f_type k = f_type f"
    "f_restoremask k = map (\<lambda>i. byte g (f_address f + of_nat i) AND f_mask f ! i) [0..<16]"
    using assms(4) by (auto simp: armed_def)
  have kind: "f_type k = INSTRUCTION \<or> f_type k = DATA" and len: "length (f_mask f) = 16"
    using assms(5) k(3) by (auto simp: in_memory_def)
  obtain t u v x c where t: "process_reverse_fault e (f_address k) (f_mask k) (f_restoremask k) s = Some t"
    "read_specific_memoryregion e (f_address k) (flush_guest e t) = Some u"
    "v = rem_singlestep_req e u" "get_fault r v = Some x" "add_new_registerdump e (trignum (f_trigger x)) v = Some (c, s')"
    using assms(2,3) kind by (auto simp: reverse_fault_def reverse_by_type_def Let_def split: bind_splits)
  have "length (f_restoremask k) = 16" unfolding k(4) by simp
  from process_reverse_fault_change [OF assms(1) subset_UNIV _ this, of "f_mask f" "f_address f" s] t(1) len
  have ch: "memory_change byte (f_address f) 16 (\<lambda>i v. (v AND NOT (f_mask f ! i)) OR f_restoremask k ! i) (guest s) (guest t)"
    "t = s\<lparr>guest := guest t\<rparr>"
    unfolding k(1,2) by auto
  have "memory_change byte (f_address f) 16
      (\<lambda>i v. (v AND NOT (f_mask f ! i)) OR (byte g (f_address f + of_nat i) AND f_mask f ! i)) (guest s) (guest t)"
    using ch(1) unfolding k(4) memory_change_def by simp
  then have restored: "byte (guest t) = byte g" by (rule injected_taken_back [OF assms(6)])
  have "same_memory byte t (flush_guest e t)" by (rule singlestep_kept [OF assms(1)])
  moreover have "same_memory byte (flush_guest e t) u" by (rule read_specific_memoryregion_kept [OF assms(1) t(2)])
  moreover have "same_memory byte u v" unfolding t(3) by (rule singlestep_kept [OF assms(1)])
  moreover have "same_memory byte v s'" by (rule add_new_registerdump_kept [OF t(5)])
  ultimately have same_memory: "same_memory byte t s'" by (blast intro: same_memory_trans)
  have "get_fault r t = get_fault r s" by (subst ch(2)) (simp add: get_fault_def)
  then show ?thesis using restored same_memory same_memory_fault [OF same_memory, of r] assms(3) by (simp add: same_memory_def)
qed

section \<open>The life of a fault as a state machine\<close>

text \<open>
  A fault waits for its trigger to be hit, is live while its lifetime lasts, and is over then; the
  lifetime 0 stands for ever.  The callbacks of the fault are the steps of this machine.
\<close>

datatype life = Waiting nat | Live nat | Over

datatype call = Hit | Block

fun life_step :: "nat \<Rightarrow> life \<Rightarrow> call \<Rightarrow> life" where
  "life_step lifetime (Waiting n) Hit = (if n = 1 then Live lifetime else Waiting (n - 1))"
| "life_step lifetime (Live l) Block = (if l = 1 then Over else Live (l - 1))"
| "life_step lifetime x c = x"

text \<open>The callback of the executed blocks is only registered for a live fault.\<close>

fun in_order :: "nat \<Rightarrow> life \<Rightarrow> call list \<Rightarrow> bool" where
  "in_order lifetime x [] \<longleftrightarrow> True"
| "in_order lifetime x (c # cs) \<longleftrightarrow>
     (case x of Waiting n \<Rightarrow> c = Hit | _ \<Rightarrow> True) \<and> in_order lifetime (life_step lifetime x c) cs"

definition call_back :: "'g env \<Rightarrow> ref \<Rightarrow> call \<Rightarrow> ('g, 'z) trigger_state_scheme \<Rightarrow> ('g, 'z) trigger_state_scheme option" where
  "call_back e r c s = (case c of Hit \<Rightarrow> trigger_insn_cb e r s | Block \<Rightarrow> tb_exec_cb e r s)"

primrec calls :: "'g env \<Rightarrow> ref \<Rightarrow> call list \<Rightarrow> ('g, 'z) trigger_state_scheme \<Rightarrow> ('g, 'z) trigger_state_scheme option" where
  "calls e r [] s = Some s"
| "calls e r (c # cs) s = call_back e r c s \<bind> calls e r cs"

text \<open>The memory of the guest in each state, where \<open>g\<close> is the guest without the fault.\<close>

fun memory_in :: "('g \<Rightarrow> u64 \<Rightarrow> u8) \<Rightarrow> fault \<Rightarrow> 'g \<Rightarrow> life \<Rightarrow> 'g \<Rightarrow> bool" where
  "memory_in byte f g (Live l) g' \<longleftrightarrow> injected byte f g g'"
| "memory_in byte f g x g' \<longleftrightarrow> byte g' = byte g"

definition with_counters :: "fault \<Rightarrow> u64 \<Rightarrow> u64 \<Rightarrow> fault" where
  "with_counters f h l = f\<lparr>f_lifetime := l, f_trigger := (f_trigger f)\<lparr>hitcounter := h\<rparr>\<rparr>"

definition in_life :: "('g \<Rightarrow> u64 \<Rightarrow> u8) \<Rightarrow> ref \<Rightarrow> fault \<Rightarrow> 'g \<Rightarrow> life \<Rightarrow> ('g, 'z) fault_list_state_scheme \<Rightarrow> bool" where
  "in_life byte r f g x s \<longleftrightarrow> memory_in byte f g x (guest s) \<and>
     (case x of
        Waiting n \<Rightarrow> \<exists>h. unat h = n \<and> h \<noteq> 0 \<and> get_fault r s = Some (with_counters f h (f_lifetime f))
      | Live l \<Rightarrow> \<exists>w k. unat w = l \<and> get_fault r s = Some k \<and> armed byte (with_counters f 0 w) g k
      | Over \<Rightarrow> \<exists>k. get_fault r s = Some k \<and> f_lifetime k = 0 \<and> hitcounter (f_trigger k) = 0)"

lemma counters_same [simp]:
  "injected byte (with_counters f h l) g g' \<longleftrightarrow> injected byte f g g'"
  "in_memory (with_counters f h l) \<longleftrightarrow> in_memory f"
  "f_lifetime (with_counters f h l) = l" "hitcounter (f_trigger (with_counters f h l)) = h"
  by (simp_all add: with_counters_def injected_def in_memory_def)

lemma counters_step:
  "f_trigger (with_counters f h l) = (f_trigger f)\<lparr>hitcounter := h\<rparr>"
  "(with_counters f h l)\<lparr>f_trigger := (f_trigger f)\<lparr>hitcounter := h'\<rparr>\<rparr> = with_counters f h' l"
  "(with_counters f h l)\<lparr>f_lifetime := l'\<rparr> = with_counters f h l'"
  by (simp_all add: with_counters_def)

lemma armed_counters:
  assumes "armed byte (with_counters f h w) g k"
  shows "f_lifetime k = w" "hitcounter (f_trigger k) = h"
    "armed byte (with_counters f h w') g (k\<lparr>f_lifetime := w'\<rparr>)"
proof -
  obtain n where k: "k = (with_counters f h w)\<lparr>
      f_restoremask := map (\<lambda>i. byte g (f_address f + of_nat i) AND f_mask f ! i) [0..<16],
      f_trigger := (f_trigger f)\<lparr>hitcounter := h, trignum := n\<rparr>\<rparr>"
    using assms by (auto simp: armed_def with_counters_def)
  then show "f_lifetime k = w" "hitcounter (f_trigger k) = h" by (simp_all add: with_counters_def)
  show "armed byte (with_counters f h w') g (k\<lparr>f_lifetime := w'\<rparr>)"
    unfolding armed_def k by (intro exI [of _ n] fault.equality) (simp_all add: with_counters_def)
qed

lemma in_life_kept: "in_life byte r f g x s \<Longrightarrow> same_memory byte s s' \<Longrightarrow> in_life byte r f g x s'"
proof -
  assume x: "in_life byte r f g x s" and k: "same_memory byte s s'"
  have "byte (guest s') = byte (guest s)" using k by (simp add: same_memory_def)
  moreover have "get_fault r s' = get_fault r s" by (rule same_memory_fault [OF k])
  moreover have "memory_in byte f g x (guest s') \<longleftrightarrow> memory_in byte f g x (guest s)"
    using k injected_cong [of byte g g "guest s'" "guest s" f] by (cases x) (simp_all add: same_memory_def)
  ultimately show ?thesis using x by (cases x) (simp_all add: in_life_def)
qed

lemma unat_pred: "h \<noteq> 0 \<Longrightarrow> unat (h - 1) = unat h - 1" for h :: u64
proof -
  assume "h \<noteq> 0"
  then have "unat h \<noteq> 0" by (simp add: unat_eq_zero)
  then have "1 \<le> h" by (simp add: word_le_nat_alt)
  from unat_sub [OF this] show ?thesis by simp
qed

lemma hit_step:
  assumes "ram e byte UNIV" "in_memory f" "in_life byte r f g x s" "trigger_insn_cb e r s = Some s'"
  shows "in_life byte r f g (life_step (unat (f_lifetime f)) x Hit) s'"
proof (cases x)
  case (Waiting n)
  then obtain h where h: "unat h = n" "h \<noteq> 0" "get_fault r s = Some (with_counters f h (f_lifetime f))"
    and mem: "byte (guest s) = byte g"
    using assms(3) by (auto simp: in_life_def)
  let ?f = "with_counters f (h - 1) (f_lifetime f)"
  obtain t u k where t: "put_fault r ?f s = Some t"
    "(if h - 1 = 0 then inject_fault e (Some r) t else Some t) = Some u"
    "get_fault r u = Some k" "s' = (if hitcounter (f_trigger k) = 1 then add_singlestep_req e u else u)"
    using assms(4) h(2) unfolding trigger_insn_cb_def h(3) by (auto simp: counters_step Option.bind_eq_Some_conv)
  have ft: "get_fault r t = Some ?f" "guest t = guest s"
    using put_fault_get [of r ?f s t r] put_fault_frame(1) [of r ?f s t] t(1) by simp_all
  have "same_memory byte u s'" unfolding t(4) by (simp add: singlestep_kept [OF assms(1)])
  moreover have "in_life byte r f g (life_step (unat (f_lifetime f)) x Hit) u"
  proof (cases "h = 1")
    case True
    then have inj: "inject_fault e (Some r) t = Some u" using t(2) by simp
    have "in_memory ?f" using assms(2) by simp
    from inject_fault_effect [OF assms(1) inj ft(1) this]
    obtain k where "injected byte ?f (guest t) (guest u)" "get_fault r u = Some k" "armed byte ?f (guest t) k" by blast
    moreover have "byte (guest t) = byte g" using ft(2) mem by simp
    ultimately have "injected byte f g (guest u)" "armed byte (with_counters f 0 (f_lifetime f)) g k"
      using True injected_cong [of byte "guest t" g "guest u" "guest u" f] armed_cong [of byte "guest t" g] by simp_all
    moreover have "n = 1" using h(1) True by simp
    ultimately show ?thesis using Waiting \<open>get_fault r u = Some k\<close> by (auto simp: in_life_def)
  next
    case False
    then have "h - 1 \<noteq> 0" by simp
    then have u: "u = t" using t(2) by simp
    have "unat (h - 1) = n - 1" using unat_pred [OF h(2)] h(1) by simp
    moreover have "n \<noteq> 1" using False h(1) by (metis unat_1 word_unat_eq_iff)
    ultimately show ?thesis using Waiting \<open>h - 1 \<noteq> 0\<close> ft mem unfolding u by (auto simp: in_life_def)
  qed
  ultimately show ?thesis by (rule in_life_kept [rotated])
next
  case (Live l)
  then obtain w k where "get_fault r s = Some k" "armed byte (with_counters f 0 w) g k"
    using assms(3) by (auto simp: in_life_def)
  then have "s' = s" using assms(4) armed_counters(2) [of byte f 0 w g k] by (simp add: trigger_insn_cb_def)
  then show ?thesis using assms(3) Live by simp
next
  case Over
  then have "s' = s" using assms(3,4) by (auto simp: in_life_def trigger_insn_cb_def)
  then show ?thesis using assms(3) Over by simp
qed

lemma block_step:
  assumes "ram e byte UNIV" "in_memory f" "in_life byte r f g x s" "tb_exec_cb e r s = Some s'" "\<And>n. x \<noteq> Waiting n"
  shows "in_life byte r f g (life_step (unat (f_lifetime f)) x Block) s'"
proof (cases x)
  case (Live l)
  then obtain w k where k: "unat w = l" "get_fault r s = Some k" "armed byte (with_counters f 0 w) g k"
    and mem: "injected byte f g (guest s)"
    using assms(3) by (auto simp: in_life_def)
  note now = armed_counters [OF k(3)]
  show ?thesis
  proof (cases "w = 0")
    case True
    then have "s' = s" using assms(4) k(2) now(1) by (simp add: tb_exec_cb_def)
    then show ?thesis using assms(3) Live k(1) True by simp
  next
    case False
    let ?k = "k\<lparr>f_lifetime := w - 1\<rparr>"
    obtain t where t: "put_fault r ?k s = Some t"
      using assms(4) False k(2) now(1) by (auto simp: tb_exec_cb_def Option.bind_eq_Some_conv)
    have ft: "get_fault r t = Some ?k" "guest t = guest s"
      using put_fault_get [of r ?k s t r] put_fault_frame(1) [of r ?k s t] t by simp_all
    show ?thesis
    proof (cases "w = 1")
      case True
      obtain u l' where u: "reverse_fault e (Some r) t = Some u" "s' = u\<lparr>live_faults := l'\<rparr>"
        using assms(4) True k(2) now(1) t by (auto simp: tb_exec_cb_def Option.bind_eq_Some_conv)
      have ar: "armed byte (with_counters f 0 0) g ?k" using now(3) [of 0] True by simp
      have "injected byte (with_counters f 0 0) g (guest t)" "in_memory (with_counters f 0 0)"
        using mem ft(2) assms(2) by simp_all
      with reverse_fault_effect [OF assms(1) u(1) ft(1) ar]
      have "byte (guest u) = byte g" "get_fault r u = Some ?k" by simp_all
      then have "in_life byte r f g Over u" using now(2) True by (simp add: in_life_def)
      then have "in_life byte r f g Over s'" by (rule in_life_kept) (simp add: u(2) same_memory_def)
      then show ?thesis using Live k(1) True by simp
    next
      case False
      then have "s' = t" using assms(4) \<open>w \<noteq> 0\<close> k(2) now(1) t by (simp add: tb_exec_cb_def)
      moreover have "unat (w - 1) = l - 1"
        using unat_pred [OF \<open>w \<noteq> 0\<close>] k(1) by simp
      moreover have "l \<noteq> 1" using False k(1) by (metis unat_1 word_unat_eq_iff)
      ultimately show ?thesis using Live mem ft now(3) by (auto simp: in_life_def)
    qed
  qed
next
  case Over
  then have "s' = s" using assms(3,4) by (auto simp: in_life_def tb_exec_cb_def)
  then show ?thesis using assms(3) Over by simp
qed (use assms(5) in simp)

lemma calls_in_life:
  assumes "plenty e" "mem_sane e" "ram e byte UNIV" "r \<in> set rs" "in_memory f"
  shows "engine_ok rs s \<Longrightarrow> budget rs s \<Longrightarrow> in_life byte r f g x s \<Longrightarrow> in_order (unat (f_lifetime f)) x cs \<Longrightarrow>
    \<exists>s'. calls e r cs s = Some s' \<and> in_life byte r f g (fold (\<lambda>c x. life_step (unat (f_lifetime f)) x c) cs x) s'"
proof (induction cs arbitrary: s x)
  case (Cons c cs)
  obtain t where t: "call_back e r c s = Some t" "engine_run rs s t"
    using trigger_insn_cb_run [OF assms(1,2) Cons.prems(1,2) assms(4)]
      tb_exec_cb_run [OF assms(1,2) Cons.prems(1,2) assms(4)] by (cases c) (auto simp: call_back_def)
  have "in_life byte r f g (life_step (unat (f_lifetime f)) x c) t"
  proof (cases c)
    case Hit
    then show ?thesis using hit_step [OF assms(3,5) Cons.prems(3)] t(1) by (simp add: call_back_def)
  next
    case Block
    then have "x \<noteq> Waiting n" for n using Cons.prems(4) by auto
    then show ?thesis using block_step [OF assms(3,5) Cons.prems(3)] t(1) Block by (simp add: call_back_def)
  qed
  from Cons.IH [OF _ _ this] t Cons.prems(4) show ?case by (simp add: engine_run_def)
qed simp

text \<open>
  C29. The life of a fault in the memory of the guest.  From the state of a run in which its trigger is
  still to be hit \<open>h\<close> times, whatever sequence of the callbacks of the fault is called: before the
  \<open>h\<close>-th hit the memory is unchanged; from then on exactly the masked bits at its address are set,
  cleared or toggled as its model says; with a lifetime of \<open>n \<noteq> 0\<close> blocks the memory is as before
  again from the \<open>n\<close>-th executed block on, and further hits do nothing.
\<close>

theorem fault_lives_as_configured:
  assumes "plenty e" "mem_sane e" "ram e byte UNIV"
    and "engine_ok rs s" "budget rs s" "r \<in> set rs" "get_fault r s = Some f" "in_memory f"
    and "hitcounter (f_trigger f) \<noteq> 0"
    and "in_order (unat (f_lifetime f)) (Waiting (unat (hitcounter (f_trigger f)))) cs"
  shows "\<exists>s'. calls e r cs s = Some s' \<and>
    memory_in byte f (guest s)
      (fold (\<lambda>c x. life_step (unat (f_lifetime f)) x c) cs (Waiting (unat (hitcounter (f_trigger f))))) (guest s')"
proof -
  have "with_counters f (hitcounter (f_trigger f)) (f_lifetime f) = f" by (simp add: with_counters_def)
  then have "in_life byte r f (guest s) (Waiting (unat (hitcounter (f_trigger f)))) s"
    using assms(7,9) by (auto simp: in_life_def)
  from calls_in_life [OF assms(1-3,6,8,4,5) this assms(10)] show ?thesis by (auto simp: in_life_def)
qed

text \<open>A fault that toggles one byte at the second hit of its trigger, for two blocks.\<close>

definition short_faults :: "fault_msg list" where
  "short_faults =
     [\<lparr>fm_address = 0x10, fm_type = DATA, fm_model = TOGGLE, fm_lifespan = 2, fm_trigger_address = 8,
       fm_trigger_hitcounter = 2, fm_mask_upper = 0, fm_mask_lower = 0xFF, fm_num_bytes = 0\<rparr>]"

theorem fault_lives_as_configured_witness:
  "\<exists>s rs es r s1 s2. plugin_ok rs es (s :: (demo, unit) plugin_state_scheme) \<and> r \<in> set rs \<and>
    calls demo_env r [Hit, Hit, Block] s = Some s1 \<and>
    demo_mem (guest s1) 0x10 = demo_mem (guest s) 0x10 XOR 0xFF \<and>
    calls demo_env r [Hit, Hit, Block, Block] s = Some s2 \<and> demo_mem (guest s2) = demo_mem (guest s)"
proof -
  let ?f = "configured (hd short_faults) 0"
  have "workable demo_message short_faults" by (simp add: workable_def demo_message_def short_faults_def trigger_done_def)
  moreover have "architecture_of ''arm'' \<noteq> -1" by (simp add: architecture_of_def ARM_def)
  ultimately obtain s :: "(demo, unit) plugin_state_scheme" and rs es where s: "plugin_ok rs es s" "set_up demo_message short_faults rs es s"
    using install_sets_up [OF demo_plenty demo_sane(3) demo_signals demo_opens demo_delivers] by blast
  have one: "length short_faults = 1" "rev short_faults = short_faults" by (simp_all add: short_faults_def)
  have "length rs = 1" using s(2) one(1) by (simp add: set_up_def)
  then obtain r where r: "rs = [r]" by (cases rs) auto
  have f: "get_fault r s = Some ?f" using s(2) one unfolding r by (simp add: set_up_def short_faults_def)
  have par: "f_address ?f = 0x10" "f_lifetime ?f = 2" "hitcounter (f_trigger ?f) = 2" "f_model ?f = TOGGLE"
    "f_type ?f = DATA" "f_mask ?f = split_mask 0xFF 0"
    by (simp_all add: configured_def short_faults_def)
  have mem: "in_memory ?f" using par by (simp add: in_memory_def bit_model_def split_mask_def)
  have engine: "engine_ok rs s" "budget rs s" using s(1) by (simp_all add: plugin_ok_def)
  have "r \<in> set rs" using r by simp
  note life = fault_lives_as_configured [OF demo_plenty demo_sane(1) demo_ram engine this f mem, unfolded par]
  obtain s1 where s1: "calls demo_env r [Hit, Hit, Block] s = Some s1" "injected demo_mem ?f (guest s) (guest s1)"
    using life [of "[Hit, Hit, Block]"] by auto
  obtain s2 where s2: "calls demo_env r [Hit, Hit, Block, Block] s = Some s2" "demo_mem (guest s2) = demo_mem (guest s)"
    using life [of "[Hit, Hit, Block, Block]"] by auto
  have "demo_mem (guest s1) (0x10 + of_nat 0) = faulty TOGGLE (demo_mem (guest s) (0x10 + of_nat 0)) (split_mask 0xFF 0 ! 0)"
    using s1(2) unfolding injected_def memory_change_def par by (elim conjE allE [of _ 0]) simp
  moreover have "split_mask 0xFF 0 ! 0 = 0xFF" by (simp add: split_mask_def nth_append del: upt_rec_numeral)
  ultimately have "demo_mem (guest s1) 0x10 = demo_mem (guest s) 0x10 XOR 0xFF" by (simp add: faulty_def TOGGLE_def SET0_def SET1_def)
  with s(1) \<open>r \<in> set rs\<close> s1(1) s2 show ?thesis by blast
qed

end
