(* ===== verification/FirstBlock.thy ===== *)
theory FirstBlock
  imports FaultLife
begin

text \<open>
  Faults injected in the first block: what \<^verbatim>\<open>handle_first_tb_fault_insertion\<close> of
  \<^verbatim>\<open>faultplugin/faultplugin.c\<close> does to the trigger vector.
\<close>

section \<open>Steps that leave the vectors and the faults alone\<close>

definition vectors ::
  "('g, 'z) trigger_state_scheme \<Rightarrow> u64 list option \<times> ref option list option \<times> int \<times> int" where
  "vectors s = (fault_trigger_addresses s, live_faults s, live_faults_number s, fault_number s)"

definition quiet :: "('g, 'z) trigger_state_scheme \<Rightarrow> ('g, 'z) trigger_state_scheme \<Rightarrow> bool" where
  "quiet s s' \<longleftrightarrow> vectors s' = vectors s \<and> fault_heap s' = fault_heap s"

lemma vectors_quiet_refl [simp]: "quiet s s"
  by (simp add: quiet_def)

lemma vectors_quiet_trans: "quiet s t \<Longrightarrow> quiet t u \<Longrightarrow> quiet s u"
  by (simp add: quiet_def)

lemma quiet_fault: "quiet s s' \<Longrightarrow> get_fault r s' = get_fault r s"
  by (simp add: quiet_def get_fault_def)

lemma read_memoryregion_quiet: "read_memoryregion e i s = Some (c, s') \<Longrightarrow> quiet s s'"
  by (auto simp: read_memoryregion_def grow_region_def malloc_def quiet_def vectors_def Let_def
      split: if_splits bind_splits option.splits prod.splits)

lemma read_specific_quiet: "read_specific_from e base is s = Some s' \<Longrightarrow> quiet s s'"
proof (induction "is" arbitrary: s)
  case (Cons i "is")
  then show ?case
    using read_memoryregion_quiet vectors_quiet_trans by (fastforce split: bind_splits if_splits option.splits)
qed simp

lemma insert_memorydump_config_quiet: "insert_memorydump_config e base len s = Some (c, s') \<Longrightarrow> quiet s s'"
  by (auto simp: insert_memorydump_config_def grow_memdump_def malloc_def quiet_def vectors_def Let_def
      split: if_splits bind_splits option.splits)

lemma guest_quiet:
  "quiet s (add_singlestep_req e s)" "quiet s (rem_singlestep_req e s)" "quiet s (flush_guest e s)"
  by (simp_all add: quiet_def vectors_def add_singlestep_req_def rem_singlestep_req_def check_singlestep_def
      flush_guest_def Let_def)

lemma tb_faulted_register_quiet:
  assumes "tb_faulted_register e a s = Some s'"
  shows "quiet s s'"
proof -
  have "quiet s (add_singlestep_req e s)" by (rule guest_quiet)
  then show ?thesis
    using assms by (auto simp: tb_faulted_register_def malloc_def quiet_def vectors_def split: if_splits bind_splits option.splits)
qed

lemma add_new_registerdump_quiet: "add_new_registerdump e k s = Some (c, s') \<Longrightarrow> quiet s s'"
  by (auto simp: add_new_registerdump_def malloc_def quiet_def vectors_def split: if_splits bind_splits option.splits)

lemma put_fault_vectors: "put_fault r f s = Some s' \<Longrightarrow> vectors s' = vectors s"
  by (auto simp: put_fault_def vectors_def split: bind_splits)

lemma process_memory_quiet:
  assumes "(if m = SET0 then process_set0_memory e a k s
     else if m = SET1 then process_set1_memory e a k s
     else if m = TOGGLE then process_toggle_memory e a k s
     else if m = OVERWRITE then process_overwrite_memory e a n k s
     else Some (rm, s)) = Some (rm', s')"
  shows "quiet s s'"
  using assms
  by (auto simp: process_set0_memory_def process_set1_memory_def process_toggle_memory_def
      process_overwrite_memory_def quiet_def vectors_def Let_def split: if_splits bind_splits prod.splits)

lemma inject_memory_fault_frame:
  assumes "inject_memory_fault e r s = Some s'" "get_fault r s = Some f"
  shows "vectors s' = vectors s \<and> (\<exists>rm. get_fault r s' = Some (f\<lparr>f_restoremask := rm\<rparr>))"
proof -
  obtain rm t where t: "(if f_model f = SET0 then process_set0_memory e (f_address f) (f_mask f) s
     else if f_model f = SET1 then process_set1_memory e (f_address f) (f_mask f) s
     else if f_model f = TOGGLE then process_toggle_memory e (f_address f) (f_mask f) s
     else if f_model f = OVERWRITE then process_overwrite_memory e (f_address f) (f_num_bytes f) (f_mask f) s
     else Some (f_restoremask f, s)) = Some (rm, t)" "put_fault r (f\<lparr>f_restoremask := rm\<rparr>) t = Some s'"
    using assms unfolding inject_memory_fault_def by (auto simp: Option.bind_eq_Some_conv)
  show ?thesis
    using process_memory_quiet [OF t(1)] put_fault_vectors [OF t(2)] put_fault_get [OF t(2), of r]
    by (auto simp: quiet_def)
qed

lemma inject_instruction_frame:
  assumes "inject_by_type e r f s = Some s'" "get_fault r s = Some f" "f_type f = INSTRUCTION"
  shows "vectors s' = vectors s \<and> (\<exists>rm. get_fault r s' = Some (f\<lparr>f_restoremask := rm\<rparr>))"
proof -
  let ?a = "f_address f"
  obtain c s1 s2 s3 u where s: "insert_memorydump_config e ?a 16 s = Some (c, s1)"
    "read_specific_memoryregion e ?a s1 = Some s2" "tb_faulted_register e ?a s2 = Some s3"
    "inject_memory_fault e r s3 = Some u" "read_specific_memoryregion e ?a (flush_guest e u) = Some s'"
    using assms(1,3) by (auto simp: inject_by_type_def Option.bind_eq_Some_conv)
  have "quiet s s1" by (rule insert_memorydump_config_quiet [OF s(1)])
  moreover have "quiet s1 s2" using s(2) unfolding read_specific_memoryregion_def by (rule read_specific_quiet)
  moreover have "quiet s2 s3" by (rule tb_faulted_register_quiet [OF s(3)])
  ultimately have s3: "quiet s s3" by (blast intro: vectors_quiet_trans)
  have "quiet (flush_guest e u) s'" using s(5) unfolding read_specific_memoryregion_def by (rule read_specific_quiet)
  with guest_quiet(3) have s': "quiet u s'" by (rule vectors_quiet_trans)
  have "get_fault r s3 = Some f" using quiet_fault [OF s3, of r] assms(2) by simp
  from inject_memory_fault_frame [OF s(4) this] s3 s' quiet_fault [OF s', of r] show ?thesis
    by (auto simp: quiet_def)
qed

section \<open>The trigger that is removed\<close>

lemma inject_fault_frame:
  assumes "inject_fault e (Some r) s = Some s'" "get_fault r s = Some f"
    and "f_type f = INSTRUCTION" "f_lifetime f \<noteq> 0"
    and "fault_trigger_addresses s = Some v" "unat (trignum (f_trigger f)) < length v" "length v < 2 ^ 31"
    and "live_faults_number s = int j" "live_faults_number s \<noteq> fault_number s"
  shows "fault_trigger_addresses s' = Some (v[unat (trignum (f_trigger f)) := 0]) \<and>
    (\<exists>k. get_fault r s' = Some k \<and> trignum (f_trigger k) = of_nat j)"
proof -
  let ?i = "unat (trignum (f_trigger f))"
  obtain t where t: "inject_by_type e r f s = Some t"
    using assms(1,2) by (auto simp: inject_fault_def Option.bind_eq_Some_conv)
  obtain rm where vt: "vectors t = vectors s" and ft: "get_fault r t = Some (f\<lparr>f_restoremask := rm\<rparr>)"
    using inject_instruction_frame [OF t assms(2,3)] by blast
  obtain u v' n w x c where u: "invalidate_fault_trigger_address (u64_to_int (trignum (f_trigger f))) t = Some u"
    "v' = rem_singlestep_req e u" "register_live_faults_callback e r v' = Some (n, w)"
    "set_fault_trigger_num r (of_int n) w = Some x"
    "\<exists>y. get_fault r x = Some y \<and> add_new_registerdump e (trignum (f_trigger y)) x = Some (c, s')"
    using assms(1,4) unfolding inject_fault_def option.case assms(2) bind.bind_lunit t ft Let_def
    by (auto simp: Option.bind_eq_Some_conv)
  have "u64_to_int (trignum (f_trigger f)) = int ?i"
    using u64_to_int_small [of ?i] assms(6,7) by simp
  moreover have "arr_set_int v (int ?i) 0 = Some (v[?i := 0])" using assms(6) by (simp only: arr_int_in)
  moreover have "fault_trigger_addresses t = Some v" using vt assms(5) by (simp add: vectors_def)
  ultimately have uu: "u = t\<lparr>fault_trigger_addresses := Some (v[?i := 0])\<rparr>"
    using u(1) unfolding invalidate_fault_trigger_address_def by (simp only: bind.bind_lunit option.inject)
  have qv: "quiet u v'" unfolding u(2) by (rule guest_quiet)
  then have v': "fault_trigger_addresses v' = Some (v[?i := 0])" "live_faults_number v' = int j"
    "live_faults_number v' \<noteq> fault_number v'" "fault_heap v' = fault_heap t"
    using vt assms(8,9) by (simp_all add: quiet_def vectors_def uu)
  have "quiet v' (add_singlestep_req e v')" by (rule guest_quiet)
  then have w: "fault_trigger_addresses w = Some (v[?i := 0])" "n = int j" "fault_heap w = fault_heap t"
    using u(3) v' unfolding register_live_faults_callback_def
    by (auto simp: quiet_def vectors_def Let_def Option.bind_eq_Some_conv)
  have "get_fault r w = Some (f\<lparr>f_restoremask := rm\<rparr>)" using ft w(3) by (simp add: get_fault_def)
  then have "put_fault r (f\<lparr>f_restoremask := rm, f_trigger := (f_trigger f)\<lparr>trignum := of_nat j\<rparr>\<rparr>) w = Some x"
    using u(4) w(2) by (simp add: set_fault_trigger_num_def)
  note x = put_fault_vectors [OF this] put_fault_get [OF this, of r]
  have s': "quiet x s'" using u(5) add_new_registerdump_quiet by blast
  show ?thesis
    using x s' quiet_fault [OF s', of r] w(1) by (auto simp: quiet_def vectors_def)
qed

lemma first_fault_clears:
  assumes "plenty e" "mem_sane e" "engine_ok rs s" "r \<in> set rs" "get_fault r s = Some f"
    and "hitcounter (f_trigger f) = 0" "f_type f = INSTRUCTION" "f_lifetime f \<noteq> 0"
    and "fault_trigger_addresses s = Some v" "live_faults_number s = int j" "j < length rs"
  shows "\<exists>s'. insert_first_fault e r s = Some s' \<and>
    fault_trigger_addresses s' = Some (v[unat (trignum (f_trigger f)) := 0, j := 0])"
proof -
  obtain s' where s': "insert_first_fault e r s = Some s'"
    using insert_first_fault_take [OF assms(1-4)] assms(10,11) by auto
  let ?t = "add_singlestep_req e s"
  have q: "quiet s ?t" by (rule guest_quiet)
  obtain u k w where u: "inject_fault e (Some r) ?t = Some u" "get_fault r u = Some k"
    "\<exists>v'. fault_trigger_addresses u = Some v' \<and> arr_set v' (unat (trignum (f_trigger k))) 0 = Some w"
    "\<exists>y. get_fault r u = Some y \<and>
      s' = (let s = u\<lparr>fault_trigger_addresses := Some w\<rparr> in if hitcounter (f_trigger y) = 1 then add_singlestep_req e s else s)"
    using s' assms(5-7) unfolding insert_first_fault_def
    by (auto simp: Option.bind_eq_Some_conv Let_def get_fault_def)
  obtain v' l where v': "fault_trigger_addresses s = Some v'" "length v' = length rs" "fault_number s = int (length rs)"
    "length rs < 2 ^ 31"
    using assms(3) by (rule engine_vectors) blast
  have len: "length v = length rs" using v'(1,2) assms(9) by simp
  obtain f' where "get_fault r s = Some f'" "fault_ok (length rs) f'" using assms(3,4) by (rule engine_get) blast
  then have trig: "unat (trignum (f_trigger f)) < length v" using assms(5) len by (simp add: fault_ok_def)
  have frame: "fault_trigger_addresses u = Some (v[unat (trignum (f_trigger f)) := 0]) \<and>
      (\<exists>k. get_fault r u = Some k \<and> trignum (f_trigger k) = of_nat j)"
    by (rule inject_fault_frame [OF u(1) _ assms(7,8) _ trig])
      (use q assms(5,9-11) len v'(3,4) quiet_fault [OF q, of r] in \<open>auto simp: quiet_def vectors_def\<close>)
  have "unat (of_nat j :: u64) = j" using assms(11) v'(4) by (simp add: unat_of_nat)
  then have "w = v[unat (trignum (f_trigger f)) := 0, j := 0]"
    using frame u(2,3) assms(11) len by auto
  moreover have "fault_trigger_addresses s' = Some w"
    using u(4) guest_quiet(1) [of "u\<lparr>fault_trigger_addresses := Some w\<rparr>" e] by (auto simp: quiet_def vectors_def Let_def)
  ultimately show ?thesis using s' by blast
qed

text \<open>
  C30. An instruction fault with a hit counter of 0 is injected in the first block.  If its lifetime is
  limited, two places of the trigger vector are cleared then: its own, and the one with the number of
  its place in the vector of live faults, because \<^verbatim>\<open>inject_fault\<close> has replaced the number of the
  trigger by it.  The fault this place belongs to loses its trigger without being injected.
\<close>

theorem first_injection_disarms_another:
  assumes "plenty e" "mem_sane e" "engine_ok rs s" "r \<in> set rs" "get_fault r s = Some f"
    and "hitcounter (f_trigger f) = 0" "f_type f = INSTRUCTION" "f_lifetime f \<noteq> 0"
    and "fault_trigger_addresses s = Some v" "live_faults_number s = int j" "j < length rs"
  shows "\<exists>s'. insert_first_fault e r s = Some s' \<and>
    fault_trigger_addresses s' = Some (v[unat (trignum (f_trigger f)) := 0, j := 0])"
  using assms by (rule first_fault_clears)

text \<open>Two faults: the second one of the list is injected in the first block, and the first one loses its trigger.\<close>

definition two_faults :: "fault_msg list" where
  "two_faults =
     [\<lparr>fm_address = 0x40, fm_type = INSTRUCTION, fm_model = SET1, fm_lifespan = 3, fm_trigger_address = 0x30,
       fm_trigger_hitcounter = 0, fm_mask_upper = 0, fm_mask_lower = 1, fm_num_bytes = 0\<rparr>,
      \<lparr>fm_address = 0x10, fm_type = DATA, fm_model = TOGGLE, fm_lifespan = 0, fm_trigger_address = 8,
       fm_trigger_hitcounter = 2, fm_mask_upper = 0, fm_mask_lower = 0xFF, fm_num_bytes = 0\<rparr>]"

theorem first_injection_disarms_another_witness:
  "\<exists>s es q r s'. plugin_ok [q, r] es (s :: (demo, unit) plugin_state_scheme) \<and>
    (\<exists>f. get_fault q s = Some f \<and> hitcounter (f_trigger f) = 2) \<and>
    fault_trigger_addresses s = Some [8, 0x30] \<and>
    insert_first_fault demo_env r s = Some s' \<and> fault_trigger_addresses s' = Some [0, 0]"
proof -
  have "workable demo_message two_faults" by (simp add: workable_def demo_message_def two_faults_def trigger_done_def)
  moreover have "architecture_of ''arm'' \<noteq> -1" by (simp add: architecture_of_def ARM_def)
  ultimately obtain s :: "(demo, unit) plugin_state_scheme" and rs es where s: "plugin_ok rs es s" "set_up demo_message two_faults rs es s"
    using install_sets_up [OF demo_plenty demo_sane(3) demo_signals demo_opens demo_delivers] by blast
  have two: "length two_faults = 2" by (simp add: two_faults_def)
  have "length rs = 2" using s(2) two by (simp add: set_up_def)
  then obtain q r where rs: "rs = [q, r]" by (cases rs; cases "tl rs") auto
  let ?f = "configured (two_faults ! 0) 1"
  have q: "get_fault q s = Some (configured (two_faults ! 1) 0)" and r: "get_fault r s = Some ?f"
  proof -
    have all: "\<forall>i < 2. get_fault (rs ! i) s = Some (configured (rev two_faults ! i) (of_nat i))"
      using s(2) two by (simp add: set_up_def)
    show "get_fault q s = Some (configured (two_faults ! 1) 0)" "get_fault r s = Some ?f"
      using all [rule_format, of 0] all [rule_format, of 1] by (simp_all add: rs two_faults_def)
  qed
  have f: "hitcounter (f_trigger ?f) = 0" "f_type ?f = INSTRUCTION" "f_lifetime ?f \<noteq> 0"
    "trignum (f_trigger ?f) = 1" by (simp_all add: configured_def two_faults_def)
  have v: "fault_trigger_addresses s = Some [8, 0x30]" using s(2) by (simp add: set_up_def two_faults_def)
  have "live_faults_number s = int 0" using s(2) by (simp add: set_up_def)
  moreover have "engine_ok [q, r] s" using s(1) rs by (simp add: plugin_ok_def)
  ultimately obtain s' where "insert_first_fault demo_env r s = Some s'"
    "fault_trigger_addresses s' = Some ([8, 0x30][unat (trignum (f_trigger ?f)) := 0, 0 := 0])"
    using first_injection_disarms_another [OF demo_plenty demo_sane(1) _ _ r f(1-3) v] by fastforce
  moreover have "hitcounter (f_trigger (configured (two_faults ! 1) 0)) = 2" by (simp add: configured_def two_faults_def)
  ultimately show ?thesis using s(1) q v unfolding rs f(4) by fastforce
qed

end
