(* ===== verification/RunCorrect.thy ===== *)
theory RunCorrect
  imports InstallCorrect
begin

text \<open>
  The plugin from its installation to the end of the process: runs are safe, they end, and the
  message that is sent at the end reports the events of the run.
\<close>

section \<open>The record of a run\<close>

lemma plugin_run_records:
  assumes "plenty e" "mem_sane e" "io_sane io" "plugin_ok rs es s" "plugin_run e io s evs t"
    and "trignum (start_point s) \<noteq> 3" "recorded s x"
  shows "trignum (start_point t) \<noteq> 3 \<and> same_settings s t \<and>
    recorded t (fold (record_event (tb_info_enabled s = 1)) evs x)"
  using assms(5)
proof induction
  case start
  show ?case using assms(6,7) by (simp add: same_settings_def)
next
  case (more evs t ev u)
  have ok: "plugin_ok rs es t" by (rule plugin_run_ok [OF assms(1-4) more.hyps(1)])
  have "records_on (record_event (tb_info_enabled t = 1) ev) t u"
    using handle_event_good [OF assms(1-3) ok more.hyps(2)] more.hyps(3) by (auto simp: good_event_def)
  then show ?case using more.IH by (auto simp: records_on_def same_settings_def simp del: split_paired_All)
qed

text \<open>Every block that was translated keeps its callbacks.\<close>

lemma plugin_run_registers:
  assumes "plenty e" "mem_sane e" "io_sane io" "plugin_ok rs es s" "plugin_run e io s evs t"
    and "trignum (start_point s) \<noteq> 3" "recorded s x"
  shows "Translation tb \<in> set evs \<Longrightarrow> block_registered tb s t"
  using assms(5)
proof induction
  case start
  then show ?case by simp
next
  case (more evs t ev u)
  have ok: "plugin_ok rs es t" by (rule plugin_run_ok [OF assms(1-4) more.hyps(1)])
  have t: "trignum (start_point t) \<noteq> 3" "same_settings s t"
    using plugin_run_records [OF assms(1-4) more.hyps(1) assms(6,7)] by simp_all
  have "records_on (record_event (tb_info_enabled t = 1) ev) t u"
    using handle_event_good [OF assms(1-3) ok more.hyps(2)] more.hyps(3) by (auto simp: good_event_def)
  then have cbs: "set (cbs t) \<subseteq> set (cbs u)" by (simp add: records_on_def same_settings_def)
  show ?case
  proof (cases "Translation tb \<in> set evs")
    case True
    from block_registered_mono [OF more.IH [OF True] cbs] show ?thesis .
  next
    case False
    then have ev: "ev = Translation tb" using more.prems by simp
    then have "tb_insns tb \<noteq> []" using more.hyps(2) by simp
    from translation_safe [OF assms(1,2) ok this t(1)]
    have "block_registered tb t u" using ev more.hyps(3) by auto
    then show ?thesis using t(2) by (simp add: block_registered_def same_settings_def)
  qed
qed

text \<open>At most so many counted blocks as there is time left.\<close>

lemma plugin_run_bounded:
  assumes "plenty e" "mem_sane e" "io_sane io" "plugin_ok rs es s" "plugin_run e io s evs t"
    and "trignum (start_point s) \<noteq> 3" "0 \<le> tb_counter s" "tb_counter_max s \<le> 2 ^ 30"
    and "tb_counter s \<le> tb_counter_max s"
  shows "(\<forall>ev \<in> set evs. short_block ev) \<Longrightarrow>
    int (length (filter counts_block evs)) \<le> tb_counter_max s - tb_counter s"
  using assms(5)
proof induction
  case start
  show ?case using assms(9) by simp
next
  case (more evs t ev u)
  have t: "trignum (start_point t) \<noteq> 3" "tb_counter_max t = tb_counter_max s"
    "tb_counter s + int (length (filter counts_block evs)) \<le> tb_counter t"
    using plugin_run_counts [OF assms(1-4) more.hyps(1) assms(6-8)] more.prems by simp_all
  show ?case
  proof (cases "counts_block ev")
    case True
    then obtain a n info vaddr where ev: "ev = Callback (Tb_exec_end_max_event a n) info vaddr"
      by (rule counts_blockE)
    have n: "0 < n" "n < 2 ^ 30" using more.prems ev by (simp_all add: short_block_def)
    have "tb_exec_end_max_event e io n t = Some (Inr u)" using more.hyps(3) ev by simp
    from count_block [OF this t(1) n] t assms(7,8) True show ?thesis by simp
  next
    case False
    then show ?thesis using more.IH more.prems by simp
  qed
qed

section \<open>The report\<close>

text \<open>The collected data of a state is what was recorded.\<close>

lemma collected_recorded:
  assumes "collected rs es ts as ms s" "recorded s (tab, bs, accesses)"
  shows "\<exists>qs. collected rs es ts bs qs s \<and> mem_view s qs = accesses \<and> tb_table s = tab"
  using assms by (auto simp: collected_def recorded_def)

lemma plugin_ok_report:
  assumes "plenty e" "io_sane io" "plugin_ok rs es s" "recorded s (tab, as, accesses)"
    and "ram e byte A" "\<And>ts ms. collected rs es ts as ms s \<Longrightarrow> regions_in A (logs s @ page_regions io ms s)"
    and "pipes s = Some p" "writes_to io (fifo_data p) sent"
  shows "\<exists>s' M ts ms fs ds. plugin_end_information_dump e io reason s = Some (Inr s') \<and>
    sent (guest s') = sent (guest s) @ io_pack_data io M \<and> run_report e io byte es as ms fs ds reason s M \<and>
    collected rs es ts as ms s \<and> mem_view s ms = accesses \<and> tb_table s = tab \<and>
    faulted_refs s fs \<and> register_log s ds \<and> old_abort_action s' = old_abort_action s"
proof -
  have ok: "engine_ok rs s" using assms(3) by (simp add: plugin_ok_def)
  then have rec: "records_ok s" by (simp add: engine_ok_def)
  then obtain ds fs where d: "register_log s ds" "faulted_refs s fs"
    by (auto simp: records_ok_def faulted_ok_def)
  obtain ts bs qs where "collected rs es ts bs qs s" using assms(3) by (auto simp: plugin_ok_def)
  then obtain ms where c: "collected rs es ts as ms s" "mem_view s ms = accesses" "tb_table s = tab"
    using collected_recorded [OF _ assms(4)] by blast
  show ?thesis
    using dump_complete [OF assms(1,2) c(1) ok d(2,1) assms(5) assms(6) [OF c(1)] assms(7,8)] c d by blast
qed

lemma reported_from:
  assumes "plenty e" "mem_sane e" "io_sane io" "plugin_ok rs es s" "trignum (start_point s) \<noteq> 3"
    and "recorded s (Map.empty, [], [])" "pipes s = Some p" "ram e byte UNIV" "writes_to io (fifo_data p) sent"
    and "plugin_run e io s evs t"
    and "fold (record_event (tb_info_enabled s = 1)) evs (Map.empty, [], []) = (tab, as, accesses)"
  shows "\<exists>t' M. plugin_end_information_dump e io reason t = Some (Inr t') \<and>
    sent (guest t') = sent (guest t) @ io_pack_data io M \<and>
    dm_architecture M = architecture s \<and> dm_end_reason M = reason \<and>
    distinct (map ti_base_address (dm_tb_informations M)) \<and>
    map_of (map (\<lambda>i. (ti_base_address i, i)) (dm_tb_informations M)) = tab \<and>
    dm_tb_exec_orders M = (if tb_exec_order_enabled s = 1 then kept (tb_exec_order_ring_buffer s) as else []) \<and>
    dm_mem_infos M = accesses \<and> old_abort_action t' = old_abort_action s"
proof -
  have t: "same_settings s t" "recorded t (tab, as, accesses)"
    using plugin_run_records [OF assms(1-4,10,5,6)] assms(11) by simp_all
  have p: "pipes t = Some p" using t(1) assms(7) by (simp add: same_settings_def)
  have "regions_in UNIV ls" for ls by (auto simp: regions_in_def)
  then obtain t' M ts ms fs ds where M: "plugin_end_information_dump e io reason t = Some (Inr t')"
    "sent (guest t') = sent (guest t) @ io_pack_data io M" "run_report e io byte es as ms fs ds reason t M"
    "mem_view t ms = accesses" "tb_table t = tab" "old_abort_action t' = old_abort_action t"
    using plugin_ok_report [OF assms(1,3) plugin_run_ok [OF assms(1-4,10)] t(2) assms(8) _ p assms(9)] by blast
  have "dm_architecture M = architecture s" "dm_end_reason M = reason"
    "distinct (map ti_base_address (dm_tb_informations M))"
    "map_of (map (\<lambda>i. (ti_base_address i, i)) (dm_tb_informations M)) = tab"
    "dm_tb_exec_orders M = (if tb_exec_order_enabled s = 1 then kept (tb_exec_order_ring_buffer s) as else [])"
    "dm_mem_infos M = accesses" "old_abort_action t' = old_abort_action s"
    using M(3-6) t(1) by (simp_all add: run_report_def same_settings_def)
  with M(1,2) show ?thesis by blast
qed

section \<open>From the installation on\<close>

text \<open>
  The installation succeeds: there is memory, the pipes \<open>a\<close>, \<open>b\<close> and \<open>c\<close> open and deliver the
  control message \<open>m\<close> and the faults \<open>fs\<close>, and the architecture is known.
\<close>

definition installs ::
  "'g env \<Rightarrow> 'g io \<Rightarrow> string \<Rightarrow> string list \<Rightarrow> 'g \<Rightarrow> fifos \<Rightarrow> control_msg \<Rightarrow> fault_msg list \<Rightarrow> bool" where
  "installs e io target argv g p m fs \<longleftrightarrow>
     plenty e \<and> mem_sane e \<and> contiguous io \<and> io_sane io \<and> (\<forall>g. 0 \<le> fst (io_sigaction io g)) \<and>
     (\<exists>a b c g'. argv = arguments a b c \<and> open_pipes io a b c g = (p, g') \<and> delivers io p g' m fs) \<and>
     all_open p \<and> workable m fs \<and> architecture_of target \<noteq> -1"

lemma installed:
  assumes "installs e io target argv g p m fs"
  obtains s rs es where "qemu_plugin_install e io target argv (blank g) = Some (0, s)"
    "plugin_ok rs es s" "set_up m fs rs es s" "pipes s = Some p" "architecture s = target"
    "plenty e" "mem_sane e" "io_sane io" "previous_action io (old_abort_action s)"
proof -
  obtain a b c g' where "argv = arguments a b c" "open_pipes io a b c g = (p, g')" "delivers io p g' m fs"
    using assms by (auto simp: installs_def)
  then show thesis
    using install_sets_up [of e io a b c g p g' m fs target] assms that by (auto simp: installs_def)
qed

lemma set_up_observes: "set_up m fs rs es s \<Longrightarrow> \<not> cm_has_start m \<Longrightarrow> trignum (start_point s) \<noteq> 3"
  by (simp add: set_up_def settings_of_def set_start_point_def)

text \<open>What the end of a process looks like.\<close>

definition process_ends :: "('g, 'z) plugin_state_scheme outcome option \<Rightarrow> bool" where
  "process_ends x \<longleftrightarrow> (\<exists>c s. x = Some (Inl (c, s)) \<and> (c = 0 \<or> c = 1))"

definition goes_on :: "('g, 'z) plugin_state_scheme outcome option \<Rightarrow> bool" where
  "goes_on x \<longleftrightarrow> (\<exists>s. x = Some (Inr s))"

lemma good_event_cases: "good_event rs es b f s x \<Longrightarrow> process_ends x \<or> goes_on x"
  by (auto simp: good_event_def good_outcome_def process_ends_def goes_on_def split: option.splits sum.splits)

text \<open>The guest of the installation, and a first block.\<close>

definition demo_system :: "demo io" where
  "demo_system = demo_io demo_message demo_faults"

definition demo_argv :: "string list" where
  "demo_argv = arguments ''c'' ''f'' ''d''"

lemma demo_installs_with:
  assumes "workable m fs"
  shows "installs demo_env (demo_io m fs) ''arm'' demo_argv demo_guest demo_pipes m fs"
proof -
  have "architecture_of ''arm'' \<noteq> -1" by (simp add: architecture_of_def ARM_def)
  moreover have "\<exists>a b c g'. demo_argv = arguments a b c \<and> open_pipes (demo_io m fs) a b c demo_guest = (demo_pipes, g') \<and>
      delivers (demo_io m fs) demo_pipes g' m fs"
    using demo_opens(1) demo_delivers unfolding demo_argv_def by blast
  ultimately show ?thesis
    using demo_plenty demo_sane demo_signals demo_opens(2) assms unfolding installs_def by blast
qed

lemma demo_installs: "installs demo_env demo_system ''arm'' demo_argv demo_guest demo_pipes demo_message demo_faults"
  unfolding demo_system_def by (rule demo_installs_with [OF demo_workable])

lemma demo_translates:
  assumes "qemu_plugin_install demo_env demo_system ''arm'' demo_argv (blank demo_guest) = Some (0, s)"
  shows "\<exists>u. handle_event demo_env demo_system (Translation (example_tb 8)) s = Some (Inr u) \<and>
    plugin_run demo_env demo_system s [Translation (example_tb 8)] u"
proof -
  obtain rs es where s: "plugin_ok rs es s" "plenty demo_env" "mem_sane demo_env" "io_sane demo_system"
    by (rule installed [OF demo_installs]) (use assms in simp)
  have ev: "enabled s (Translation (example_tb 8))" by (simp add: example_tb_def)
  obtain u where u: "handle_event demo_env demo_system (Translation (example_tb 8)) s = Some (Inr u)"
    using good_event_cases [OF handle_event_good [OF s(2-4,1) ev]] by (auto simp: process_ends_def goes_on_def)
  with plugin_run.more [OF plugin_run.start ev u] show ?thesis by simp
qed






text \<open>With one instruction to go, the block is executed once and its second execution ends the process.\<close>

definition short_system :: "demo io" where
  "short_system = demo_io (demo_message\<lparr>cm_max_duration := 1\<rparr>) demo_faults"








end
