(* ===== verification/EndPoints.thy ===== *)
theory EndPoints
  imports RunCorrect
begin

text \<open>
  The end points of a run: each one is counted by its own callback, and its last hit ends the process
  after the report.
\<close>

section \<open>The counters of the end points\<close>

definition end_hits :: "ref \<Rightarrow> event list \<Rightarrow> nat" where
  "end_hits r evs = length (filter (end_hit r) evs)"

lemma end_hits_simps [simp]:
  "end_hits r [] = 0"
  "end_hits r (evs @ [ev]) = end_hits r evs + (if end_hit r ev then 1 else 0)"
  by (simp_all add: end_hits_def)

fun_cases end_hitE: "end_hit r ev"

text \<open>A hit that does not end the process takes one off the counter.\<close>

lemma end_cb_counts:
  assumes "tb_exec_end_cb e io r s = Some (Inr s')" "trignum (start_point s) \<noteq> 3" "end_point_heap s r = Some n"
  shows "hitcounter (ep_location n) \<noteq> 1 \<and> end_point_heap s' r =
    Some (n\<lparr>ep_location := (ep_location n)\<lparr>hitcounter := hitcounter (ep_location n) - 1\<rparr>\<rparr>)"
  using assms by (auto simp: tb_exec_end_cb_def Let_def exit_ends split: if_splits)

lemma run_end_points:
  assumes "plenty e" "mem_sane e" "io_sane io" "plugin_ok rs es s" "plugin_run e io s evs t"
    and "trignum (start_point s) \<noteq> 3" "end_point_heap s r = Some n"
  shows "trignum (start_point t) \<noteq> 3 \<and>
    (hitcounter (ep_location n) \<noteq> 0 \<longrightarrow> end_hits r evs < unat (hitcounter (ep_location n))) \<and>
    (\<exists>n'. end_point_heap t r = Some n' \<and>
       ep_location n' = (ep_location n)\<lparr>hitcounter := hitcounter (ep_location n) - of_nat (end_hits r evs)\<rparr>)"
  using assms(5)
proof induction
  case start
  show ?case using assms(6,7) by (auto simp: unat_gt_0)
next
  case (more evs t ev u)
  have ok: "plugin_ok rs es t" by (rule plugin_run_ok [OF assms(1-4) more.hyps(1)])
  note good = handle_event_good [OF assms(1-3) ok more.hyps(2)]
  have obs: "trignum (start_point u) \<noteq> 3"
    using good more.hyps(3) more.IH by (auto simp: good_event_def records_on_def)
  let ?h = "hitcounter (ep_location n)"
  obtain n' where n': "end_point_heap t r = Some n'"
    "ep_location n' = (ep_location n)\<lparr>hitcounter := ?h - of_nat (end_hits r evs)\<rparr>" using more.IH by blast
  show ?case
  proof (cases "end_hit r ev")
    case False
    then have "end_point_heap u r = end_point_heap t r"
      using good more.hyps(3) by (auto simp: good_event_def ends_on_def)
    then show ?thesis using obs n' more.IH False by simp
  next
    case True
    then obtain a info vaddr where "ev = Callback (Tb_exec_end_cb a r) info vaddr" by (rule end_hitE)
    then have hit: "tb_exec_end_cb e io r t = Some (Inr u)" using more.hyps(3) by simp
    from end_cb_counts [OF hit _ n'(1)] more.IH have c: "?h - of_nat (end_hits r evs) \<noteq> 1"
      "end_point_heap u r = Some (n'\<lparr>ep_location := (ep_location n')\<lparr>hitcounter := hitcounter (ep_location n') - 1\<rparr>\<rparr>)"
      using n'(2) by auto
    have "end_hits r evs + 1 < unat ?h" if "?h \<noteq> 0"
    proof -
      have less: "end_hits r evs < unat ?h" using more.IH that by simp
      have "unat ?h < 2 ^ LENGTH(64)" by (rule unsigned_less)
      with less have "end_hits r evs < 2 ^ 64" by simp
      then have "unat (of_nat (end_hits r evs) :: u64) = end_hits r evs" by (simp add: unat_of_nat)
      moreover have "of_nat (end_hits r evs) \<le> ?h" using less calculation by (simp add: word_le_nat_alt)
      ultimately have "unat (?h - of_nat (end_hits r evs)) = unat ?h - end_hits r evs" by (simp add: unat_sub)
      then have "unat ?h - end_hits r evs \<noteq> 1" using c(1) by (metis unat_1 word_unat_eq_iff)
      then show ?thesis using less by simp
    qed
    then show ?thesis using obs c(2) n'(2) True by (simp add: algebra_simps)
  qed
qed

section \<open>The last hit\<close>

lemma end_cb_reports:
  assumes "plenty e" "mem_sane e" "io_sane io" "plugin_ok rs es t" "recorded t x"
    and "ram e byte UNIV" "pipes t = Some p" "writes_to io (fifo_data p) sent"
    and "trignum (start_point t) \<noteq> 3" "end_point_heap t r = Some n" "hitcounter (ep_location n) = 1"
  shows "\<exists>t' M. tb_exec_end_cb e io r t = Some (Inl (0, t')) \<and>
    sent (guest t') = sent (guest t) @ io_pack_data io M \<and>
    dm_end_reason M = ''endpoint '' @ decimal (unat (trig_address (ep_location n))) @ ''/1'' \<and>
    dm_end_point M = (if hd es = r \<or> trignum (ep_location (the (end_point_heap t (hd es)))) = 4 then 1 else 0)"
proof -
  let ?n = "n\<lparr>ep_location := (ep_location n)\<lparr>trignum := 4\<rparr>\<rparr>"
  let ?t = "t\<lparr>end_point_heap := (end_point_heap t)(r \<mapsto> ?n)\<rparr>"
  let ?reason = "''endpoint '' @ decimal (unat (trig_address (ep_location n))) @ ''/1''"
  have ok: "plugin_ok rs es ?t" by (rule plugin_ok_end_point [OF assms(4,10)]) simp
  obtain tab as accesses where x: "x = (tab, as, accesses)" by (cases x) auto
  have rec: "recorded ?t (tab, as, accesses)"
    using recorded_same [OF assms(5), where cs = "[]" and s' = ?t] unfolding x by simp
  have "regions_in UNIV ls" for ls by (auto simp: regions_in_def)
  moreover have "pipes ?t = Some p" using assms(7) by simp
  ultimately obtain t' M ts ms bs ds where M: "plugin_end_information_dump e io ?reason ?t = Some (Inr t')"
    "sent (guest t') = sent (guest ?t) @ io_pack_data io M" "run_report e io byte es as ms bs ds ?reason ?t M"
    using plugin_ok_report [OF assms(1,3) ok rec assms(6) _ _ assms(8)] by blast
  have "decimal 1 = ''1''" by (simp add: decimal.simps)
  then have "tb_exec_end_cb e io r t = Some (Inl (0, t'))"
    using assms(9-11) M(1) by (simp add: tb_exec_end_cb_def Let_def plugin_end_information_dump_and_exit_def)
  moreover have "dm_end_reason M = ?reason" using M(3) by (simp add: run_report_def)
  moreover have "dm_end_point M = (if hd es = r \<or> trignum (ep_location (the (end_point_heap t (hd es)))) = 4 then 1 else 0)"
    using M(3) by (auto simp: run_report_def)
  ultimately show ?thesis using M(2) by auto
qed

text \<open>The nodes of the end points after the installation.\<close>

lemma set_up_end_points:
  assumes "plugin_ok rs es s" "set_up m fs rs es s" "cm_end_points m \<noteq> []"
  shows "length es = length (cm_end_points m)" "distinct es"
    and "i < length es \<Longrightarrow> \<exists>n. end_point_heap s (es ! i) = Some n \<and> ep_location n = end_trigger (cm_end_points m ! i)"
proof -
  have chain: "chain ep_next (end_point_heap s) (end_point s) es" by (rule plugin_ok_chain [OF assms(1)])
  have triggers: "end_triggers s es = map end_trigger (cm_end_points m)" using assms(2,3) by (simp add: set_up_def)
  then show len: "length es = length (cm_end_points m)" by (metis end_triggers_def length_map)
  show "distinct es" by (rule chain_distinct [OF chain])
  show "\<exists>n. end_point_heap s (es ! i) = Some n \<and> ep_location n = end_trigger (cm_end_points m ! i)" if r: "i < length es"
  proof -
    obtain n where "end_point_heap s (es ! i) = Some n" using chain_liveD [OF chain nth_mem [OF r]] by blast
    moreover have "map (\<lambda>r. ep_location (the (end_point_heap s r))) es ! i = map end_trigger (cm_end_points m) ! i"
      using triggers by (simp add: end_triggers_def)
    ultimately show ?thesis using r len by simp
  qed
qed

text \<open>Until the last hit, and at the last hit.\<close>

lemma end_point_run:
  assumes "plenty e" "mem_sane e" "io_sane io" "plugin_ok rs es s" "set_up m fs rs es s" "\<not> cm_has_start m"
    and "pipes s = Some p" "ram e byte UNIV" "writes_to io (fifo_data p) sent"
    and "plugin_run e io s evs t" "cm_end_points m \<noteq> []" "i < length es" "ep_counter (cm_end_points m ! i) \<noteq> 0"
  shows "end_hits (es ! i) evs < unat (ep_counter (cm_end_points m ! i))"
    and "end_hits (es ! i) evs + 1 = unat (ep_counter (cm_end_points m ! i)) \<Longrightarrow>
      \<exists>t' M. tb_exec_end_cb e io (es ! i) t = Some (Inl (0, t')) \<and>
        sent (guest t') = sent (guest t) @ io_pack_data io M \<and>
        dm_end_reason M = ''endpoint '' @ decimal (unat (ep_address (cm_end_points m ! i))) @ ''/1'' \<and>
        dm_end_point M = (if i = 0 then 1 else 0)"
proof -
  let ?c = "ep_counter (cm_end_points m ! i)"
  have obs: "trignum (start_point s) \<noteq> 3" by (rule set_up_observes [OF assms(5,6)])
  have empty: "recorded s (Map.empty, [], [])" using assms(5) by (simp add: set_up_def)
  note nodes = set_up_end_points [OF assms(4,5,11)]
  obtain n where n: "end_point_heap s (es ! i) = Some n" "ep_location n = end_trigger (cm_end_points m ! i)"
    using nodes(3) [OF assms(12)] by blast
  from run_end_points [OF assms(1-4,10) obs n(1)] obtain n' where n': "trignum (start_point t) \<noteq> 3"
    "end_hits (es ! i) evs < unat ?c" "end_point_heap t (es ! i) = Some n'"
    "ep_location n' = (end_trigger (cm_end_points m ! i))\<lparr>hitcounter := ?c - of_nat (end_hits (es ! i) evs)\<rparr>"
    using assms(13) n(2) by (auto simp: end_trigger_def)
  show "end_hits (es ! i) evs < unat ?c" by (rule n'(2))
  have first: "0 < length es" using assms(12) by (rule le_less_trans [OF le0])
  then have hd: "hd es = es ! 0" by (simp add: hd_conv_nth)
  obtain n0 where n0: "end_point_heap s (es ! 0) = Some n0" "ep_location n0 = end_trigger (cm_end_points m ! 0)"
    using nodes(3) [OF first] by blast
  from run_end_points [OF assms(1-4,10) obs n0(1)] obtain m0 where "end_point_heap t (es ! 0) = Some m0"
    "trignum (ep_location m0) = 3" using n0(2) by (auto simp: end_trigger_def)
  then have flag: "(hd es = es ! i \<or> trignum (ep_location (the (end_point_heap t (hd es)))) = 4) \<longleftrightarrow> i = 0"
    using nth_eq_iff_index_eq [OF nodes(2), of 0 i] first assms(12) unfolding hd by auto
  assume last: "end_hits (es ! i) evs + 1 = unat ?c"
  have "of_nat (unat ?c) = (of_nat (end_hits (es ! i) evs + 1) :: u64)" using last by simp
  then have "?c = of_nat (end_hits (es ! i) evs) + 1" by simp
  then have one: "hitcounter (ep_location n') = 1" "trig_address (ep_location n') = ep_address (cm_end_points m ! i)"
    using n'(4) by (simp_all add: end_trigger_def)
  have ok: "plugin_ok rs es t" by (rule plugin_run_ok [OF assms(1-4,10)])
  obtain x where rec: "recorded t x" and same: "same_settings s t"
    using plugin_run_records [OF assms(1-4,10) obs empty] by blast
  have "pipes t = Some p" using same assms(7) by (simp add: same_settings_def)
  from end_cb_reports [OF assms(1-3) ok rec assms(8) this assms(9) n'(1,3) one(1)]
  show "\<exists>t' M. tb_exec_end_cb e io (es ! i) t = Some (Inl (0, t')) \<and>
      sent (guest t') = sent (guest t) @ io_pack_data io M \<and>
      dm_end_reason M = ''endpoint '' @ decimal (unat (ep_address (cm_end_points m ! i))) @ ''/1'' \<and>
      dm_end_point M = (if i = 0 then 1 else 0)"
    unfolding one(2) flag .
qed


text \<open>Two end points; the second one is reached.\<close>

definition two_end_points :: control_msg where
  "two_end_points = demo_message\<lparr>cm_end_points :=
     [\<lparr>ep_address = 0x40, ep_counter = 1\<rparr>, \<lparr>ep_address = 7, ep_counter = 1\<rparr>]\<rparr>"


end
