(* ===== verification/StartPoint.thy ===== *)
theory StartPoint
  imports RunCorrect
begin

text \<open>
  Runs with a start point: before its last hit the plugin only waits, and from then on it observes
  and reports as a run without start point does from its beginning.
\<close>

section \<open>Runs in two parts\<close>

inductive_cases plugin_run_snocE: "plugin_run e io s (evs @ [ev]) t"

lemma plugin_run_appendE:
  assumes "plugin_run e io s (evs @ ev # evs') t"
  obtains u v where "plugin_run e io s evs u" "enabled u ev" "handle_event e io ev u = Some (Inr v)"
    "plugin_run e io v evs' t"
proof -
  have "\<exists>u v. plugin_run e io s evs u \<and> enabled u ev \<and> handle_event e io ev u = Some (Inr v) \<and> plugin_run e io v evs' t"
    using assms
  proof (induction evs' arbitrary: t rule: rev_induct)
    case Nil
    then show ?case by (auto elim!: plugin_run_snocE intro: plugin_run.start)
  next
    case (snoc x xs)
    then have "plugin_run e io s ((evs @ ev # xs) @ [x]) t" by simp
    then obtain w where w: "plugin_run e io s (evs @ ev # xs) w" "enabled w x" "handle_event e io x w = Some (Inr t)"
      by (rule plugin_run_snocE) simp
    from snoc.IH [OF w(1)] plugin_run.more [OF _ w(2,3)] show ?case by blast
  qed
  then show thesis using that by blast
qed

section \<open>The wait for the start\<close>

fun start_hit :: "event \<Rightarrow> bool" where
  "start_hit (Callback (Tb_exec_start_cb a) info vaddr) = True"
| "start_hit ev = False"

fun_cases start_hitE: "start_hit ev"

definition start_hits :: "event list \<Rightarrow> nat" where
  "start_hits evs = length (filter start_hit evs)"

lemma start_hits_simps [simp]:
  "start_hits [] = 0"
  "start_hits (evs @ [ev]) = start_hits evs + (if start_hit ev then 1 else 0)"
  by (simp_all add: start_hits_def)

text \<open>The callback of a translated block that contains the address \<open>a\<close>.\<close>

fun start_cbs :: "u64 \<Rightarrow> event \<Rightarrow> callback list" where
  "start_cbs a (Translation tb) =
     (let n = the (calculate_bytesize_instructions tb)
      in if tb_vaddr tb \<le> a \<and> a < tb_vaddr tb + n then [Tb_exec_start_cb (tb_vaddr tb)] else [])"
| "start_cbs a ev = []"

text \<open>A state that waits, after some events.\<close>

definition waited :: "event list \<Rightarrow> ('g, 'z) plugin_state_scheme \<Rightarrow> ('g, 'z) plugin_state_scheme" where
  "waited evs s =
     s\<lparr>cbs := cbs s @ concat (map (start_cbs (trig_address (start_point s))) evs),
       start_point := (start_point s)\<lparr>hitcounter := hitcounter (start_point s) - of_nat (start_hits evs)\<rparr>\<rparr>"

lemma waited_Nil [simp]: "waited [] s = s"
  by (simp add: waited_def)

lemma waited_fields [simp]:
  "trignum (start_point (waited evs s)) = trignum (start_point s)"
  "trig_address (start_point (waited evs s)) = trig_address (start_point s)"
  "hitcounter (start_point (waited evs s)) = hitcounter (start_point s) - of_nat (start_hits evs)"
  by (simp_all add: waited_def)

lemma waiting_waited: "waiting s \<Longrightarrow> waiting (waited evs s)"
proof -
  have "\<exists>a. c = Tb_exec_start_cb a" if "c \<in> set (start_cbs x ev)" for c x ev
    using that by (cases "(x, ev)" rule: start_cbs.cases) (auto simp: Let_def split: if_splits)
  moreover assume "waiting s"
  ultimately show ?thesis by (fastforce simp: waiting_def waited_def)
qed

lemma waited_translation:
  assumes "trignum (start_point s) = 3" "tb_insns tb \<noteq> []"
  shows "handle_event e io (Translation tb) (waited evs s) = Some (Inr (waited (evs @ [Translation tb]) s))"
proof -
  obtain n where "calculate_bytesize_instructions tb = Some n" using bytesize_Some [OF assms(2)] by blast
  then show ?thesis
    using assms(1) by (simp add: vcpu_translateblock_translation_event_def Let_def register_cb_def) (simp add: waited_def)
qed

lemma waited_hit:
  assumes "hitcounter (start_point (waited evs s)) \<noteq> 1"
  shows "tb_exec_start_cb e (waited evs s) = waited (evs @ [Callback (Tb_exec_start_cb a) info vaddr]) s"
  using assms by (simp add: tb_exec_start_cb_def Let_def) (simp add: waited_def algebra_simps)

text \<open>What the counter says before the last hit; a counter of 0 stands for \<open>2\<^sup>6\<^sup>4\<close> hits.\<close>

lemma last_start_hit:
  fixes c :: u64
  assumes "k \<le> unat (c - 1)"
  shows "c - of_nat k = 1 \<longleftrightarrow> k = unat (c - 1)"
proof -
  have "unat (c - 1) < 2 ^ LENGTH(64)" by (rule unsigned_less)
  with assms have "unat (of_nat k :: u64) = k" by (simp add: unat_of_nat)
  moreover have "c - of_nat k = 1 \<longleftrightarrow> of_nat k = c - 1" by (auto simp: algebra_simps)
  ultimately show ?thesis by auto
qed

lemma run_waits:
  assumes "waiting s" "trignum (start_point s) = 3" "plugin_run e io s evs t"
    and "start_hits evs \<le> unat (hitcounter (start_point s) - 1)"
  shows "t = waited evs s"
  using assms(3,4)
proof induction
  case start
  show ?case by simp
next
  case (more evs t ev u)
  let ?c = "hitcounter (start_point s)"
  have t: "t = waited evs s" using more by simp
  show ?case
  proof (cases ev)
    case (Translation tb)
    then have "tb_insns tb \<noteq> []" using more.hyps(2) by simp
    from waited_translation [OF assms(2) this, of e io evs] more.hyps(3) show ?thesis
      unfolding t Translation by simp
  next
    case (Callback c info vaddr)
    then have "c \<in> set (cbs t)" using more.hyps(2) by simp
    then obtain a where c: "c = Tb_exec_start_cb a"
      using waiting_waited [OF assms(1), of evs] unfolding t waiting_def by blast
    have k: "start_hits evs + 1 \<le> unat (?c - 1)" using more.prems Callback c by simp
    have "hitcounter (start_point (waited evs s)) \<noteq> 1" using last_start_hit [of "start_hits evs" ?c] k by simp
    from waited_hit [OF this, of e a info vaddr] more.hyps(3) show ?thesis unfolding t Callback c by simp
  qed
qed


section \<open>The start\<close>

text \<open>At the last hit the observation starts, with nothing recorded and a flushed translation cache.\<close>

lemma start_observes:
  assumes "plugin_ok rs es t" "hitcounter (start_point t) = 1" "recorded t x"
    and "v = tb_exec_start_cb e t"
  shows "plugin_ok rs es v" "trignum (start_point v) \<noteq> 3" "recorded v x" "same_settings t v"
    "guest v = flush_tb e (guest t)" "hitcounter (start_point v) = 0"
proof -
  show "plugin_ok rs es v" unfolding assms(4) by (rule start_cb_ok [OF assms(1)])
  show "trignum (start_point v) \<noteq> 3" "guest v = flush_tb e (guest t)" "hitcounter (start_point v) = 0" "same_settings t v"
    using assms(2,4) by (simp_all add: tb_exec_start_cb_def Let_def flush_guest_def same_settings_def)
  show "recorded v x"
    unfolding assms(4)
    by (subst tb_exec_start_cb_eq, rule recorded_same [OF assms(3), where cs = "[]"]) simp_all
qed

lemma set_up_waits:
  assumes "plugin_ok rs es s" "set_up m fs rs es s" "cm_has_start m"
  shows "waiting s" "start_point s = \<lparr>trig_address = cm_start_address m, hitcounter = cm_start_counter m, trignum = 3\<rparr>"
    "recorded s (Map.empty, [], [])" "cbs s = []"
  using assms by (simp_all add: plugin_ok_def set_up_def settings_of_def set_start_point_def waiting_def)

lemma recorded_waited:
  assumes "recorded s x" "waiting s"
  shows "recorded (waited evs s) x"
proof -
  have "linked s c" if "c \<in> set (concat (map (start_cbs a) evs))" for a c
  proof -
    have "\<exists>b. c = Tb_exec_start_cb b" if "c \<in> set (start_cbs a ev)" for ev
      using that by (cases "(a, ev)" rule: start_cbs.cases) (auto simp: Let_def split: if_splits)
    then show ?thesis using that by (auto simp: linked_def)
  qed
  then show ?thesis
    unfolding waited_def
    by (intro recorded_same [OF assms(1), where cs = "concat (map (start_cbs (trig_address (start_point s))) evs)"]) simp_all
qed

text \<open>From the last hit on, a run is reported.\<close>

lemma started_run_reported:
  assumes "plenty e" "mem_sane e" "io_sane io" "plugin_ok rs es s" "set_up m fs rs es s" "cm_has_start m"
    and "pipes s = Some p" "ram e byte UNIV" "writes_to io (fifo_data p) sent"
    and "start_hit ev" "start_hits evs = unat (cm_start_counter m - 1)" "plugin_run e io s (evs @ ev # evs') t"
    and "fold (record_event (cm_tb_info m)) evs' (Map.empty, [], []) = (tab, as, accesses)"
  shows "\<exists>u t' M. plugin_run e io u evs' t \<and> guest u = flush_tb e (guest s) \<and>
    plugin_end_information_dump e io reason t = Some (Inr t') \<and>
    sent (guest t') = sent (guest t) @ io_pack_data io M \<and>
    distinct (map ti_base_address (dm_tb_informations M)) \<and>
    map_of (map (\<lambda>i. (ti_base_address i, i)) (dm_tb_informations M)) = tab \<and>
    dm_tb_exec_orders M = (if cm_tb_exec_list m then kept (of_bool (cm_tb_exec_list_ring_buffer m)) as else []) \<and>
    dm_mem_infos M = accesses"
proof -
  note start = set_up_waits [OF assms(4-6)]
  have settings: "tb_info_enabled s = 1 \<longleftrightarrow> cm_tb_info m" "tb_exec_order_enabled s = 1 \<longleftrightarrow> cm_tb_exec_list m"
    "tb_exec_order_ring_buffer s = of_bool (cm_tb_exec_list_ring_buffer m)"
    using assms(5) by (simp_all add: set_up_def settings_of_def)
  obtain q u where u: "plugin_run e io s evs q" "handle_event e io ev q = Some (Inr u)" "plugin_run e io u evs' t"
    using plugin_run_appendE [OF assms(12)] by blast
  have q: "q = waited evs s" by (rule run_waits [OF start(1) _ u(1)]) (use start(2) assms(11) in simp_all)
  have ok: "plugin_ok rs es q" by (rule plugin_run_ok [OF assms(1-4) u(1)])
  have one: "hitcounter (start_point q) = 1" unfolding q using start(2) assms(11) by simp
  have empty: "recorded q (Map.empty, [], [])" unfolding q by (rule recorded_waited [OF start(3,1)])
  have hit: "u = tb_exec_start_cb e q" using assms(10) u(2) by (auto elim!: start_hitE)
  note obs = start_observes [OF ok one empty hit]
  have same: "pipes u = Some p" "tb_info_enabled u = tb_info_enabled s" "tb_exec_order_enabled u = tb_exec_order_enabled s"
    "tb_exec_order_ring_buffer u = tb_exec_order_ring_buffer s" "guest q = guest s"
    using obs(4) assms(7) by (simp_all add: q waited_def same_settings_def)
  have "fold (record_event (tb_info_enabled u = 1)) evs' (Map.empty, [], []) = (tab, as, accesses)"
    using assms(13) unfolding same(2) settings .
  from reported_from [OF assms(1-3) obs(1-3) same(1) assms(8,9) u(3) this, of reason]
  obtain t' M where "plugin_end_information_dump e io reason t = Some (Inr t')"
    "sent (guest t') = sent (guest t) @ io_pack_data io M"
    "distinct (map ti_base_address (dm_tb_informations M))"
    "map_of (map (\<lambda>i. (ti_base_address i, i)) (dm_tb_informations M)) = tab"
    "dm_tb_exec_orders M = (if cm_tb_exec_list m then kept (of_bool (cm_tb_exec_list_ring_buffer m)) as else [])"
    "dm_mem_infos M = accesses"
    unfolding same(2-4) settings by blast
  moreover have "guest u = flush_tb e (guest s)" unfolding obs(5) same(5) ..
  ultimately show ?thesis using u(3) by blast
qed


text \<open>A start at the block at address 8, which is translated once before the start and once after it.\<close>

definition demo_start :: control_msg where
  "demo_start = demo_message\<lparr>cm_has_start := True, cm_start_address := 8, cm_start_counter := 1\<rparr>"

abbreviation start_io :: "demo io" where
  "start_io \<equiv> demo_io demo_start demo_faults"

lemma demo_start_installs: "installs demo_env start_io ''arm'' demo_argv demo_guest demo_pipes demo_start demo_faults"
proof (rule demo_installs_with)
  show "workable demo_start demo_faults" using demo_workable by (simp add: workable_def demo_start_def)
qed

lemma demo_starts:
  assumes "qemu_plugin_install demo_env start_io ''arm'' demo_argv (blank demo_guest) = Some (0, s)"
  shows "\<exists>t. plugin_run demo_env start_io s
    ([Translation (example_tb 8)] @ Callback (Tb_exec_start_cb 8) info vaddr # [Translation (example_tb 8)]) t"
proof -
  let ?tb = "Translation (example_tb 8)" and ?cb = "Callback (Tb_exec_start_cb 8) info vaddr"
  obtain rs es where s: "plugin_ok rs es s" "set_up demo_start demo_faults rs es s"
    "plenty demo_env" "mem_sane demo_env" "io_sane start_io"
    by (rule installed [OF demo_start_installs]) (use assms in simp)
  have start: "start_point s = \<lparr>trig_address = 8, hitcounter = 1, trignum = 3\<rparr>" "cbs s = []"
    using set_up_waits [OF s(1,2)] by (simp_all add: demo_start_def)
  have insns: "tb_insns (example_tb 8) \<noteq> []" by (simp add: example_tb_def)
  let ?t = "waited [?tb] s" and ?u = "tb_exec_start_cb demo_env (waited [?tb] s)"
  have "handle_event demo_env start_io ?tb s = Some (Inr ?t)"
    using waited_translation [of s "example_tb 8" demo_env start_io "[]"] insns start(1) by simp
  moreover have "enabled s ?tb" using insns by simp
  ultimately have t: "plugin_run demo_env start_io s [?tb] ?t"
    using plugin_run.more [OF plugin_run.start, of s ?tb] by simp
  have "Tb_exec_start_cb 8 \<in> set (cbs ?t)"
    using start by (simp add: waited_def example_tb_def calculate_bytesize_instructions_def)
  then have "enabled ?t ?cb" by simp
  moreover have "handle_event demo_env start_io ?cb ?t = Some (Inr ?u)" by simp
  ultimately have u: "plugin_run demo_env start_io s ([?tb] @ [?cb]) ?u" by (rule plugin_run.more [OF t])
  have ok: "plugin_ok rs es ?u" by (rule plugin_run_ok [OF s(3-5,1) u])
  have on: "enabled ?u ?tb" using insns by simp
  have "process_ends (handle_event demo_env start_io ?tb ?u) \<or> goes_on (handle_event demo_env start_io ?tb ?u)"
    by (rule good_event_cases [OF handle_event_good [OF s(3-5) ok on]])
  then obtain v where "handle_event demo_env start_io ?tb ?u = Some (Inr v)"
    by (auto simp: process_ends_def goes_on_def)
  with on have "plugin_run demo_env start_io s (([?tb] @ [?cb]) @ [?tb]) v" by (rule plugin_run.more [OF u])
  then show ?thesis by auto
qed


end
