(* ===== verification/Abort.thy ===== *)
theory Abort
  imports RunCorrect
begin

text \<open>
  The handler of \<^verbatim>\<open>SIGABRT\<close>: the report is sent although QEMU goes down, then the action that was
  installed before gets its turn.
\<close>

lemma old_abort_call_bit:
  "old_abort_call a =
     (case sa_handler a of
        Handler h \<Rightarrow> if bit (sa_flags a) 0 then Call_sigaction h else Call_handler h
      | _ \<Rightarrow> No_call)"
  by (simp add: old_abort_call_def and_one_eq bit_0 odd_iff_mod_2_eq_one split: sig_handler.splits)


text \<open>A handler that was installed with \<^verbatim>\<open>SA_SIGINFO\<close> gets one argument only.\<close>

definition abort_io :: "demo io" where
  "abort_io = demo_system\<lparr>io_sigaction := (\<lambda>g. (0, \<lparr>sa_flags = SA_SIGINFO, sa_handler = Handler 5\<rparr>, g))\<rparr>"

lemma abort_io_installs: "installs demo_env abort_io ''arm'' demo_argv demo_guest demo_pipes demo_message demo_faults"
proof -
  have "open_pipes abort_io a b c g = open_pipes demo_system a b c g" "delivers abort_io p g m fs = delivers demo_system p g m fs"
    "contiguous abort_io = contiguous demo_system" "io_sane abort_io = io_sane demo_system"
    "0 \<le> fst (io_sigaction abort_io g)" for a b c g p m fs
    by (simp_all add: abort_io_def open_pipes_def delivers_def contiguous_def io_sane_def reads_from_def)
  then show ?thesis using demo_installs by (simp add: installs_def)
qed


end
