(* ===== verification/Refused.thy ===== *)
theory Refused
  imports InstallCorrect
begin

text \<open>
  Installations that are refused: a target the plugin does not know, a command line that does not name
  the three pipes, or a pipe that does not open.
\<close>

section \<open>The command line\<close>

text \<open>The options open the pipes they name, and nothing else changes.\<close>

definition named :: "string \<Rightarrow> string list \<Rightarrow> bool" where
  "named k argv \<longleftrightarrow> (\<exists>opt \<in> set argv. starts_with opt k)"

lemma named_simps [simp]:
  "\<not> named k []"
  "named k (opt # opts) \<longleftrightarrow> starts_with opt k \<or> named k opts"
  by (simp_all add: named_def)

lemma parse_options_opens:
  assumes "pipes s = Some p"
  shows "\<exists>c g q. parse_options io opts s = Some (c, s\<lparr>guest := g, pipes := Some q\<rparr>) \<and> (c = 0 \<or> c = -1) \<and>
    (\<not> named ''control='' opts \<longrightarrow> fifo_control q = fifo_control p) \<and>
    (\<not> named ''config='' opts \<longrightarrow> fifo_config q = fifo_config p) \<and>
    (\<not> named ''data='' opts \<longrightarrow> fifo_data q = fifo_data p)"
  using assms
proof (induction opts arbitrary: s p)
  case Nil
  then have "s = s\<lparr>guest := guest s, pipes := Some p\<rparr>" by simp
  then show ?case by (metis parse_options.simps(1))
next
  case (Cons opt opts)
  let ?go = "\<lambda>g p. parse_options io opts (s\<lparr>guest := g, pipes := Some p\<rparr>)"
  have IH: "\<exists>c g' q'. ?go g q = Some (c, s\<lparr>guest := g', pipes := Some q'\<rparr>) \<and> (c = 0 \<or> c = -1) \<and>
      (\<not> named ''control='' opts \<longrightarrow> fifo_control q' = fifo_control q) \<and>
      (\<not> named ''config='' opts \<longrightarrow> fifo_config q' = fifo_config q) \<and>
      (\<not> named ''data='' opts \<longrightarrow> fifo_data q' = fifo_data q)" for g q
    using Cons.IH [of "s\<lparr>guest := g, pipes := Some q\<rparr>" q] by simp
  consider "starts_with opt ''control=''" | "\<not> starts_with opt ''control=''" "starts_with opt ''config=''"
    | "\<not> starts_with opt ''control=''" "\<not> starts_with opt ''config=''" "starts_with opt ''data=''"
    | "\<not> starts_with opt ''control=''" "\<not> starts_with opt ''config=''" "\<not> starts_with opt ''data=''" by blast
  then show ?case
  proof cases
    case 1
    obtain fd g where "io_open io False (drop 8 opt) (io_mkfifo io (drop 8 opt) (guest s)) = (fd, g)" by fastforce
    with 1 IH [where g = g and q = "p\<lparr>fifo_control := fd\<rparr>"] Cons.prems show ?thesis by auto
  next
    case 2
    obtain fd g where "io_open io False (drop 7 opt) (io_mkfifo io (drop 7 opt) (guest s)) = (fd, g)" by fastforce
    with 2 IH [where g = g and q = "p\<lparr>fifo_config := fd\<rparr>"] Cons.prems show ?thesis by auto
  next
    case 3
    obtain fd g where "io_open io True (drop 5 opt) (io_mkfifo io (drop 5 opt) (guest s)) = (fd, g)" by fastforce
    with 3 IH [where g = g and q = "p\<lparr>fifo_data := fd\<rparr>"] Cons.prems show ?thesis by auto
  next
    case 4
    have "s = s\<lparr>guest := guest s, pipes := Some p\<rparr>" using Cons.prems by simp
    then have "parse_options io (opt # opts) s = Some (-1, s\<lparr>guest := guest s, pipes := Some p\<rparr>)"
      using 4 Cons.prems by simp
    then show ?thesis by blast
  qed
qed

definition names_all_pipes :: "string list \<Rightarrow> bool" where
  "names_all_pipes argv \<longleftrightarrow>
     length argv = 3 \<and> named ''control='' argv \<and> named ''config='' argv \<and> named ''data='' argv"

lemma parse_args_refuses:
  assumes "pipes s = Some \<lparr>fifo_control = -1, fifo_config = -1, fifo_data = -1\<rparr>"
    and "\<not> names_all_pipes argv \<or>
      (\<exists>a b c p g. argv = arguments a b c \<and> open_pipes io a b c (guest s) = (p, g) \<and> \<not> all_open p)"
  shows "\<exists>g q. parse_args io argv s = Some (-1, s\<lparr>guest := g, pipes := Some q\<rparr>)"
proof (cases "length argv = 3")
  case False
  then have "parse_args io argv s = Some (-1, s\<lparr>guest := guest s, pipes := pipes s\<rparr>)" by (simp add: parse_args_def)
  then show ?thesis unfolding assms(1) by blast
next
  case True
  from assms(2) show ?thesis
  proof
    assume names: "\<not> names_all_pipes argv"
    obtain c g q where c: "parse_options io argv s = Some (c, s\<lparr>guest := g, pipes := Some q\<rparr>)"
      "\<not> named ''control='' argv \<longrightarrow> fifo_control q = -1" "\<not> named ''config='' argv \<longrightarrow> fifo_config q = -1"
      "\<not> named ''data='' argv \<longrightarrow> fifo_data q = -1"
      using parse_options_opens [OF assms(1), of io argv] by auto
    with True names have "parse_args io argv s = Some (-1, s\<lparr>guest := g, pipes := Some q\<rparr>)"
      by (auto simp: parse_args_def names_all_pipes_def)
    then show ?thesis by blast
  next
    assume "\<exists>a b c p g. argv = arguments a b c \<and> open_pipes io a b c (guest s) = (p, g) \<and> \<not> all_open p"
    then obtain a b c p g where "argv = arguments a b c" "open_pipes io a b c (guest s) = (p, g)" "\<not> all_open p" by blast
    then have "parse_args io argv s = Some (-1, s\<lparr>guest := g, pipes := Some p\<rparr>)"
      using assms(1)
      by (auto simp: open_pipes_def arguments_def parse_args_def starts_with_def all_open_def split: prod.splits)
    then show ?thesis by blast
  qed
qed

section \<open>The abort path\<close>

text \<open>
  C40. A refused installation leaves nothing behind.  When the target is not a known architecture, when the
  command line does not consist of the three options that name the pipes, or when one of the pipes
  does not open, the installation returns -1; no callback is registered with QEMU, the handler of
  \<^verbatim>\<open>SIGABRT\<close> is not replaced, and no fault, record or trigger vector is left.
\<close>

theorem refused_installation_leaves_nothing:
  assumes "plenty e"
    and "architecture_of target = -1 \<or> \<not> names_all_pipes argv \<or>
      (\<exists>a b c p g'. argv = arguments a b c \<and> open_pipes io a b c g = (p, g') \<and> \<not> all_open p)"
  shows "\<exists>s. qemu_plugin_install e io target argv (blank g) = Some (-1, s) \<and>
    cbs s = [] \<and> \<not> tb_trans_registered s \<and> old_abort_action s = old_abort_action (blank g) \<and>
    first_fault s = None \<and> fault_trigger_addresses s = None \<and> live_faults s = None \<and>
    tb_info_list s = None \<and> tb_exec_order_list s = None \<and> tb_faulted_list s = None \<and> mem_info_list s = None"
proof (cases "architecture_of target = -1")
  case True
  then show ?thesis by (simp add: qemu_plugin_install_def Let_def blank_def)
next
  case False
  let ?none = "\<lparr>fifo_control = -1, fifo_config = -1, fifo_data = -1\<rparr>"
  let ?s = "blank g\<lparr>architecture := target, mallocs := Suc (Suc 0), pipes := Some ?none, tb_counter_max := 1000,
      end_point := Some 0, end_point_heap := [0 \<mapsto> \<lparr>ep_location =
        \<lparr>trig_address = malloc_junk e 0 0, hitcounter = malloc_junk e 0 1, trignum = 0\<rparr>, ep_next = None\<rparr>],
      mem_info_list_enabled := 1, tb_info_enabled := 1, tb_exec_order_enabled := 1\<rparr>"
  have start: "initialise_plugin e io argv (architecture_of target) (blank g\<lparr>architecture := target\<rparr>) = do {
      (status, s) \<leftarrow> parse_args io argv ?s;
      if status \<noteq> 0 then Some (-1, s)
      else Some (0, init_singlestep_req (init_register_module (architecture_of target) (init_memory_module s)))
    }"
    using assms(1)
    by (simp add: initialise_plugin_def init_variables_def blank_def plenty_malloc init_fault_list_def tb_info_init_def)
  have "pipes ?s = Some ?none" "guest ?s = g" by (simp_all add: blank_def)
  then obtain g' q where q: "parse_args io argv ?s = Some (-1, ?s\<lparr>guest := g', pipes := Some q\<rparr>)"
    using parse_args_refuses [of ?s argv io] assms(2) False by auto
  have "abort_install (?s\<lparr>guest := g', pipes := Some q\<rparr>) = Some (-1, ?s\<lparr>guest := g', pipes := Some q\<rparr>)"
    by (simp add: abort_install_def blank_def tb_info_free_def delete_fault_trigger_addresses_def delete_fault_queue_def
        tb_faulted_free_def tb_exec_order_free_def)
  then have "qemu_plugin_install e io target argv (blank g) = Some (-1, ?s\<lparr>guest := g', pipes := Some q\<rparr>)"
    using False start q by (simp add: qemu_plugin_install_def Let_def)
  then show ?thesis by (simp add: blank_def)
qed

text \<open>The pipe of the configuration is named twice, the one of the data not at all.\<close>

theorem refused_installation_leaves_nothing_witness:
  "\<exists>s. qemu_plugin_install demo_env (demo_io demo_message demo_faults) ''arm'' [''control=c'', ''config=f'', ''config=d'']
      (blank demo_guest) = Some (-1, s) \<and> \<not> tb_trans_registered s \<and> cbs s = []"
proof -
  have "\<not> names_all_pipes [''control=c'', ''config=f'', ''config=d'']"
    by (simp add: names_all_pipes_def starts_with_def)
  then show ?thesis
    using refused_installation_leaves_nothing [OF demo_plenty, of "''arm''" "[''control=c'', ''config=f'', ''config=d'']"
        "demo_io demo_message demo_faults" demo_guest] by blast
qed

end
