(* ===== verification/Spec2Isabelle.thy ===== *)
theory Spec2Isabelle
  imports AvlCopy FirstBlock EndPoints StartPoint Abort Refused
begin

text \<open>
  A model of the ARCHIE fault-injection plugin for QEMU, \<^verbatim>\<open>faultplugin/\<close>, and what it guarantees.

  \<^bold>\<open>The program.\<close>  QEMU loads the plugin and calls \<^verbatim>\<open>qemu_plugin_install\<close>.  The plugin opens three named
  pipes, reads a control message and a list of faults from two of them, and registers a callback for
  the translation of blocks.  While the guest runs, each translated block is compared with the start
  point, the end points and the trigger addresses of the faults, and callbacks are registered for its
  instructions.  A trigger that was hit often enough injects its fault into memory, an instruction or a
  register of the guest; a fault with a lifetime is taken back after so many instructions.  Meanwhile the
  plugin records blocks, executions, memory accesses, memory dumps, register dumps and the assembler of
  faulted blocks.  At an end point, after the maximal number of instructions or when QEMU aborts, it sends
  everything in one message through the third pipe.

  \<^bold>\<open>How it is modelled.\<close>  The globals of each component are a record; the records extend each other in the
  order in which the components use each other (\<open>machine\<close>, \<open>singlestep_state\<close>, \<open>fault_list_state\<close>,
  \<open>memdump_state\<close>, \<open>register_state\<close>, \<open>tb_info_state\<close>, \<open>tb_exec_state\<close>, \<open>tb_faulted_state\<close>,
  \<open>trigger_state\<close>, \<open>mem_info_state\<close>, \<open>plugin_state\<close>), so that a function sees the part it works on and the
  lemmas about it hold in every extension.  Structs that are linked by pointers live in a store from
  references to records; integers have their width.  A function that runs into undefined
  behaviour or does not return is \<open>None\<close>; error codes are values; \<^verbatim>\<open>exit\<close> is the left side of a
  sum.  The guest, QEMU's plugin API and \<^verbatim>\<open>malloc\<close> are a parameter \<open>env\<close>; the file operations, the
  packing and unpacking of messages, \<^verbatim>\<open>sigaction\<close> and the tables of GLib a parameter \<open>io\<close>.

  \<^bold>\<open>The theories\<close>, with the files they model.  Names of operations are those of the code.
  \<^item> \<open>Prelude\<close>: array access, linked lists in a store (\<open>chain\<close>, \<open>walk\<close>, \<open>free_chain\<close>), the contract of
    a linked struct as the locale \<open>linked_cell\<close>, interpreted for each of the linked lists.
  \<^item> \<open>Machine\<close>: the environment, callbacks, and what the plugin relies on (\<open>ram\<close>, \<open>regs_ok\<close>, \<open>plenty\<close>).
  \<^item> \<open>Avl\<close>, \<open>AvlDelete\<close>, \<open>AvlTraverse\<close>, \<open>AvlCopy\<close>: \<^verbatim>\<open>lib/avl.c\<close>, with pointers into a tree as paths;
    \<open>AvlCorrect\<close> and the ends of the others prove it.  The order of the items is the locale
    \<open>avl_order\<close>, interpreted on the two comparison functions of the plugin.
  \<^item> \<open>Protobuf\<close>: the structs of \<^verbatim>\<open>protobuf/*.pb-c.h\<close> the plugin fills and reads.
  \<^item> \<open>SingleStep\<close> (\<^verbatim>\<open>singlestep.c\<close>), \<open>FaultList\<close> (\<^verbatim>\<open>fault_list.c\<close>), \<open>MemDump\<close>
    (\<^verbatim>\<open>faultdata.c\<close>), \<open>RegisterDump\<close> (\<^verbatim>\<open>registerdump.c\<close>), \<open>TbInfo\<close> (\<^verbatim>\<open>tb_info_data_collection.c\<close>),
    \<open>TbExec\<close> (\<^verbatim>\<open>tb_exec_data_collection.c\<close>), \<open>TbFaulted\<close> (\<^verbatim>\<open>tb_faulted_collection.c\<close>),
    \<open>FaultInjection\<close> (\<^verbatim>\<open>fault_injection.c\<close>).
  \<^item> From \<^verbatim>\<open>faultplugin.c\<close>: \<open>Triggers\<close> (the vectors of triggers and live faults), \<open>MemInfo\<close> (memory
    accesses), \<open>Control\<close> (pipes, command line, messages), \<open>Handlers\<close> (translation, trigger and
    execution callbacks), \<open>EndDump\<close> (final dump, with \<^verbatim>\<open>memmap_collection.c\<close>, and the callbacks of start, end and
    maximum), \<open>Install\<close> (initialisation, abort path, signal handler).
  \<^item> \<open>Engine\<close>, \<open>EngineRun\<close>, \<open>PipeCorrect\<close>, \<open>EndCorrect\<close>, \<open>InstallCorrect\<close>: injections, pipes, the final dump
    and the installation are total and do what they promise.
  \<^item> \<open>Safety\<close> defines the events QEMU can deliver (\<open>enabled\<close>), the handling of one (\<open>handle_event\<close>), runs
    (\<open>plugin_run\<close>) and the invariant \<open>plugin_ok\<close>; \<open>Runs\<close> proves that every event keeps it.  \<open>RunCorrect\<close>,
    \<open>FaultLife\<close>, \<open>FirstBlock\<close>, \<open>StartPoint\<close>, \<open>EndPoints\<close>, \<open>Abort\<close>, \<open>Refused\<close> state what a
    whole run, a fault, a start or end point, an abort and a failed installation do.

  \<^bold>\<open>What is shown.\<close>  (1) From the installation to the end of the process: the installation puts the messages into
  effect or leaves nothing behind; no event leads to undefined behaviour and all lists, trees and vectors stay
  well-formed; an observed run ends itself; the report is complete and holds exactly the events of the
  run, or of its part after the start point; a memory fault appears, lasts and is taken back as configured.
  (2) The components refine simple specifications: the AVL tree a sorted list with the recursive insertion
  and deletion of the textbook, the collections the tables and sequences of what was recorded, the ring buffer the
  last hundred elements, the pipes the message that was put in.  (3) Where the code does not do
  what it means to, the theorem says what it does instead: the overwritten trigger number in the first block, the
  reversal of OVERWRITE faults, registers that lose their upper half, accesses 4 GiB apart, the block
  before a fault, the uninitialised register value, pipes that end early, the recovery of
  \<^verbatim>\<open>avl_copy\<close>, the flags of the abort handler.

  \<^bold>\<open>Bounds.\<close>  A balanced tree with fewer than \<open>2 ^ 64\<close> items has a height below 92, which is why the fixed
  arrays of \<^verbatim>\<open>avl.c\<close> suffice.  Message lengths, dump lengths and the number of faults are below \<open>2 ^ 31\<close>,
  because the code keeps them in an \<^verbatim>\<open>int\<close>.  The liveness of a run asks for \<^verbatim>\<open>max_duration\<close> of at most
  \<open>2 ^ 30\<close> and blocks of fewer than \<open>2 ^ 30\<close> instructions, so that the counter does not wrap.  \<open>enabled\<close> restricts
  memory accesses to pairs on which their comparison is an order, and the number of executions to
  \<open>2 ^ 64\<close>.  No loop of the model has fuel: loops that may not end are partial functions, and where one must end,
  that is part of the theorem.

  \<^bold>\<open>Not modelled.\<close>  The generated code in \<^verbatim>\<open>protobuf/*.pb-c.c\<close> is tables and calls of the protobuf-c library;
  the plugin's use of it is in \<open>io\<close>.  \<^verbatim>\<open>free_protobuf_message\<close> releases the message after it was sent and changes no
  other state; \<^verbatim>\<open>print_assembler\<close> and \<^verbatim>\<open>insn_exec_cb\<close> only print, as do the calls of
  \<^verbatim>\<open>qemu_plugin_outs\<close> everywhere.  \<^verbatim>\<open>avl_malloc\<close> and \<^verbatim>\<open>avl_free\<close> are \<^verbatim>\<open>malloc\<close> and
  \<^verbatim>\<open>free\<close>.  The Python front end, the emulation worker in Rust and the examples are other programs.
  Callbacks run one at a time, as QEMU delivers them to a guest with one processor.
\<close>

end
